(* ===== verification/Go_Prelude.thy ===== *)
theory Go_Prelude
  imports Main "HOL-Library.Word" "HOL-Library.Monad_Syntax"
begin

text \<open>
  Conventions shared by every component theory.

  A Go call that does not return normally (an index or slice expression out of range, or a loop
  that never ends) is the value \<open>None\<close>; a call that returns is \<open>Some\<close>. A Go \<open>error\<close> result is an
  ordinary value: the \<open>Inl\<close> of a sum whose \<open>Inr\<close> is the success value. Fixed-width integers are
  words; the Go \<open>int\<close> type (64 bits on the platforms the library targets) is an \<open>int\<close> with
  \<open>wrap64\<close> written where an operation can leave the range, or a \<open>nat\<close> for lengths and offsets that
  only grow from zero.
\<close>

unbundle bit_operations_syntax

type_synonym byte = "8 word"
type_synonym u16 = "16 word"
type_synonym u32 = "32 word"
type_synonym u64 = "64 word"

text \<open>What a \<open>MarshalLogObject\<close> adds to its encoder: the fields in order. \<open>LTime None\<close> is the zero time.\<close>

datatype log_value = LBool bool | LUint64 u64 | LInt int | LTime "int option" | LDuration int

type_synonym log_fields = "(string \<times> log_value) list"

named_theorems go_defs "definitions of the Go primitives"
named_theorems inv_intros "invariant preservation, one rule per operation"

section \<open>Index and slice expressions\<close>

definition go_at :: "'a list \<Rightarrow> nat \<Rightarrow> 'a option" where
  "go_at xs i = (if i < length xs then Some (xs ! i) else None)"

definition go_from :: "'a list \<Rightarrow> nat \<Rightarrow> 'a list option" where
  "go_from xs i = (if i \<le> length xs then Some (drop i xs) else None)"

definition go_slice :: "'a list \<Rightarrow> nat \<Rightarrow> nat \<Rightarrow> 'a list option" where
  "go_slice xs i j = (if i \<le> j \<and> j \<le> length xs then Some (take (j - i) (drop i xs)) else None)"

text \<open>Assignment to an element.\<close>

definition go_set :: "'a list \<Rightarrow> nat \<Rightarrow> 'a \<Rightarrow> 'a list option" where
  "go_set xs i x = (if i < length xs then Some (xs[i := x]) else None)"

lemma go_set_Some [simp]: "i < length xs \<Longrightarrow> go_set xs i x = Some (xs[i := x])"
  by (simp add: go_set_def)

text \<open>The built-in \<open>copy\<close>: as many elements as both sides have.\<close>

definition go_copy :: "'a list \<Rightarrow> 'a list \<Rightarrow> 'a list" where
  "go_copy dst src = take (length dst) src @ drop (length src) dst"

lemma go_at_Some [simp]: "i < length xs \<Longrightarrow> go_at xs i = Some (xs ! i)"
  by (simp add: go_at_def)

lemma go_at_None [simp]: "length xs \<le> i \<Longrightarrow> go_at xs i = None"
  by (simp add: go_at_def)

lemma go_at_eq_Some_iff: "go_at xs i = Some x \<longleftrightarrow> i < length xs \<and> x = xs ! i"
  by (auto simp: go_at_def)

lemma go_from_Some [simp]: "i \<le> length xs \<Longrightarrow> go_from xs i = Some (drop i xs)"
  by (simp add: go_from_def)

lemma go_slice_Some [simp]:
  "i \<le> j \<Longrightarrow> j \<le> length xs \<Longrightarrow> go_slice xs i j = Some (take (j - i) (drop i xs))"
  by (simp add: go_slice_def)

lemma length_go_copy [simp]: "length (go_copy dst src) = length dst"
  by (simp add: go_copy_def)

lemma go_copy_fits: "length src \<le> length dst \<Longrightarrow> go_copy dst src = src @ drop (length src) dst"
  by (simp add: go_copy_def)

section \<open>The Go int\<close>

definition wrap64 :: "int \<Rightarrow> int" where
  "wrap64 i = sint (word_of_int i :: u64)"

text \<open>The conversion \<open>int(x)\<close> of an unsigned word.\<close>

definition go_int :: "'a::len word \<Rightarrow> int" where
  "go_int x = sint (ucast x :: u64)"

lemma wrap64_eq: "wrap64 i = (i + 9223372036854775808) mod 18446744073709551616 - 9223372036854775808"
  by (simp add: wrap64_def int_word_sint)

lemma wrap64_id: "- 9223372036854775808 \<le> i \<Longrightarrow> i < 9223372036854775808 \<Longrightarrow> wrap64 i = i"
  by (simp add: wrap64_eq)

lemma go_int_eq_wrap64: "go_int (x :: 'a::len word) = wrap64 (uint x)"
  by (simp only: go_int_def wrap64_def ucast_eq)

lemma go_int_small: "uint x < 9223372036854775808 \<Longrightarrow> go_int (x :: 'a::len word) = uint x"
  unfolding go_int_eq_wrap64 by (rule wrap64_id) (use uint_ge_0 [of x] in linarith)+

section \<open>Small words\<close>

lemma take_bit_small: "x < 2 ^ n \<Longrightarrow> take_bit n (x :: 'a::len word) = x"
  by (simp add: take_bit_eq_mask less_mask_eq)

lemma bit_less_exp: "x < 2 ^ n \<Longrightarrow> bit (x :: 'a::len word) k \<Longrightarrow> k < n"
  using take_bit_small [of x n] by (metis bit_take_bit_iff)

lemma bits_less_exp:
  assumes "\<And>k. bit x k \<Longrightarrow> k < n" and n: "n < LENGTH('a)"
  shows "(x :: 'a::len word) < 2 ^ n"
proof -
  have "x = take_bit n x" by (rule bit_word_eqI) (use assms(1) in \<open>auto simp: bit_take_bit_iff\<close>)
  then have "uint x = take_bit n (uint x)" using n by (metis unsigned_take_bit_eq)
  then have "uint x < 2 ^ n" by (metis take_bit_int_less_exp)
  then show ?thesis using n by (simp add: word_2p_lem word_size)
qed

lemma unat_less_exp: "unat (x :: 'a::len word) < 2 ^ LENGTH('a)"
proof -
  have "int (unat x) < int (2 ^ LENGTH('a))" using uint_lt2p [of x] by simp
  then show ?thesis by (simp only: of_nat_less_iff)
qed

lemma uint_neg: "y \<noteq> 0 \<Longrightarrow> uint (- y :: 'a::len word) = 2 ^ LENGTH('a) - uint y"
proof -
  assume "y \<noteq> 0"
  then have y: "0 < uint y" "uint y < 2 ^ LENGTH('a)"
    using uint_ge_0 [of y] uint_0_iff [of y] uint_lt2p [of y] by linarith+
  have "uint (- y) = (- uint y) mod 2 ^ LENGTH('a)" by (simp add: uint_word_ariths)
  also have "\<dots> = (2 ^ LENGTH('a) - uint y) mod 2 ^ LENGTH('a)" by (simp add: minus_mod_self1)
  also have "\<dots> = 2 ^ LENGTH('a) - uint y" by (rule mod_pos_pos_trivial) (use y in linarith)+
  finally show ?thesis .
qed

lemma unat_neg: "y \<noteq> 0 \<Longrightarrow> unat (- y :: 'a::len word) = 2 ^ LENGTH('a) - unat y"
proof -
  assume "y \<noteq> 0"
  then have "int (unat (- y)) = int (2 ^ LENGTH('a)) - int (unat y)" using uint_neg [of y] by simp
  moreover have "unat y \<le> 2 ^ LENGTH('a)" using unat_less_exp [of y] by linarith
  ultimately show ?thesis by (metis of_nat_diff of_nat_eq_iff)
qed

lemma uint_drop_bit: "uint (drop_bit n (x :: 'a::len word)) = uint x div 2 ^ n"
  by (simp only: unsigned_drop_bit_eq) (simp add: drop_bit_eq_div take_bit_int_eq_self)

lemma uint_mask: "uint (x AND mask n :: 'a::len word) = uint x mod 2 ^ n"
  by (simp only: take_bit_eq_mask [symmetric] unsigned_take_bit_eq) (simp add: take_bit_eq_mod)

text \<open>Testing one bit with a shifted constant.\<close>

lemma and_push_bit_eq_0: "(x :: 'a::len word) AND push_bit n 1 = 0 \<longleftrightarrow> \<not> bit x n"
  by (simp add: bit_iff_and_push_bit_not_eq_0)

section \<open>Big-endian fields (encoding/binary)\<close>

fun be_bytes :: "nat \<Rightarrow> u64 \<Rightarrow> byte list" where
  "be_bytes 0 v = []"
| "be_bytes (Suc n) v = be_bytes n (drop_bit 8 v) @ [ucast v]"

definition be_val :: "byte list \<Rightarrow> u64" where
  "be_val bs = foldl (\<lambda>acc b. push_bit 8 acc OR ucast b) 0 bs"

lemma length_be_bytes [simp]: "length (be_bytes n v) = n"
  by (induction n arbitrary: v) auto

lemma be_val_snoc: "be_val (bs @ [b]) = push_bit 8 (be_val bs) OR ucast b"
  by (simp add: be_val_def)

lemma be_val_be_bytes: "be_val (be_bytes n v) = take_bit (8 * n) v"
proof (induction n arbitrary: v)
  case 0
  show ?case by (simp add: be_val_def)
next
  case (Suc n)
  have "be_val (be_bytes (Suc n) v) =
      push_bit 8 (take_bit (8 * n) (drop_bit 8 v)) OR ucast (ucast v :: byte)"
    by (simp add: be_val_snoc Suc.IH)
  also have "\<dots> = take_bit (8 * Suc n) v"
    by (rule bit_word_eqI) (auto simp: bit_simps not_le not_less)
  finally show ?case .
qed

definition put_be :: "nat \<Rightarrow> byte list \<Rightarrow> u64 \<Rightarrow> byte list option" where
  "put_be n buf v = (if n \<le> length buf then Some (be_bytes n v @ drop n buf) else None)"

definition get_be :: "nat \<Rightarrow> byte list \<Rightarrow> u64 option" where
  "get_be n buf = (if n \<le> length buf then Some (be_val (take n buf)) else None)"

section \<open>Runs of a component\<close>

text \<open>
  A component is used through a sequence of calls. The interface: \<open>step\<close> is one call with its
  arguments, \<open>ok\<close> the contract on those arguments, \<open>inv\<close> what every such call keeps. A run of
  calls keeps it too.
\<close>

locale component =
  fixes inv :: "'s \<Rightarrow> bool"
    and ok :: "'c \<Rightarrow> bool"
    and step :: "'c \<Rightarrow> 's \<Rightarrow> 's"
  assumes step_inv: "inv s \<Longrightarrow> ok c \<Longrightarrow> inv (step c s)"
begin

lemma run_inv: "inv s \<Longrightarrow> list_all ok cs \<Longrightarrow> inv (fold step cs s)"
  by (induction cs arbitrary: s) (auto intro: step_inv)

end

end
