(* ===== verification/Wraparound.thy ===== *)
theory Wraparound
  imports Go_Prelude
begin

text \<open>
  The sequence-number and timestamp unwrapper, \<^verbatim>\<open>pkg/utils/wraparound.go\<close>. The type parameters \<open>T\<close> and
  \<open>ET\<close> are the word lengths \<open>'t\<close> and \<open>'e\<close>; every field of the Go struct is a field of the record, and
  every method takes the record and returns it updated.
\<close>

section \<open>State\<close>

record wrap_around_params =
  IsRestartAllowed :: bool

record (overloaded) ('t, 'e) wrap_around =
  wa_params :: wrap_around_params
  wa_fullRange :: "'e word"
  wa_initialized :: bool
  wa_start :: "'t word"
  wa_highest :: "'t word"
  wa_cycles :: "'e word"
  wa_extendedHighest :: "'e word"

record (overloaded) 'e update_result =
  IsUnhandled :: bool
  IsRestart :: bool
  PreExtendedStart :: "'e word"
  PreExtendedHighest :: "'e word"
  ExtendedVal :: "'e word"

text \<open>A named Go result starts as the zero value.\<close>

definition zero_result :: "('e::len) update_result" where
  "zero_result = \<lparr>IsUnhandled = False, IsRestart = False, PreExtendedStart = 0,
     PreExtendedHighest = 0, ExtendedVal = 0\<rparr>"

definition NewWrapAround :: "wrap_around_params \<Rightarrow> ('t::len, 'e::len) wrap_around" where
  "NewWrapAround params = \<lparr>wa_params = params, wa_fullRange = push_bit LENGTH('t) 1,
     wa_initialized = False, wa_start = 0, wa_highest = 0, wa_cycles = 0, wa_extendedHighest = 0\<rparr>"

section \<open>Operations\<close>

text \<open>The log fields of a tracker and of a result; a nil pointer has none.\<close>

definition wrap_around_MarshalLogObject :: "('t::len, 'e::len) wrap_around option \<Rightarrow> log_fields" where
  "wrap_around_MarshalLogObject wo = (case wo of
     None \<Rightarrow> []
   | Some w \<Rightarrow> [(''fullRange'', LUint64 (ucast (wa_fullRange w))), (''initialized'', LBool (wa_initialized w)),
       (''start'', LUint64 (ucast (wa_start w))), (''highest'', LUint64 (ucast (wa_highest w))),
       (''cycles'', LUint64 (ucast (wa_cycles w))), (''extendedHighest'', LUint64 (ucast (wa_extendedHighest w)))])"

definition update_result_MarshalLogObject :: "('e::len) update_result option \<Rightarrow> log_fields" where
  "update_result_MarshalLogObject ro = (case ro of
     None \<Rightarrow> []
   | Some r \<Rightarrow> [(''IsUnhandled'', LBool (IsUnhandled r)), (''IsRestart'', LBool (IsRestart r)),
       (''PreExtendedStart'', LUint64 (ucast (PreExtendedStart r))), (''PreExtendedHighest'', LUint64 (ucast (PreExtendedHighest r))),
       (''ExtendedVal'', LUint64 (ucast (ExtendedVal r)))])"

definition getExtended :: "'e::len word \<Rightarrow> 't::len word \<Rightarrow> 'e word" where
  "getExtended cycles val = cycles + ucast val"

definition updateExtendedHighest :: "('t::len, 'e::len) wrap_around \<Rightarrow> ('t, 'e) wrap_around" where
  "updateExtendedHighest w = w\<lparr>wa_extendedHighest := getExtended (wa_cycles w) (wa_highest w)\<rparr>"

definition isWrapBack :: "('t::len, 'e::len) wrap_around \<Rightarrow> 't word \<Rightarrow> 't word \<Rightarrow> bool" where
  "isWrapBack w earlier later \<longleftrightarrow>
     ucast later < drop_bit 1 (wa_fullRange w) \<and> ucast earlier \<ge> drop_bit 1 (wa_fullRange w)"

definition Seed :: "('t::len, 'e::len) wrap_around \<Rightarrow> ('t, 'e) wrap_around \<Rightarrow> ('t, 'e) wrap_around" where
  "Seed w from = updateExtendedHighest (w\<lparr>wa_initialized := wa_initialized from,
     wa_start := wa_start from, wa_highest := wa_highest from, wa_cycles := wa_cycles from\<rparr>)"

definition GetStart :: "('t::len, 'e::len) wrap_around \<Rightarrow> 't word" where
  "GetStart w = wa_start w"

definition GetExtendedStart :: "('t::len, 'e::len) wrap_around \<Rightarrow> 'e word" where
  "GetExtendedStart w = ucast (wa_start w)"

definition GetHighest :: "('t::len, 'e::len) wrap_around \<Rightarrow> 't word" where
  "GetHighest w = wa_highest w"

definition GetExtendedHighest :: "('t::len, 'e::len) wrap_around \<Rightarrow> 'e word" where
  "GetExtendedHighest w = wa_extendedHighest w"

definition maybeAdjustStart ::
  "('t::len, 'e::len) wrap_around \<Rightarrow> 't word \<Rightarrow> 'e update_result \<times> ('t, 'e) wrap_around" where
  "maybeAdjustStart w val =
    (let cycles = wa_cycles w;
         totalNum = GetExtendedHighest w - GetExtendedStart w + 1
     in if totalNum > drop_bit 1 (wa_fullRange w) then
          let cycles = (if isWrapBack w val (wa_highest w) then cycles - wa_fullRange w else cycles)
          in (zero_result\<lparr>PreExtendedHighest := wa_extendedHighest w,
                ExtendedVal := getExtended cycles val\<rparr>, w)
        else
          let (result, w, cycles) =
            (if val - wa_start w > ucast (drop_bit 1 (wa_fullRange w)) then
               if IsRestartAllowed (wa_params w) then
                 let result = zero_result\<lparr>IsRestart := True, PreExtendedStart :=
                       (if val > wa_start w then wa_fullRange w + ucast (wa_start w)
                        else ucast (wa_start w))\<rparr>;
                     (w', cycles) =
                       (if isWrapBack w val (wa_highest w) then
                          (updateExtendedHighest (w\<lparr>wa_cycles := wa_fullRange w\<rparr>), 0)
                        else (w, cycles))
                 in (result, w'\<lparr>wa_start := val\<rparr>, cycles)
               else (zero_result\<lparr>IsUnhandled := True\<rparr>, w, cycles)
             else
               (zero_result, w,
                if isWrapBack w val (wa_highest w) then cycles - wa_fullRange w else cycles))
          in (result\<lparr>PreExtendedHighest := wa_extendedHighest w,
                ExtendedVal := getExtended cycles val\<rparr>, w))"

definition UpdateWithOrderKnown ::
  "('t::len, 'e::len) wrap_around \<Rightarrow> 't word \<Rightarrow> bool \<Rightarrow> 'e update_result \<times> ('t, 'e) wrap_around" where
  "UpdateWithOrderKnown w val orderKnown =
    (if \<not> wa_initialized w then
       (zero_result\<lparr>PreExtendedHighest := ucast val - 1, ExtendedVal := ucast val\<rparr>,
        (updateExtendedHighest (w\<lparr>wa_start := val, wa_highest := val\<rparr>))\<lparr>wa_initialized := True\<rparr>)
     else if \<not> orderKnown \<and> val - wa_highest w > ucast (drop_bit 1 (wa_fullRange w)) then
       maybeAdjustStart w val
     else
       let pre = wa_extendedHighest w;
           w = (if val < wa_highest w then w\<lparr>wa_cycles := wa_cycles w + wa_fullRange w\<rparr> else w);
           w = updateExtendedHighest (w\<lparr>wa_highest := val\<rparr>)
       in (zero_result\<lparr>PreExtendedHighest := pre, ExtendedVal := wa_extendedHighest w\<rparr>, w))"

definition Update ::
  "('t::len, 'e::len) wrap_around \<Rightarrow> 't word \<Rightarrow> 'e update_result \<times> ('t, 'e) wrap_around" where
  "Update w val = UpdateWithOrderKnown w val False"

definition ResetHighest :: "('t::len, 'e::len) wrap_around \<Rightarrow> 'e word \<Rightarrow> ('t, 'e) wrap_around" where
  "ResetHighest w ev = updateExtendedHighest (w\<lparr>wa_highest := ucast ev,
     wa_cycles := ev AND NOT (wa_fullRange w - 1)\<rparr>)"

definition UndoUpdate ::
  "('t::len, 'e::len) wrap_around \<Rightarrow> 'e update_result \<Rightarrow> ('t, 'e) wrap_around" where
  "UndoUpdate w result =
    (if \<not> wa_initialized w \<or> IsUnhandled result \<or> PreExtendedHighest result \<ge> ExtendedVal result
     then w else ResetHighest w (PreExtendedHighest result))"

text \<open>The \<open>int\<close> argument converts to \<open>ET\<close> by truncation.\<close>

definition Rollover ::
  "('t::len, 'e::len) wrap_around \<Rightarrow> 't word \<Rightarrow> int \<Rightarrow> 'e update_result \<times> ('t, 'e) wrap_around" where
  "Rollover w val numCycles =
    (if numCycles < 0 \<or> \<not> wa_initialized w then Update w val
     else
       let pre = wa_extendedHighest w;
           w = w\<lparr>wa_cycles := wa_cycles w + word_of_int numCycles * wa_fullRange w, wa_highest := val\<rparr>;
           w = updateExtendedHighest w
       in (zero_result\<lparr>PreExtendedHighest := pre, ExtendedVal := wa_extendedHighest w\<rparr>, w))"

definition RollbackRestart :: "('t::len, 'e::len) wrap_around \<Rightarrow> 'e word \<Rightarrow> ('t, 'e) wrap_around" where
  "RollbackRestart w ev =
    (let w = (if isWrapBack w (wa_start w) (ucast ev) then
                updateExtendedHighest (w\<lparr>wa_cycles := wa_cycles w - wa_fullRange w\<rparr>) else w)
     in w\<lparr>wa_start := ucast ev\<rparr>)"

section \<open>Arithmetic of one window\<close>

lemma mod_eqI: "0 \<le> r \<Longrightarrow> r < R \<Longrightarrow> v = R * k + r \<Longrightarrow> v mod R = (r::int)"
  by simp

text \<open>
  \<open>R\<close> is the full range and \<open>F\<close> half of it; \<open>h\<close> is the highest position so far and \<open>v\<close> the new one.
  The cycle base of a position is the position less its remainder.
\<close>

lemma ahead_cycles:
  assumes "h \<le> v" and "v < h + R"
  shows "v - v mod R = h - h mod R + (if v mod R < h mod R then R else (0::int))"
proof -
  have R: "0 < R" using assms by linarith
  obtain q a where h: "h = R * q + a" and ha: "h mod R = a" and a: "0 \<le> a" "a < R"
    by (rule that [of "h div R" "h mod R"]) (use R in simp_all)
  show ?thesis
  proof (cases "v < R * q + R")
    case True
    have "v mod R = v - R * q"
      by (rule mod_eqI [where k = q]) (use True assms h a in linarith)+
    then show ?thesis using True assms h a unfolding ha by (simp split: if_splits)
  next
    case False
    have "R * (q + 1) = R * q + R" by (simp add: algebra_simps)
    then have "v mod R = v - R * q - R"
      by (intro mod_eqI [where k = "q + 1"]) (use False assms h a in linarith)+
    then show ?thesis using False assms h a unfolding ha by (simp split: if_splits)
  qed
qed

lemma behind_cycles:
  assumes "h - F < v" and "v < h" and R: "R = 2 * F"
  shows "v - v mod R = h - h mod R - (if h mod R < F \<and> F \<le> v mod R then R else (0::int))"
proof -
  have "0 < R" using assms by linarith
  then obtain q a where h: "h = R * q + a" and ha: "h mod R = a" and a: "0 \<le> a" "a < R"
    by (intro that [of "h div R" "h mod R"]) simp_all
  show ?thesis
  proof (cases "R * q \<le> v")
    case True
    have "v mod R = v - R * q"
      by (rule mod_eqI [where k = q]) (use True assms h a in linarith)+
    then show ?thesis using True assms h a unfolding ha by (simp split: if_splits)
  next
    case False
    have "R * (q - 1) = R * q - R" by (simp add: algebra_simps)
    then have "v mod R = v - R * q + R"
      by (intro mod_eqI [where k = "q - 1"]) (use False assms h a in linarith)+
    then show ?thesis using False assms h a unfolding ha by (simp split: if_splits)
  qed
qed

lemma ahead_gap: "h \<le> v \<Longrightarrow> v < h + R \<Longrightarrow> (v - h) mod R = v - (h::int)"
  by simp

lemma behind_gap: "v < h \<Longrightarrow> h - R \<le> v \<Longrightarrow> (v - h) mod R = v - h + (R::int)"
  by (rule mod_eqI [where k = "-1"]) auto

section \<open>Words and positions\<close>


definition half_range :: "'t::len itself \<Rightarrow> int" where
  "half_range TYPE('t) = 2 ^ (LENGTH('t) - 1)"

lemma two_half_range: "2 ^ LENGTH('t) = 2 * half_range TYPE('t::len)"
  by (simp add: half_range_def flip: power_Suc)

lemma half_range_pos: "0 < half_range TYPE('t::len)"
  by (simp add: half_range_def)

lemma uint_half_full:
  assumes "LENGTH('t::len) < LENGTH('e::len)"
  shows "uint (drop_bit 1 (push_bit LENGTH('t) 1 :: 'e word)) = half_range TYPE('t)"
proof -
  have "drop_bit 1 (push_bit LENGTH('t) 1 :: 'e word) = push_bit (LENGTH('t) - 1) 1"
    using assms by (intro bit_word_eqI) (auto simp: bit_simps)
  also have "\<dots> = word_of_int (half_range TYPE('t))"
    by (simp add: half_range_def push_bit_eq_mult)
  finally have "uint (drop_bit 1 (push_bit LENGTH('t) 1 :: 'e word)) =
      half_range TYPE('t) mod 2 ^ LENGTH('e)"
    by (simp only: uint_word_of_int)
  then show ?thesis
    using assms by (simp add: half_range_def)
qed

lemma uint_ucast_half_full:
  assumes "LENGTH('t::len) < LENGTH('e::len)"
  shows "uint (ucast (drop_bit 1 (push_bit LENGTH('t) 1 :: 'e word)) :: 't word) = half_range TYPE('t)"
proof -
  have "half_range TYPE('t) < 2 ^ LENGTH('t)"
    using two_half_range [where 't = 't] half_range_pos [where 't = 't] by linarith
  then show ?thesis
    using half_range_pos [where 't = 't] uint_half_full [OF assms]
    by (simp only: unsigned_ucast_eq take_bit_eq_mod) simp
qed

lemma ucast_of_int:
  assumes "LENGTH('t::len) < LENGTH('e::len)"
  shows "(ucast (word_of_int x :: 't word) :: 'e word) = word_of_int (x mod 2 ^ LENGTH('t))"
  by (simp add: ucast_eq uint_word_of_int)

lemma uint_sub_of_int:
  "uint (word_of_int x - word_of_int y :: 'a::len word) = (x - y) mod 2 ^ LENGTH('a)"
  by (simp add: uint_word_of_int flip: of_int_diff)

lemma of_int_full: "push_bit LENGTH('t::len) (1::'e::len word) = word_of_int (2 ^ LENGTH('t))"
  by (simp add: push_bit_eq_mult)


section \<open>Tracking a sequence of positions\<close>


text \<open>
  The record stands for the earliest position \<open>s\<close> and the highest position \<open>h\<close> of an unbounded
  sequence, counted from a base that puts \<open>s\<close> in cycle zero.
\<close>

definition tracks :: "('t::len, 'e::len) wrap_around \<Rightarrow> int \<Rightarrow> int \<Rightarrow> bool" where
  "tracks w s h \<longleftrightarrow> wa_initialized w \<and> wa_fullRange w = push_bit LENGTH('t) 1 \<and>
     wa_start w = word_of_int s \<and> wa_highest w = word_of_int h \<and>
     wa_cycles w = word_of_int (h - h mod 2 ^ LENGTH('t)) \<and>
     wa_extendedHighest w = word_of_int h \<and>
     0 \<le> s \<and> s < 2 ^ LENGTH('t) \<and> s \<le> h \<and> h < 2 ^ LENGTH('e)"

lemma getExtended_of_int:
  assumes "LENGTH('t::len) < LENGTH('e::len)"
  shows "getExtended (word_of_int (h - h mod 2 ^ LENGTH('t)) :: 'e word) (word_of_int h :: 't word) = word_of_int h"
  by (simp add: getExtended_def ucast_of_int [OF assms] flip: of_int_add)

lemma isWrapBack_of_int:
  assumes len: "LENGTH('t::len) < LENGTH('e::len)"
    and full: "wa_fullRange (w :: ('t, 'e) wrap_around) = push_bit LENGTH('t) 1"
  shows "isWrapBack w (word_of_int v) (word_of_int h) \<longleftrightarrow>
     h mod 2 ^ LENGTH('t) < half_range TYPE('t) \<and> half_range TYPE('t) \<le> v mod 2 ^ LENGTH('t)"
proof -
  have *: "uint (ucast (word_of_int x :: 't word) :: 'e word) = x mod 2 ^ LENGTH('t)" for x
  proof -
    have "x mod 2 ^ LENGTH('t) < 2 ^ LENGTH('t)" by simp
    also have "(2::int) ^ LENGTH('t) < 2 ^ LENGTH('e)" using len by simp
    finally show ?thesis by (simp add: ucast_of_int [OF len] uint_word_of_int)
  qed
  show ?thesis
    unfolding isWrapBack_def full word_less_def word_le_def uint_half_full [OF len] * ..
qed

lemma tracks_new:
  assumes len: "LENGTH('t::len) < LENGTH('e::len)"
    and new: "\<not> wa_initialized w" "wa_fullRange w = push_bit LENGTH('t) 1" "wa_cycles w = 0"
    and v: "0 \<le> v" "v < 2 ^ LENGTH('t)"
  shows "\<exists>w'. Update (w :: ('t, 'e) wrap_around) (word_of_int v) =
     (zero_result\<lparr>PreExtendedHighest := word_of_int (v - 1), ExtendedVal := word_of_int v\<rparr>, w')
     \<and> tracks w' v v \<and> wa_params w' = wa_params w"
proof -
  have "(2::int) ^ LENGTH('t) < 2 ^ LENGTH('e)" using len by simp
  then have "v < 2 ^ LENGTH('e)" using v by linarith
  then show ?thesis
    using new v getExtended_of_int [OF len, of v]
    by (simp add: Update_def UpdateWithOrderKnown_def tracks_def updateExtendedHighest_def
        getExtended_def ucast_of_int [OF len])
qed

text \<open>The fields that say where the highest value is, apart from the start.\<close>

definition at_position :: "('t::len, 'e::len) wrap_around \<Rightarrow> int \<Rightarrow> bool" where
  "at_position w h \<longleftrightarrow> wa_fullRange w = push_bit LENGTH('t) 1 \<and> wa_highest w = word_of_int h \<and>
     wa_cycles w = word_of_int (h - h mod 2 ^ LENGTH('t)) \<and> wa_extendedHighest w = word_of_int h"

lemma tracks_at_position: "tracks w s h \<Longrightarrow> at_position w h"
  by (simp add: tracks_def at_position_def)

lemma update_ahead:
  assumes len: "LENGTH('t::len) < LENGTH('e::len)"
    and w: "at_position (w :: ('t, 'e) wrap_around) h" "wa_initialized w"
    and v: "h \<le> v" "v \<le> h + half_range TYPE('t)"
  shows "Update w (word_of_int v) =
     (zero_result\<lparr>PreExtendedHighest := word_of_int h, ExtendedVal := word_of_int v\<rparr>,
      w\<lparr>wa_cycles := word_of_int (v - v mod 2 ^ LENGTH('t)), wa_highest := word_of_int v,
        wa_extendedHighest := word_of_int v\<rparr>)"
proof -
  note R = two_half_range [where 't = 't] half_range_pos [where 't = 't]
  have near: "v < h + 2 ^ LENGTH('t)" using v R by linarith
  have f: "wa_fullRange w = push_bit LENGTH('t) 1" "wa_highest w = word_of_int h"
    using w unfolding at_position_def by blast+
  have gap: "\<not> word_of_int v - wa_highest w > ucast (drop_bit 1 (wa_fullRange w))"
    unfolding f word_less_def uint_ucast_half_full [OF len] uint_sub_of_int ahead_gap [OF v(1) near]
    using v by simp
  have wrapped: "word_of_int v < wa_highest w \<longleftrightarrow> v mod 2 ^ LENGTH('t) < h mod 2 ^ LENGTH('t)"
    by (simp add: f word_less_def uint_word_of_int)
  have "(if word_of_int v < wa_highest w then w\<lparr>wa_cycles := wa_cycles w + wa_fullRange w\<rparr> else w)
      = w\<lparr>wa_cycles := word_of_int (v - v mod 2 ^ LENGTH('t))\<rparr>"
    unfolding wrapped ahead_cycles [OF v(1) near] using w(1)
    by (simp add: at_position_def of_int_full)
  then show ?thesis
    using w gap getExtended_of_int [OF len, of v]
    by (simp add: Update_def UpdateWithOrderKnown_def Let_def at_position_def updateExtendedHighest_def)
qed

lemma tracks_ahead:
  assumes len: "LENGTH('t::len) < LENGTH('e::len)"
    and w: "tracks (w :: ('t, 'e) wrap_around) s h"
    and v: "h \<le> v" "v \<le> h + half_range TYPE('t)" "v < 2 ^ LENGTH('e)"
  shows "\<exists>w'. Update w (word_of_int v) =
     (zero_result\<lparr>PreExtendedHighest := word_of_int h, ExtendedVal := word_of_int v\<rparr>, w')
     \<and> tracks w' s v \<and> wa_params w' = wa_params w"
  using w v update_ahead [OF len tracks_at_position [OF w]] by (simp add: tracks_def)

lemma update_behind:
  assumes len: "LENGTH('t::len) < LENGTH('e::len)"
    and w: "tracks (w :: ('t, 'e) wrap_around) s h"
    and v: "h - half_range TYPE('t) < v" "v < h"
  shows "Update w (word_of_int v) = maybeAdjustStart w (word_of_int v)"
proof -
  note R = two_half_range [where 't = 't] half_range_pos [where 't = 't]
  have f: "wa_initialized w" "wa_fullRange w = push_bit LENGTH('t) 1" "wa_highest w = word_of_int h"
    using w unfolding tracks_def by blast+
  have "word_of_int v - wa_highest w > ucast (drop_bit 1 (wa_fullRange w))"
    unfolding f word_less_def uint_ucast_half_full [OF len] uint_sub_of_int
    by (subst behind_gap) (use v R in linarith)+
  then show ?thesis
    using f(1) by (simp add: Update_def UpdateWithOrderKnown_def)
qed

lemma half_seen_iff:
  assumes len: "LENGTH('t::len) < LENGTH('e::len)"
    and w: "tracks (w :: ('t, 'e) wrap_around) s h" and span: "h - s + 1 < 2 ^ LENGTH('e)"
  shows "GetExtendedHighest w - GetExtendedStart w + 1 > drop_bit 1 (wa_fullRange w)
    \<longleftrightarrow> half_range TYPE('t) < h - s + 1"
proof -
  have f: "wa_fullRange w = push_bit LENGTH('t) 1" "wa_start w = word_of_int s"
    "wa_extendedHighest w = word_of_int h" and s: "0 \<le> s" "s < 2 ^ LENGTH('t)" "s \<le> h"
    using w unfolding tracks_def by blast+
  have "GetExtendedHighest w - GetExtendedStart w + 1 = word_of_int (h - s + 1)"
    using f s by (simp add: GetExtendedHighest_def GetExtendedStart_def ucast_of_int [OF len])
  then show ?thesis
    using s span by (simp only: f word_less_def uint_half_full [OF len] uint_word_of_int) simp
qed

lemma before_start_iff:
  assumes len: "LENGTH('t::len) < LENGTH('e::len)"
    and w: "tracks (w :: ('t, 'e) wrap_around) s h"
    and v: "s - half_range TYPE('t) < v" "v \<le> s + half_range TYPE('t)"
  shows "word_of_int v - wa_start w > ucast (drop_bit 1 (wa_fullRange w)) \<longleftrightarrow> v < s"
proof -
  note R = two_half_range [where 't = 't] half_range_pos [where 't = 't]
  have f: "wa_fullRange w = push_bit LENGTH('t) 1" "wa_start w = word_of_int s"
    using w unfolding tracks_def by blast+
  have "half_range TYPE('t) < (v - s) mod 2 ^ LENGTH('t) \<longleftrightarrow> v < s"
  proof (cases "v < s")
    case True
    then show ?thesis
      by (subst behind_gap) (use v R in linarith)+
  next
    case False
    then show ?thesis
      by (subst ahead_gap) (use v R in linarith)+
  qed
  then show ?thesis
    by (simp only: f word_less_def uint_ucast_half_full [OF len] uint_sub_of_int)
qed

lemma behind_extended:
  assumes len: "LENGTH('t::len) < LENGTH('e::len)"
    and w: "tracks (w :: ('t, 'e) wrap_around) s h"
    and v: "h - half_range TYPE('t) < v" "v < h"
  shows "getExtended (if isWrapBack w (word_of_int v) (wa_highest w) then wa_cycles w - wa_fullRange w
      else wa_cycles w) (word_of_int v :: 't word) = word_of_int v"
proof -
  have f: "wa_fullRange w = push_bit LENGTH('t) 1" "wa_highest w = word_of_int h"
    "wa_cycles w = word_of_int (h - h mod 2 ^ LENGTH('t))"
    using w unfolding tracks_def by blast+
  have "(if isWrapBack w (word_of_int v) (wa_highest w) then wa_cycles w - wa_fullRange w
      else wa_cycles w) = word_of_int (v - v mod 2 ^ LENGTH('t))"
    unfolding behind_cycles [OF v two_half_range] f isWrapBack_of_int [OF len f(1)]
    by (simp add: of_int_full)
  then show ?thesis
    by (simp only: getExtended_of_int [OF len])
qed

lemma tracks_behind:
  assumes len: "LENGTH('t::len) < LENGTH('e::len)"
    and w: "tracks (w :: ('t, 'e) wrap_around) s h" and span: "h - s + 1 < 2 ^ LENGTH('e)"
    and v: "h - half_range TYPE('t) < v" "v < h" "s \<le> v"
  shows "Update w (word_of_int v) =
     (zero_result\<lparr>PreExtendedHighest := word_of_int h, ExtendedVal := word_of_int v\<rparr>, w)"
proof (cases "half_range TYPE('t) < h - s + 1")
  case True
  then show ?thesis
    using w half_seen_iff [OF len w span] behind_extended [OF len w v(1,2)]
    by (simp add: update_behind [OF len w v(1,2)] maybeAdjustStart_def Let_def tracks_def cong: if_cong)
next
  case False
  then have "\<not> word_of_int v - wa_start w > ucast (drop_bit 1 (wa_fullRange w))"
    using before_start_iff [OF len w, of v] v half_range_pos [where 't = 't] by linarith
  then show ?thesis
    using False w half_seen_iff [OF len w span] behind_extended [OF len w v(1,2)]
    by (simp add: update_behind [OF len w v(1,2)] maybeAdjustStart_def Let_def tracks_def cong: if_cong)
qed


text \<open>
  A position before the start is a restart: it becomes the new start. When it lies in the cycle
  before, every position moves up by one full range so that the new start is in cycle zero again.
\<close>

definition restart_shift :: "'t::len itself \<Rightarrow> int \<Rightarrow> int" where
  "restart_shift TYPE('t) v = (if v < 0 then 2 ^ LENGTH('t) else 0)"

lemma not_half_seen:
  assumes len: "LENGTH('t::len) < LENGTH('e::len)"
    and w: "tracks (w :: ('t, 'e) wrap_around) s h"
    and v: "h - half_range TYPE('t) < v" "v < s"
  shows "\<not> GetExtendedHighest w - GetExtendedStart w + 1 > drop_bit 1 (wa_fullRange w)"
    and "word_of_int v - wa_start w > ucast (drop_bit 1 (wa_fullRange w))"
proof -
  note R = two_half_range [where 't = 't] half_range_pos [where 't = 't]
  have sh: "s \<le> h" using w by (simp add: tracks_def)
  have "(2::int) ^ LENGTH('t) < 2 ^ LENGTH('e)" using len by simp
  then have span: "h - s + 1 < 2 ^ LENGTH('e)" using v R by linarith
  show "\<not> GetExtendedHighest w - GetExtendedStart w + 1 > drop_bit 1 (wa_fullRange w)"
    using half_seen_iff [OF len w span] v by linarith
  show "word_of_int v - wa_start w > ucast (drop_bit 1 (wa_fullRange w))"
    using before_start_iff [OF len w, of v] v sh R by linarith
qed

lemma wrap_back_before_start:
  assumes len: "LENGTH('t::len) < LENGTH('e::len)"
    and w: "tracks (w :: ('t, 'e) wrap_around) s h"
    and v: "h - half_range TYPE('t) < v" "v < s"
  shows "isWrapBack w (word_of_int v) (wa_highest w) \<longleftrightarrow> v < 0 \<or> 2 ^ LENGTH('t) \<le> h"
    and "v < 0 \<Longrightarrow> h < 2 ^ LENGTH('t)" and "h < 2 * 2 ^ LENGTH('t)"
    and "v mod 2 ^ LENGTH('t) = v + restart_shift TYPE('t) v"
proof -
  note R = two_half_range [where 't = 't] half_range_pos [where 't = 't]
  have f: "wa_fullRange w = push_bit LENGTH('t) 1" "wa_highest w = word_of_int h"
    and s: "0 \<le> s" "s < 2 ^ LENGTH('t)" "s \<le> h"
    using w unfolding tracks_def by blast+
  show neg: "v < 0 \<Longrightarrow> h < 2 ^ LENGTH('t)" and lim: "h < 2 * 2 ^ LENGTH('t)"
    using v s R by linarith+
  have hm: "h mod 2 ^ LENGTH('t) = (if 2 ^ LENGTH('t) \<le> h then h - 2 ^ LENGTH('t) else h)"
    using s lim by (auto intro: mod_eqI [where k = 1])
  show vm: "v mod 2 ^ LENGTH('t) = v + restart_shift TYPE('t) v"
    unfolding restart_shift_def using v s R by (auto intro: mod_eqI [where k = "-1"])
  show "isWrapBack w (word_of_int v) (wa_highest w) \<longleftrightarrow> v < 0 \<or> 2 ^ LENGTH('t) \<le> h"
    unfolding f(2) isWrapBack_of_int [OF len f(1)] hm vm restart_shift_def
    using v s R by auto
qed

lemma tracks_restart:
  fixes w :: "('t::len, 'e::len) wrap_around"
  assumes len: "LENGTH('t) < LENGTH('e)" and w: "tracks w s h"
    and v: "h - half_range TYPE('t) < v" "v < s"
    and allowed: "IsRestartAllowed (wa_params w)" and k: "k = restart_shift TYPE('t) v"
  shows "\<exists>w'. Update w (word_of_int v) =
     (zero_result\<lparr>IsRestart := True, PreExtendedStart := word_of_int (s + k),
        PreExtendedHighest := word_of_int (h + k), ExtendedVal := word_of_int (v + k)\<rparr>, w')
     \<and> tracks w' (v + k) (h + k) \<and> wa_params w' = wa_params w"
proof -
  note R = two_half_range [where 't = 't] half_range_pos [where 't = 't]
  note wb = wrap_back_before_start [OF len w v]
  have f: "wa_initialized w" "wa_fullRange w = word_of_int (2 ^ LENGTH('t))"
      "wa_start w = word_of_int s" "wa_highest w = word_of_int h"
      "wa_cycles w = word_of_int (h - h mod 2 ^ LENGTH('t))" "wa_extendedHighest w = word_of_int h"
    and s: "0 \<le> s" "s < 2 ^ LENGTH('t)" "s \<le> h" "h < 2 ^ LENGTH('e)"
    using w unfolding tracks_def of_int_full [symmetric] by blast+
  have vh: "v < h" using v s by linarith
  have later: "word_of_int v > wa_start w \<longleftrightarrow> v < 0"
    unfolding f word_less_def uint_word_of_int wb(4) restart_shift_def using v s R by auto
  have kv: "word_of_int (v + k) = (word_of_int v :: 't word)"
    and kh: "word_of_int (h + k) = (word_of_int h :: 't word)"
    by (simp_all add: k restart_shift_def flip: of_int_full [where 't = 't and 'e = 't])
  have range: "0 \<le> v + k" "v + k < 2 ^ LENGTH('t)"
    using v s R by (auto simp: k restart_shift_def)
  have val: "getExtended 0 (word_of_int v :: 't word) = (word_of_int (v + k) :: 'e word)"
    by (simp add: getExtended_def ucast_of_int [OF len] wb(4) k)
  have cyc: "h + k - (h + k) mod 2 ^ LENGTH('t) =
      (if v < 0 \<or> 2 ^ LENGTH('t) \<le> h then 2 ^ LENGTH('t) else 0)"
  proof -
    have "(h + k) mod 2 ^ LENGTH('t) = (if 2 ^ LENGTH('t) \<le> h then h - 2 ^ LENGTH('t) else h)"
      using s wb(2,3) by (auto simp: k restart_shift_def intro!: mod_eqI [where k = 1])
    then show ?thesis using wb(2) by (auto simp: k restart_shift_def)
  qed
  have hk: "h + k < 2 ^ LENGTH('e)"
  proof -
    have "(2::int) * 2 ^ LENGTH('t) \<le> 2 ^ LENGTH('e)"
      using len by (metis Suc_leI power_Suc power_increasing one_le_numeral)
    moreover have "h + k < 2 * 2 ^ LENGTH('t)"
      using s wb(3) v R by (auto simp: k restart_shift_def)
    ultimately show ?thesis by linarith
  qed
  let ?w = "w\<lparr>wa_cycles := (if v < 0 \<or> 2 ^ LENGTH('t) \<le> h then wa_fullRange w else wa_cycles w),
      wa_extendedHighest := word_of_int (h + k), wa_start := word_of_int v\<rparr>"
  show ?thesis
  proof (intro exI [of _ ?w] conjI)
    show "tracks ?w (v + k) (h + k)"
      unfolding tracks_def kv kh cyc using f range hk vh
      apply (auto simp: of_int_full)
      done
  next
    let ?bwd = "v < 0 \<or> 2 ^ LENGTH('t) \<le> h"
    have c0: "wa_cycles w = 0" "k = 0" if "\<not> ?bwd"
      using that f s by (simp_all add: k restart_shift_def)
    have upd: "(if ?bwd then (updateExtendedHighest (w\<lparr>wa_cycles := wa_fullRange w\<rparr>), 0) else (w, wa_cycles w))
        = (w\<lparr>wa_cycles := (if ?bwd then wa_fullRange w else wa_cycles w),
            wa_extendedHighest := word_of_int (h + k)\<rparr>, 0)"
      (is "?l = ?r")
    proof (cases ?bwd)
      case True
      have "getExtended (wa_fullRange w) (wa_highest w) = word_of_int (h + k)"
        using getExtended_of_int [OF len, of "h + k"] True unfolding cyc kh by (simp add: f)
      then show ?thesis using True by (simp add: updateExtendedHighest_def)
    next
      case False
      have "w = w\<lparr>wa_cycles := wa_cycles w, wa_extendedHighest := wa_extendedHighest w\<rparr>" by simp
      then have "w = w\<lparr>wa_cycles := 0, wa_extendedHighest := word_of_int (h + k)\<rparr>"
        using c0 f(6) False by simp
      then show ?thesis using False c0 by simp
    qed
    have st: "(if v < 0 then wa_fullRange w + ucast (wa_start w) else ucast (wa_start w)) = word_of_int (s + k)"
      using s by (simp add: f ucast_of_int [OF len] k restart_shift_def)
    show "Update w (word_of_int v) = (zero_result\<lparr>IsRestart := True, PreExtendedStart := word_of_int (s + k),
        PreExtendedHighest := word_of_int (h + k), ExtendedVal := word_of_int (v + k)\<rparr>, ?w)"
      unfolding update_behind [OF len w v(1) vh] maybeAdjustStart_def Let_def later wb(1) upd st
      using not_half_seen [OF len w v] allowed val by simp
  qed simp
qed


section \<open>Tracking, step by step and over a run\<close>

text \<open>
  C1. One update of a tracker that allows restarts. If the packet's true position \<open>v\<close> lies within half
  a range of the highest position \<open>h\<close>, the update is handled, reports exactly that position (counted
  from the tracker's base), reports a restart exactly when the position precedes the start, and
  leaves the record standing for the new minimum and maximum. The base moves by a full range only
  when the new start lies in the cycle before.
\<close>

theorem update_refines:
  fixes w :: "('t::len, 'e::len) wrap_around"
  assumes len: "LENGTH('t) < LENGTH('e)" and w: "tracks w s h" and allowed: "IsRestartAllowed (wa_params w)"
    and v: "h - half_range TYPE('t) < v" "v \<le> h + half_range TYPE('t)"
    and room: "max h v - min s v + 2 ^ LENGTH('t) \<le> 2 ^ LENGTH('e)"
  shows "\<exists>k r w'. Update w (word_of_int v) = (r, w') \<and> k \<in> {0, 2 ^ LENGTH('t)}
     \<and> \<not> IsUnhandled r \<and> (IsRestart r \<longleftrightarrow> v < s)
     \<and> ExtendedVal r = word_of_int (v + k) \<and> PreExtendedHighest r = word_of_int (h + k)
     \<and> tracks w' (min s v + k) (max h v + k) \<and> wa_params w' = wa_params w"
proof -
  note R = two_half_range [where 't = 't] half_range_pos [where 't = 't]
  have s: "0 \<le> s" "s \<le> h" "s < 2 ^ LENGTH('t)" using w by (simp_all add: tracks_def)
  consider "h \<le> v" | "s \<le> v" "v < h" | "v < s" by linarith
  then show ?thesis
  proof cases
    case 1
    then have "v < 2 ^ LENGTH('e)" using room s by linarith
    from tracks_ahead [OF len w 1 v(2) this] 1 s show ?thesis
      by (fastforce simp: zero_result_def min_def max_def)
  next
    case 2
    then have "h - s + 1 < 2 ^ LENGTH('e)" using room R by (simp add: min_def max_def)
    from tracks_behind [OF len w this v(1) 2(2,1)] 2 w show ?thesis
      by (auto simp: zero_result_def min_def max_def)
  next
    case 3
    have "restart_shift TYPE('t) v \<in> {0, 2 ^ LENGTH('t)}" by (simp add: restart_shift_def)
    with tracks_restart [OF len w v(1) 3 allowed refl] 3 s show ?thesis
      by (fastforce simp: zero_result_def min_def max_def)
  qed
qed

fun paced :: "int \<Rightarrow> int \<Rightarrow> int list \<Rightarrow> bool" where
  "paced F h [] = True"
| "paced F h (v # vs) = (h - F < v \<and> v \<le> h + F \<and> paced F (max h v) vs)"

definition feed :: "('t::len, 'e::len) wrap_around \<Rightarrow> 't word list \<Rightarrow> ('t, 'e) wrap_around" where
  "feed w vals = fold (\<lambda>val w. snd (Update w val)) vals w"

lemma feed_simps [simp]:
  "feed w [] = w" "feed w (x # xs) = feed (snd (Update w x)) xs"
  by (simp_all add: feed_def)

lemma Min_Max_Cons:
  "Min (set (v # u # vs)) = Min (set (min v u # vs))" "Max (set (v # u # vs)) = Max (set (max v u # vs))"
  by (cases "vs = []"; simp add: min.assoc max.assoc)+

lemma feed_tracks:
  fixes w :: "('t::len, 'e::len) wrap_around"
  assumes "LENGTH('t) < LENGTH('e)" "tracks w (s + b) (h + b)" "2 ^ LENGTH('t) dvd b"
    and "IsRestartAllowed (wa_params w)" "paced (half_range TYPE('t)) h vs"
    and "Max (set (h # vs)) - Min (set (s # vs)) + 2 ^ LENGTH('t) \<le> 2 ^ LENGTH('e)"
  shows "\<exists>b. 2 ^ LENGTH('t) dvd b \<and> tracks (feed w (map word_of_int vs)) (Min (set (s # vs)) + b) (Max (set (h # vs)) + b)"
  using assms(2-)
proof (induction vs arbitrary: w s h b)
  case Nil
  then show ?case by auto
next
  case (Cons v vs)
  have mm: "Min (set (s # v # vs)) \<le> min s v" "max h v \<le> Max (set (h # v # vs))"
    by (intro min.boundedI max.boundedI Min_le Max_ge; simp)+
  obtain q where q: "b = 2 ^ LENGTH('t) * q" using Cons.prems(2) by blast
  have eq: "word_of_int (v + b) = (word_of_int v :: 't word)"
    by (simp add: q flip: of_int_full [where 't = 't and 'e = 't])
  have sum: "max (h + b) (v + b) = max h v + b" "min (s + b) (v + b) = min s v + b" by simp_all
  have room: "max (h + b) (v + b) - min (s + b) (v + b) + 2 ^ LENGTH('t) \<le> 2 ^ LENGTH('e)"
    unfolding sum using Cons.prems(5) mm by linarith
  have p: "paced (half_range TYPE('t)) (max h v) vs"
    and near: "h + b - half_range TYPE('t) < v + b" "v + b \<le> h + b + half_range TYPE('t)"
    using Cons.prems(4) by simp_all
  obtain k r w' where k: "k \<in> {0, 2 ^ LENGTH('t)}" and w': "Update w (word_of_int v) = (r, w')"
    and t: "tracks w' (min s v + (b + k)) (max h v + (b + k))" and pw: "wa_params w' = wa_params w"
    using update_refines [OF assms(1) Cons.prems(1,3) near room] unfolding eq sum add.assoc by blast
  have d: "2 ^ LENGTH('t) dvd b + k" using k Cons.prems(2) by auto
  have "Max (set (max h v # vs)) - Min (set (min s v # vs)) + 2 ^ LENGTH('t) \<le> 2 ^ LENGTH('e)"
    using Cons.prems(5) unfolding Min_Max_Cons .
  from Cons.IH [OF t d _ p this] show ?case
    using Cons.prems(3) pw w' unfolding Min_Max_Cons by simp
qed

lemma tracks_getters:
  assumes "LENGTH('t::len) < LENGTH('e::len)" and "tracks (w :: ('t, 'e) wrap_around) s h"
  shows "uint (GetExtendedStart w) = s" "uint (GetExtendedHighest w) = h"
    "GetStart w = word_of_int s" "GetHighest w = word_of_int h"
proof -
  have "uint (word_of_int x :: 'e word) = x" if "0 \<le> x" "x \<le> h" for x
    using that assms(2) by (simp add: uint_word_of_int tracks_def)
  then show "uint (GetExtendedStart w) = s" "uint (GetExtendedHighest w) = h"
    "GetStart w = word_of_int s" "GetHighest w = word_of_int h"
    using assms by (simp_all add: GetExtendedHighest_def GetExtendedStart_def GetStart_def
        GetHighest_def tracks_def ucast_of_int)
qed

text \<open>
  C2. After any run of packets, each within half a range of the highest position seen before it, the
  distance between the extended highest and the extended start is the true distance between the
  highest and the lowest position received, so the number of expected packets is exact across
  wrap-arounds, reordering and restarts; start and highest are those positions in \<open>T\<close>.
\<close>

theorem feed_span:
  assumes len: "LENGTH('t::len) < LENGTH('e::len)" and allowed: "IsRestartAllowed params"
    and v: "0 \<le> v" "v < 2 ^ LENGTH('t)" and pace: "paced (half_range TYPE('t)) v vs"
    and room: "Max (set (v # vs)) - Min (set (v # vs)) + 2 ^ LENGTH('t) \<le> 2 ^ LENGTH('e)"
  shows "let w = feed (NewWrapAround params :: ('t, 'e) wrap_around) (map word_of_int (v # vs)) in
    uint (GetExtendedHighest w) = uint (GetExtendedStart w) + (Max (set (v # vs)) - Min (set (v # vs)))
    \<and> GetStart w = word_of_int (Min (set (v # vs))) \<and> GetHighest w = word_of_int (Max (set (v # vs)))"
proof -
  let ?w0 = "NewWrapAround params :: ('t, 'e) wrap_around"
  obtain w1 where w1: "snd (Update ?w0 (word_of_int v)) = w1" "tracks w1 v v" "wa_params w1 = params"
    using tracks_new [OF len, of ?w0 v] v by (force simp: NewWrapAround_def)
  then obtain b where b: "2 ^ LENGTH('t) dvd b"
    and t: "tracks (feed w1 (map word_of_int vs)) (Min (set (v # vs)) + b) (Max (set (v # vs)) + b)"
    using feed_tracks [OF len, of w1 v 0 v vs] allowed pace room by auto
  have same: "word_of_int (x + b) = (word_of_int x :: 't word)" for x
    using b by (auto simp flip: of_int_full [where 't = 't and 'e = 't])
  show ?thesis
    using tracks_getters [OF len t] unfolding same Let_def by (simp add: w1(1))
qed


section \<open>Coherence of the record under every call\<close>

definition wa_inv :: "('t::len, 'e::len) wrap_around \<Rightarrow> bool" where
  "wa_inv w \<longleftrightarrow> wa_fullRange w = push_bit LENGTH('t) 1 \<and> take_bit LENGTH('t) (wa_cycles w) = 0 \<and>
     wa_extendedHighest w = getExtended (wa_cycles w) (wa_highest w)"

lemma low_zero_iff: "take_bit n x = (0::'a::len word) \<longleftrightarrow> (\<exists>q. x = push_bit n q)"
  by (metis add.right_neutral bits_ident take_bit_push_bit diff_self_eq_0 take_bit_0 push_bit_of_0)

lemma take_bit_0_add: "take_bit n a = 0 \<Longrightarrow> take_bit n b = 0 \<Longrightarrow> take_bit n (a + b) = (0::'a::len word)"
  unfolding low_zero_iff by (metis push_bit_add)

lemma take_bit_0_diff: "take_bit n a = 0 \<Longrightarrow> take_bit n b = 0 \<Longrightarrow> take_bit n (a - b) = (0::'a::len word)"
  unfolding low_zero_iff by (auto simp: push_bit_eq_mult left_diff_distrib [symmetric])

lemma take_bit_0_mult: "take_bit n b = 0 \<Longrightarrow> take_bit n (a * b) = (0::'a::len word)"
  unfolding low_zero_iff by (auto simp: push_bit_eq_mult mult.assoc [symmetric])

lemma take_bit_full [simp]: "take_bit LENGTH('t::len) (push_bit LENGTH('t) 1 :: 'e::len word) = 0"
  by (rule bit_word_eqI) (simp only: bit_simps, auto)

lemma take_bit_clear_low:
  "take_bit LENGTH('t::len) (ev AND NOT (push_bit LENGTH('t) 1 - 1) :: 'e::len word) = 0"
  by (rule bit_word_eqI) (auto simp: bit_simps push_bit_of_1 simp flip: mask_eq_exp_minus_1)

lemma wa_inv_at_position:
  assumes len: "LENGTH('t::len) < LENGTH('e::len)" and w: "wa_inv (w :: ('t, 'e) wrap_around)"
  shows "at_position w (uint (wa_extendedHighest w))"
proof -
  let ?h = "uint (wa_extendedHighest w)"
  have c: "uint (wa_cycles w) mod 2 ^ LENGTH('t) = 0"
  proof -
    have "uint (take_bit LENGTH('t) (wa_cycles w)) = 0" using w by (simp add: wa_inv_def)
    then show ?thesis by (simp add: unsigned_take_bit_eq take_bit_int_def)
  qed
  have hi: "uint (wa_highest w) < 2 ^ LENGTH('t)" "uint (wa_highest w) < 2 ^ LENGTH('e)"
    using uint_bounded [of "wa_highest w"] len power_strict_increasing [of "LENGTH('t)" "LENGTH('e)" "2::int"]
    by linarith+
  have "?h = (uint (wa_cycles w) + uint (wa_highest w)) mod 2 ^ LENGTH('e)"
    using w hi(2) by (simp add: wa_inv_def getExtended_def uint_word_ariths unsigned_ucast_eq take_bit_eq_mod)
  then have "?h mod 2 ^ LENGTH('t) = (uint (wa_cycles w) + uint (wa_highest w)) mod 2 ^ LENGTH('t)"
    using len by (simp only: mod_mod_cancel le_imp_power_dvd less_imp_le)
  then have m: "?h mod 2 ^ LENGTH('t) = uint (wa_highest w)"
    using c hi(1) by (subst (asm) mod_add_left_eq [symmetric]) simp
  have "wa_highest w = word_of_int (?h mod 2 ^ LENGTH('t))"
    unfolding m by simp
  also have "\<dots> = word_of_int ?h"
    by (rule word_of_int_eq_iff [THEN iffD2]) (simp only: take_bit_int_def mod_mod_trivial)
  finally have "wa_highest w = word_of_int ?h" .
  moreover have "wa_cycles w = word_of_int (?h - ?h mod 2 ^ LENGTH('t))"
  proof -
    have "wa_cycles w = wa_extendedHighest w - word_of_int (uint (wa_highest w))"
      using w unfolding wa_inv_def getExtended_def ucast_eq by simp
    then show ?thesis unfolding m by simp
  qed
  ultimately show ?thesis
    using w by (simp add: at_position_def wa_inv_def)
qed

lemma wa_inv_new [inv_intros]: "wa_inv (NewWrapAround params)"
  by (simp add: wa_inv_def NewWrapAround_def getExtended_def)

lemma wa_inv_refresh:
  "wa_fullRange w = push_bit LENGTH('t::len) 1 \<Longrightarrow> take_bit LENGTH('t) (wa_cycles w) = 0 \<Longrightarrow>
     wa_inv (updateExtendedHighest (w :: ('t, 'e::len) wrap_around))"
  by (simp add: wa_inv_def updateExtendedHighest_def)

lemma wa_inv_start [inv_intros]: "wa_inv w \<Longrightarrow> wa_inv (w\<lparr>wa_start := x\<rparr>)"
  by (simp add: wa_inv_def)

lemma wa_inv_initialized [inv_intros]: "wa_inv w \<Longrightarrow> wa_inv (w\<lparr>wa_initialized := x\<rparr>)"
  by (simp add: wa_inv_def)

lemmas wa_inv_arith = take_bit_0_add take_bit_0_diff take_bit_0_mult take_bit_full

lemma wa_inv_maybe:
  assumes "wa_inv (w :: ('t::len, 'e::len) wrap_around)"
  shows "wa_inv (snd (maybeAdjustStart w val))"
proof -
  have "wa_inv (updateExtendedHighest (w\<lparr>wa_cycles := wa_fullRange w\<rparr>))"
    using assms by (intro wa_inv_refresh) (simp_all add: wa_inv_def del: push_bit_of_1)
  then show ?thesis
    using assms by (auto simp: maybeAdjustStart_def Let_def intro: inv_intros)
qed

lemma wa_inv_update [inv_intros]:
  assumes "wa_inv (w :: ('t::len, 'e::len) wrap_around)"
  shows "wa_inv (snd (UpdateWithOrderKnown w val known))"
proof -
  have f: "wa_fullRange w = push_bit LENGTH('t) 1" "take_bit LENGTH('t) (wa_cycles w) = 0"
    using assms unfolding wa_inv_def by blast+
  then show ?thesis
    using wa_inv_maybe [OF assms]
    by (auto simp: UpdateWithOrderKnown_def Let_def simp del: push_bit_of_1
        intro!: inv_intros wa_inv_refresh wa_inv_arith)
qed

lemma wa_inv_reset [inv_intros]: "wa_inv w \<Longrightarrow> wa_inv (ResetHighest w ev)"
  unfolding ResetHighest_def
  by (rule wa_inv_refresh) (simp_all add: wa_inv_def take_bit_clear_low del: push_bit_of_1 take_bit_and)

lemma wa_inv_undo [inv_intros]: "wa_inv w \<Longrightarrow> wa_inv (UndoUpdate w r)"
  by (auto simp: UndoUpdate_def intro: inv_intros)

lemma wa_inv_rollover [inv_intros]:
  assumes "wa_inv (w :: ('t::len, 'e::len) wrap_around)"
  shows "wa_inv (snd (Rollover w val n))"
proof -
  have f: "wa_fullRange w = push_bit LENGTH('t) 1" "take_bit LENGTH('t) (wa_cycles w) = 0"
    using assms unfolding wa_inv_def by blast+
  then show ?thesis
    using assms by (auto simp: Rollover_def Update_def Let_def simp del: push_bit_of_1
        intro!: inv_intros wa_inv_refresh wa_inv_arith)
qed

lemma wa_inv_rollback [inv_intros]:
  assumes "wa_inv (w :: ('t::len, 'e::len) wrap_around)"
  shows "wa_inv (RollbackRestart w ev)"
proof -
  have f: "wa_fullRange w = push_bit LENGTH('t) 1" "take_bit LENGTH('t) (wa_cycles w) = 0"
    using assms unfolding wa_inv_def by blast+
  then show ?thesis
    using assms by (auto simp: RollbackRestart_def Let_def simp del: push_bit_of_1
        intro!: inv_intros wa_inv_refresh wa_inv_arith)
qed

lemma wa_inv_seed [inv_intros]: "wa_inv w \<Longrightarrow> wa_inv from \<Longrightarrow> wa_inv (Seed w from)"
  unfolding Seed_def by (rule wa_inv_refresh) (simp_all add: wa_inv_def del: push_bit_of_1)

text \<open>Every tracker a client can build, with every exported call.\<close>

inductive wa_reachable :: "('t::len, 'e::len) wrap_around \<Rightarrow> bool" where
  new: "wa_reachable (NewWrapAround params)"
| update: "wa_reachable w \<Longrightarrow> wa_reachable (snd (UpdateWithOrderKnown w val known))"
| undo: "wa_reachable w \<Longrightarrow> wa_reachable (UndoUpdate w r)"
| rollover: "wa_reachable w \<Longrightarrow> wa_reachable (snd (Rollover w val n))"
| rollback: "wa_reachable w \<Longrightarrow> wa_reachable (RollbackRestart w ev)"
| reset: "wa_reachable w \<Longrightarrow> wa_reachable (ResetHighest w ev)"
| seed: "wa_reachable w \<Longrightarrow> wa_reachable from \<Longrightarrow> wa_reachable (Seed w from)"

lemma wa_reachable_inv: "wa_reachable w \<Longrightarrow> wa_inv w"
  by (induction rule: wa_reachable.induct) (simp_all add: inv_intros)

interpretation wa: component wa_inv "\<lambda>_. True" "\<lambda>(val, known) w. snd (UpdateWithOrderKnown w val known)"
  by unfold_locales (auto intro: inv_intros)


lemma getExtended_low:
  assumes len: "LENGTH('t::len) < LENGTH('e::len)" and c: "take_bit LENGTH('t) c = 0"
  shows "ucast (getExtended c x :: 'e word) = (x :: 't word)"
proof -
  obtain q where q: "c = push_bit LENGTH('t) q" using c unfolding low_zero_iff ..
  have "getExtended c x = c OR ucast x"
    unfolding getExtended_def q by (rule disjunctive_add) (auto simp: bit_simps dest: bit_imp_le_length)
  then show ?thesis
    using len by (intro bit_word_eqI) (auto simp: bit_simps q)
qed

lemma update_reports_extended:
  assumes w: "wa_inv (w :: ('t::len, 'e::len) wrap_around)"
  shows "\<exists>c. take_bit LENGTH('t) c = 0 \<and> ExtendedVal (fst (UpdateWithOrderKnown w val known)) = getExtended c val"
proof -
  have f: "wa_fullRange w = push_bit LENGTH('t) 1" "take_bit LENGTH('t) (wa_cycles w) = 0"
    using w unfolding wa_inv_def by blast+
  have "\<exists>c. take_bit LENGTH('t) c = 0 \<and> ExtendedVal (fst (maybeAdjustStart w val)) = getExtended c val"
  proof -
    have "ExtendedVal (fst (maybeAdjustStart w val)) \<in>
        (\<lambda>c. getExtended c val) ` {wa_cycles w, wa_cycles w - wa_fullRange w, 0}"
      by (auto simp: maybeAdjustStart_def Let_def)
    moreover have "take_bit LENGTH('t) (wa_cycles w - wa_fullRange w) = 0"
      unfolding f(1) by (rule take_bit_0_diff [OF f(2) take_bit_full])
    ultimately show ?thesis using f(2) by (auto intro: exI [of _ 0])
  qed
  note maybe = this
  show ?thesis
  proof (cases "wa_initialized w \<and> \<not> known \<and> val - wa_highest w > ucast (drop_bit 1 (wa_fullRange w))")
    case True
    then show ?thesis using maybe by (simp add: UpdateWithOrderKnown_def)
  next
    case False
    then have "ExtendedVal (fst (UpdateWithOrderKnown w val known)) \<in>
        (\<lambda>c. getExtended c val) ` {0, wa_cycles w, wa_cycles w + wa_fullRange w}"
      by (auto simp: UpdateWithOrderKnown_def Let_def updateExtendedHighest_def getExtended_def)
    moreover have "take_bit LENGTH('t) (wa_cycles w + wa_fullRange w) = 0"
      unfolding f(1) by (rule take_bit_0_add [OF f(2) take_bit_full])
    ultimately show ?thesis using f(2) by (auto intro: exI [of _ 0])
  qed
qed

text \<open>
  C3. Whatever sequence of exported calls a tracker has been through (updates in any order, undo,
  rollover, rollback, reset, seeding from another tracker), its extended highest ends in the
  highest value, the cycle count is a whole number of full ranges, and the next update, if handled,
  reports an extended value that ends in the value it was given.
\<close>

theorem reachable_coherent:
  assumes len: "LENGTH('t::len) < LENGTH('e::len)" and w: "wa_reachable (w :: ('t, 'e) wrap_around)"
  shows "ucast (GetExtendedHighest w) = GetHighest w \<and> take_bit LENGTH('t) (wa_cycles w) = 0
    \<and> (ucast (ExtendedVal (fst (UpdateWithOrderKnown w val known))) :: 't word) = val"
proof -
  have inv: "wa_inv w" using w by (rule wa_reachable_inv)
  show ?thesis
    using inv update_reports_extended [OF inv, of val known] getExtended_low [OF len]
    by (auto simp: wa_inv_def GetExtendedHighest_def GetHighest_def)
qed


section \<open>Undoing an update\<close>

lemma ResetHighest_same:
  assumes len: "LENGTH('t::len) < LENGTH('e::len)" and w: "wa_inv (w :: ('t, 'e) wrap_around)"
  shows "ResetHighest w (wa_extendedHighest w) = w"
proof -
  obtain q where q: "wa_cycles w = push_bit LENGTH('t) q"
    using w unfolding wa_inv_def low_zero_iff by blast
  have full: "wa_fullRange w - 1 = mask LENGTH('t)"
    using w by (simp add: wa_inv_def mask_eq_exp_minus_1)
  have ext: "wa_extendedHighest w = getExtended (wa_cycles w) (wa_highest w)"
    using w by (simp add: wa_inv_def)
  have "wa_extendedHighest w = wa_cycles w OR ucast (wa_highest w)"
    unfolding ext getExtended_def q by (rule disjunctive_add) (auto simp: bit_simps dest: bit_imp_le_length)
  then have "wa_extendedHighest w AND NOT (wa_fullRange w - 1) = wa_cycles w"
    unfolding full by (intro bit_word_eqI) (auto simp: bit_simps q dest: bit_imp_le_length)
  moreover have "ucast (wa_extendedHighest w) = wa_highest w"
    using w getExtended_low [OF len, of "wa_cycles w" "wa_highest w"] by (simp add: wa_inv_def)
  moreover have "w = w\<lparr>wa_highest := wa_highest w, wa_cycles := wa_cycles w,
      wa_extendedHighest := wa_extendedHighest w\<rparr>" by simp
  ultimately show ?thesis
    using ext by (simp add: ResetHighest_def updateExtendedHighest_def)
qed

lemma ResetHighest_overrides:
  "ResetHighest (w\<lparr>wa_cycles := c, wa_highest := x, wa_extendedHighest := e\<rparr>) ev = ResetHighest w ev"
  by (simp add: ResetHighest_def updateExtendedHighest_def)

text \<open>
  Undoing an update puts the tracker back as it was, for every value the update was given, in
  order or not, as long as the update did not move the start and the extended values have room for
  half a range more.
\<close>

theorem undo_update:
  assumes len: "LENGTH('t::len) < LENGTH('e::len)" and w: "wa_inv (w :: ('t, 'e) wrap_around)"
    and init: "wa_initialized w"
    and room: "uint (GetExtendedHighest w) + half_range TYPE('t) < 2 ^ LENGTH('e)"
    and keeps: "\<not> IsRestart (fst (Update w val))"
  shows "UndoUpdate (snd (Update w val)) (fst (Update w val)) = w"
proof (cases "val - wa_highest w > ucast (drop_bit 1 (wa_fullRange w))")
  case True
  then have "Update w val = maybeAdjustStart w val"
    using init by (simp add: Update_def UpdateWithOrderKnown_def)
  moreover have "snd (maybeAdjustStart w val) = w"
    "PreExtendedHighest (fst (maybeAdjustStart w val)) = wa_extendedHighest w"
    if "\<not> IsRestart (fst (maybeAdjustStart w val))"
    using that by (auto simp: maybeAdjustStart_def Let_def zero_result_def split: if_splits)
  ultimately show ?thesis
    using keeps ResetHighest_same [OF len w] by (simp add: UndoUpdate_def)
next
  case False
  let ?h = "uint (wa_extendedHighest w)" and ?g = "uint (val - wa_highest w)"
  have pos: "at_position w ?h" by (rule wa_inv_at_position [OF len w])
  have "wa_fullRange w = push_bit LENGTH('t) 1" using w unfolding wa_inv_def by blast
  with False have g: "?g \<le> half_range TYPE('t)" "0 \<le> ?g"
    by (simp_all only: word_less_def uint_ucast_half_full [OF len] not_less uint_ge_0)
  have "word_of_int (?h + ?g) = wa_highest w + (val - wa_highest w)"
    using pos by (simp add: at_position_def)
  then have val: "word_of_int (?h + ?g) = val" by simp
  have "Update w val = (zero_result\<lparr>PreExtendedHighest := word_of_int ?h, ExtendedVal := word_of_int (?h + ?g)\<rparr>,
      w\<lparr>wa_cycles := word_of_int ((?h + ?g) - (?h + ?g) mod 2 ^ LENGTH('t)), wa_highest := val,
        wa_extendedHighest := word_of_int (?h + ?g)\<rparr>)"
    using update_ahead [OF len pos init, of "?h + ?g"] g unfolding val by simp
  moreover have "word_of_int ?h < (word_of_int (?h + ?g) :: 'e word) \<or> ?g = 0"
    using g room by (simp add: word_less_def uint_word_of_int GetExtendedHighest_def del: of_int_add)
      (use uint_ge_0 [of "val - wa_highest w"] in linarith)
  moreover have "w\<lparr>wa_cycles := word_of_int ((?h + ?g) - (?h + ?g) mod 2 ^ LENGTH('t)),
      wa_highest := val, wa_extendedHighest := word_of_int (?h + ?g)\<rparr> = w" if "?g = 0"
  proof -
    have "w\<lparr>wa_cycles := wa_cycles w, wa_highest := wa_highest w, wa_extendedHighest := wa_extendedHighest w\<rparr> = w"
      by simp
    then show ?thesis using pos that val unfolding at_position_def by simp
  qed
  ultimately show ?thesis
    using ResetHighest_same [OF len w] init
    by (cases "?g = 0") (simp_all add: UndoUpdate_def zero_result_def ResetHighest_overrides)
qed

lemma ucast_down_of_int:
  assumes "LENGTH('t::len) \<le> LENGTH('e::len)"
  shows "ucast (word_of_int x :: 'e word) = (word_of_int x :: 't word)"
  using assms by (simp add: ucast_eq uint_word_of_int_eq word_of_int_eq_iff take_bit_take_bit)

lemma tracks_unique:
  "tracks w s h \<Longrightarrow> tracks w' s h \<Longrightarrow> wa_params w = wa_params w' \<Longrightarrow> w = w'"
  by (rule wrap_around.equality) (simp_all add: tracks_def)

lemma rollback_tracks:
  fixes w :: "('t::len, 'e::len) wrap_around"
  assumes len: "LENGTH('t) < LENGTH('e)" and w: "tracks w (v + k) (h + k)"
    and v: "h - half_range TYPE('t) < v" "v < s" and s: "0 \<le> s" "s < 2 ^ LENGTH('t)" "s \<le> h" "h < 2 ^ LENGTH('e)"
    and k: "k = restart_shift TYPE('t) v"
  shows "tracks (RollbackRestart w (word_of_int (s + k))) s h"
proof -
  note R = two_half_range [where 't = 't] half_range_pos [where 't = 't]
  have f: "wa_fullRange w = push_bit LENGTH('t) 1" "wa_start w = word_of_int (v + k)" "wa_highest w = word_of_int (h + k)"
      "wa_cycles w = word_of_int (h + k - (h + k) mod 2 ^ LENGTH('t))" "wa_extendedHighest w = word_of_int (h + k)"
    and vk: "0 \<le> v + k" "v + k < 2 ^ LENGTH('t)"
    using w unfolding tracks_def by blast+
  have same: "word_of_int (x + k) = (word_of_int x :: 't word)" for x
    by (simp add: k restart_shift_def flip: of_int_full [where 't = 't and 'e = 't])
  have T: "ucast (word_of_int (s + k) :: 'e word) = (word_of_int s :: 't word)"
    unfolding ucast_down_of_int [OF less_imp_le [OF len]] by (rule same)
  have wb: "isWrapBack w (wa_start w) (word_of_int s) \<longleftrightarrow> v < 0"
    unfolding f(2) isWrapBack_of_int [OF len f(1)] using v s R vk by (auto simp: k restart_shift_def)
  show ?thesis
  proof (cases "v < 0")
    case True
    have "wa_cycles w - wa_fullRange w = word_of_int (h - h mod 2 ^ LENGTH('t))"
      unfolding f of_int_full using True by (simp add: k restart_shift_def)
    then show ?thesis
      using True w s getExtended_of_int [OF len, of h] unfolding f(3) same
      by (simp add: RollbackRestart_def T wb [unfolded f(2) same] Let_def updateExtendedHighest_def tracks_def same del: of_int_add)
  next
    case False
    then have "k = 0" by (simp add: k restart_shift_def)
    then show ?thesis
      using False w s T wb by (simp add: RollbackRestart_def Let_def tracks_def)
  qed
qed

text \<open>
  A restart rolled back with the start it reported leaves the tracker as it was before the
  restart.
\<close>

theorem rollback_restart:
  fixes w :: "('t::len, 'e::len) wrap_around"
  assumes len: "LENGTH('t) < LENGTH('e)" and w: "tracks w s h"
    and v: "h - half_range TYPE('t) < v" "v < s" and allowed: "IsRestartAllowed (wa_params w)"
  shows "RollbackRestart (snd (Update w (word_of_int v)))
     (PreExtendedStart (fst (Update w (word_of_int v)))) = w"
proof -
  define k where "k = restart_shift TYPE('t) v"
  obtain r w' where u: "Update w (word_of_int v) = (r, w')" "PreExtendedStart r = word_of_int (s + k)"
    and t: "tracks w' (v + k) (h + k)" and p: "wa_params w' = wa_params w"
    using tracks_restart [OF len w v allowed k_def] by fastforce
  have s: "0 \<le> s" "s < 2 ^ LENGTH('t)" "s \<le> h" "h < 2 ^ LENGTH('e)" using w by (simp_all add: tracks_def)
  have "wa_params (RollbackRestart w' (word_of_int (s + k))) = wa_params w"
    using p by (simp add: RollbackRestart_def Let_def updateExtendedHighest_def)
  then show ?thesis
    using tracks_unique [OF rollback_tracks [OF len t v s k_def] w] u by simp
qed

text \<open>
  Where restarts are not allowed, a packet from before the start is reported unhandled and the
  tracker is left unchanged, so it can never move the start or the highest value.
\<close>

theorem unhandled_before_start:
  assumes len: "LENGTH('t::len) < LENGTH('e::len)" and w: "tracks (w :: ('t, 'e) wrap_around) s h"
    and v: "h - half_range TYPE('t) < v" "v < s" and "\<not> IsRestartAllowed (wa_params w)"
  shows "IsUnhandled (fst (Update w (word_of_int v))) \<and> snd (Update w (word_of_int v)) = w"
proof -
  have "v < h" using w v by (simp add: tracks_def)
  then show ?thesis
    using not_half_seen [OF len w v] assms(5)
    by (simp add: update_behind [OF len w v(1)] maybeAdjustStart_def Let_def)
qed


section \<open>Witnesses\<close>

text \<open>A tracker of 16-bit sequence numbers at start 65530, highest 65538 (one wrap-around).\<close>

definition sample_tracker :: "(16, 64) wrap_around" where
  "sample_tracker = \<lparr>wa_params = \<lparr>IsRestartAllowed = True\<rparr>, wa_fullRange = 65536, wa_initialized = True,
     wa_start = 65530, wa_highest = 2, wa_cycles = 65536, wa_extendedHighest = 65538\<rparr>"

lemma sample_tracks: "tracks sample_tracker 65530 65538"
  by (simp add: tracks_def sample_tracker_def)

lemma half_range_16: "half_range TYPE(16) = 32768"
  by (simp add: half_range_def)

theorem update_refines_witness:
  "\<exists>k r w'. Update sample_tracker (word_of_int 65520) = (r, w') \<and> k \<in> {0, 2 ^ LENGTH(16)}
     \<and> \<not> IsUnhandled r \<and> (IsRestart r \<longleftrightarrow> (65520::int) < 65530)
     \<and> ExtendedVal r = word_of_int (65520 + k) \<and> PreExtendedHighest r = word_of_int (65538 + k)
     \<and> tracks w' (min 65530 65520 + k) (max 65538 65520 + k) \<and> wa_params w' = wa_params sample_tracker"
  by (rule update_refines [OF _ sample_tracks]) (simp_all add: half_range_16 sample_tracker_def)

theorem feed_span_witness:
  "let w = feed (NewWrapAround \<lparr>IsRestartAllowed = True\<rparr> :: (16, 64) wrap_around)
        (map word_of_int (3 # [1, 65540 - 65536, - 5, 30000, 62000, 90000])) in
    uint (GetExtendedHighest w) = uint (GetExtendedStart w) + (Max (set (3 # [1, 65540 - 65536, - 5, 30000, 62000, 90000])) - Min (set (3 # [1, 65540 - 65536, - 5, 30000, 62000, 90000])))
    \<and> GetStart w = word_of_int (Min (set (3 # [1, 65540 - 65536, - 5, 30000, 62000, 90000])))
    \<and> GetHighest w = word_of_int (Max (set (3 # [1, 65540 - 65536, - 5, 30000, 62000, 90000])))"
  by (rule feed_span) (simp_all add: half_range_16)

lemma sample_inv: "wa_inv sample_tracker"
  by (simp add: wa_inv_def sample_tracker_def getExtended_def take_bit_eq_mask mask_eq_exp_minus_1)

theorem reachable_coherent_witness:
  "let w = snd (Update (snd (Update (NewWrapAround \<lparr>IsRestartAllowed = True\<rparr> :: (16, 64) wrap_around) 65535)) 2) in
    ucast (GetExtendedHighest w) = GetHighest w \<and> take_bit LENGTH(16) (wa_cycles w) = 0
    \<and> (ucast (ExtendedVal (fst (UpdateWithOrderKnown w 7 False))) :: 16 word) = 7"
  unfolding Let_def Update_def
  by (rule reachable_coherent) (simp_all add: wa_reachable.intros)

theorem undo_update_witness:
  "UndoUpdate (snd (Update sample_tracker 9)) (fst (Update sample_tracker 9)) = sample_tracker"
  by (rule undo_update [OF _ sample_inv]) (simp_all add: half_range_16 sample_tracker_def
      GetExtendedHighest_def Update_def UpdateWithOrderKnown_def zero_result_def Let_def)

theorem rollback_restart_witness:
  "RollbackRestart (snd (Update sample_tracker (word_of_int 65520)))
     (PreExtendedStart (fst (Update sample_tracker (word_of_int 65520)))) = sample_tracker"
  by (rule rollback_restart [OF _ sample_tracks]) (simp_all add: half_range_16 sample_tracker_def)

theorem unhandled_before_start_witness:
  "let w = sample_tracker\<lparr>wa_params := \<lparr>IsRestartAllowed = False\<rparr>\<rparr> in
    IsUnhandled (fst (Update w (word_of_int 65520))) \<and> snd (Update w (word_of_int 65520)) = w"
  unfolding Let_def
  by (rule unhandled_before_start [of _ 65530 65538])
    (simp_all add: half_range_16 sample_tracker_def tracks_def)


end
