(* ===== verification/Red.thy ===== *)
theory Red
  imports Go_Prelude
begin

text \<open>
  RED (RFC 2198) audio redundancy, \<^verbatim>\<open>pkg/red/red.go\<close>. An RTP packet is the three header fields the code
  reads or rewrites, the rest of the header (\<open>'h\<close>, copied) and the payload. Blocks alias the payload:
  they are modelled by their bytes.
\<close>

section \<open>Packets, blocks, errors\<close>

record 'h rtp_packet =
  SequenceNumber :: u16
  Timestamp :: u32
  PayloadType :: byte
  header_rest :: 'h
  Payload :: "byte list"

datatype red_error = ErrIncompleteHeader | ErrIncompleteBlock

record block =
  blk_tsOffset :: u32
  blk_length :: nat
  blk_pt :: byte
  blk_primary :: bool

definition maxRecoverCount :: nat where "maxRecoverCount = 2"

section \<open>Splitting a payload\<close>

text \<open>The header loop: the blocks so far, the sum of their lengths, and the payload left.\<close>

function parse_headers ::
  "byte list \<Rightarrow> block list \<Rightarrow> nat \<Rightarrow> (red_error + block list \<times> nat \<times> byte list) option" where
  "parse_headers payload blocks blockLength =
    (if length payload < 1 then Some (Inl ErrIncompleteHeader)
     else do {
       b0 \<leftarrow> go_at payload 0;
       if b0 AND 0x80 = 0 then
         Some (Inr (blocks @ [\<lparr>blk_tsOffset = 0, blk_length = 0, blk_pt = b0 AND 0x7F, blk_primary = True\<rparr>],
                    blockLength, drop 1 payload))
       else if length payload < 4 then Some (Inl ErrIncompleteHeader)
       else do {
         h \<leftarrow> get_be 4 payload;
         let blockHead = (ucast h :: u32);
         let len = unat (blockHead AND 0x03FF);
         let blockHead = drop_bit 10 blockHead;
         let tsOffset = blockHead AND 0x3FFF;
         let blockHead = drop_bit 14 blockHead;
         let pt = (ucast (blockHead AND 0x7F) :: byte);
         parse_headers (drop 4 payload)
           (blocks @ [\<lparr>blk_tsOffset = tsOffset, blk_length = len, blk_pt = pt, blk_primary = False\<rparr>])
           (blockLength + len) } })"
  by pat_completeness auto
termination by (relation "measure (\<lambda>(payload, _, _). length payload)") auto

declare parse_headers.simps [simp del]

fun emit_blocks ::
  "'h rtp_packet \<Rightarrow> byte \<Rightarrow> nat \<Rightarrow> nat \<Rightarrow> block list \<Rightarrow> byte list \<Rightarrow> 'h rtp_packet list \<Rightarrow> 'h rtp_packet list option" where
  "emit_blocks pkt recoverBits n i [] payload pkts = Some pkts"
| "emit_blocks pkt recoverBits n i (b # bs) payload pkts =
    (if blk_primary b then Some (pkts @ [pkt\<lparr>PayloadType := blk_pt b, Payload := payload\<rparr>])
     else
       let recoverIndex = int n - int i - 1 in
       if recoverIndex < 1 \<or> recoverBits AND push_bit (nat (recoverIndex - 1)) 1 = 0 then do {
         payload \<leftarrow> go_from payload (blk_length b);
         emit_blocks pkt recoverBits n (i + 1) bs payload pkts }
       else do {
         p \<leftarrow> go_slice payload 0 (blk_length b);
         let out = pkt\<lparr>SequenceNumber := SequenceNumber pkt - word_of_int recoverIndex,
                       Timestamp := Timestamp pkt - blk_tsOffset b, PayloadType := blk_pt b, Payload := p\<rparr>;
         payload \<leftarrow> go_from payload (blk_length b);
         emit_blocks pkt recoverBits n (i + 1) bs payload (pkts @ [out]) })"

definition ExtractPackets :: "'h rtp_packet \<Rightarrow> byte \<Rightarrow> (red_error + 'h rtp_packet list) option" where
  "ExtractPackets pkt recoverBits = do {
     hdr \<leftarrow> parse_headers (Payload pkt) [] 0;
     case hdr of
       Inl err \<Rightarrow> Some (Inl err)
     | Inr (blocks, blockLength, payload) \<Rightarrow>
         if length payload < blockLength then Some (Inl ErrIncompleteBlock)
         else do {
           pkts \<leftarrow> emit_blocks pkt recoverBits (length blocks) 0 blocks payload [];
           Some (Inr pkts) } }"

function primary_headers :: "byte list \<Rightarrow> nat \<Rightarrow> (red_error + nat \<times> byte list) option" where
  "primary_headers payload blockLength =
    (if length payload < 1 then Some (Inl ErrIncompleteHeader)
     else do {
       b0 \<leftarrow> go_at payload 0;
       if b0 AND 0x80 = 0 then Some (Inr (blockLength, drop 1 payload))
       else if length payload < 4 then Some (Inl ErrIncompleteHeader)
       else do {
         h \<leftarrow> get_be 2 (drop 2 payload);
         primary_headers (drop 4 payload) (blockLength + unat ((ucast h :: u16) AND 0x03FF)) } })"
  by pat_completeness auto
termination by (relation "measure (\<lambda>(payload, _). length payload)") auto

declare primary_headers.simps [simp del]

definition ExtractPrimaryEncoding :: "byte list \<Rightarrow> (red_error + byte list) option" where
  "ExtractPrimaryEncoding payload = do {
     hdr \<leftarrow> primary_headers payload 0;
     case hdr of
       Inl err \<Rightarrow> Some (Inl err)
     | Inr (blockLength, payload) \<Rightarrow>
         if length payload < blockLength then Some (Inl ErrIncompleteBlock)
         else map_option Inr (go_from payload blockLength) }"

section \<open>The depacketizer\<close>

record Depacketizer =
  started :: bool
  lastSeq :: u16
  pktHistory :: byte

text \<open>The switch on the distance from the last packet: the state and whether blocks may be needed.\<close>

definition track :: "Depacketizer \<Rightarrow> u16 \<Rightarrow> Depacketizer \<times> bool" where
  "track d sn =
    (if \<not> started d then (\<lparr>started = True, lastSeq = sn, pktHistory = 0\<rparr>, False)
     else
       let diff = sn - lastSeq d in
       if diff = 0 then (d, False)
       else if diff > 0x8000 then
         (if 65535 - diff < 8 then (d\<lparr>pktHistory := pktHistory d OR push_bit (unat (65535 - diff)) 1\<rparr>, True)
          else (d, False))
       else if diff > 8 then (d\<lparr>lastSeq := sn, pktHistory := 0\<rparr>, True)
       else (d\<lparr>lastSeq := sn, pktHistory := push_bit (unat (ucast diff :: byte)) (pktHistory d) OR push_bit (unat (diff - 1)) 1\<rparr>, True))"

fun recover_loop :: "byte \<Rightarrow> nat \<Rightarrow> nat \<Rightarrow> u16 \<Rightarrow> byte \<Rightarrow> byte" where
  "recover_loop history i 0 bitIndex recoverBits = recoverBits"
| "recover_loop history i (Suc n) bitIndex recoverBits =
    (if bitIndex > 7 then recoverBits
     else
       let recoverBits = (if history AND push_bit (unat bitIndex) 1 = 0 then recoverBits OR push_bit i 1 else recoverBits)
       in recover_loop history (i + 1) n (bitIndex + 1) recoverBits)"

definition recover_bits :: "Depacketizer \<Rightarrow> bool \<Rightarrow> u16 \<Rightarrow> byte" where
  "recover_bits d needRecover sn =
    (if needRecover then recover_loop (pktHistory d) 0 maxRecoverCount (lastSeq d - sn) 0 else 0)"

definition Depacketize ::
  "Depacketizer \<Rightarrow> 'h rtp_packet \<Rightarrow> ((red_error + 'h rtp_packet list) \<times> Depacketizer) option" where
  "Depacketize d pkt =
    (let (d, needRecover) = track d (SequenceNumber pkt) in do {
       res \<leftarrow> ExtractPackets pkt (recover_bits d needRecover (SequenceNumber pkt));
       Some (res, d) })"

definition zero_depacketizer :: Depacketizer where
  "zero_depacketizer = \<lparr>started = False, lastSeq = 0, pktHistory = 0\<rparr>"


section \<open>The history\<close>

text \<open>A packet the history records as received.\<close>

definition seen :: "Depacketizer \<Rightarrow> u16 \<Rightarrow> bool" where
  "seen d s \<longleftrightarrow> bit (pktHistory d) (unat (lastSeq d - 1 - s))"

text \<open>The eight numbers before the last packet, the ones the history can record.\<close>

definition in_history :: "Depacketizer \<Rightarrow> u16 \<Rightarrow> bool" where
  "in_history d s \<longleftrightarrow> lastSeq d - 1 - s < 8"

lemma bit_byte_less: "bit (x :: byte) n \<Longrightarrow> n < 8"
  using bit_imp_le_length [of x n] by simp

lemma seen_in_history: "seen d s \<Longrightarrow> in_history d s"
  using bit_byte_less by (auto simp: seen_def in_history_def word_less_nat_alt)

lemma track_behind:
  assumes s: "started d" and diff: "0x8000 < sn - lastSeq d" and t: "track d sn = (d', need)"
  shows "lastSeq d' = lastSeq d" "started d'" "need \<longleftrightarrow> in_history d sn"
    "seen d' s \<longleftrightarrow> seen d s \<or> (s = sn \<and> in_history d sn)"
proof -
  have nz: "sn - lastSeq d \<noteq> 0" using diff by auto
  have i: "65535 - (sn - lastSeq d) = lastSeq d - 1 - sn"
  proof -
    have "(65535 :: u16) = - 1" by simp
    then show ?thesis by (simp only:) simp
  qed
  have t': "(d', need) = (if lastSeq d - 1 - sn < 8
      then (d\<lparr>pktHistory := pktHistory d OR push_bit (unat (lastSeq d - 1 - sn)) 1\<rparr>, True) else (d, False))"
    using t s nz diff unfolding i [symmetric] by (simp add: track_def Let_def)
  then show "lastSeq d' = lastSeq d" "started d'" "need \<longleftrightarrow> in_history d sn"
    using s by (auto simp: in_history_def split: if_splits)
  show "seen d' s \<longleftrightarrow> seen d s \<or> (s = sn \<and> in_history d sn)"
  proof (cases "lastSeq d - 1 - sn < 8")
    case True
    then have d': "d' = d\<lparr>pktHistory := pktHistory d OR push_bit (unat (lastSeq d - 1 - sn)) 1\<rparr>" using t' by simp
    have lt: "unat (lastSeq d - 1 - sn) < 8" using True by (simp add: word_less_nat_alt)
    have "unat (lastSeq d - 1 - s) = unat (lastSeq d - 1 - sn) \<longleftrightarrow> s = sn" by (simp flip: word_unat_eq_iff)
    then show ?thesis using lt True by (auto simp: seen_def d' in_history_def bit_simps)
  next
    case False
    then show ?thesis using t' by (simp add: in_history_def)
  qed
qed

lemma track_jump:
  assumes s: "started d" and diff: "8 < sn - lastSeq d" "sn - lastSeq d \<le> 0x8000"
  shows "track d sn = (d\<lparr>lastSeq := sn, pktHistory := 0\<rparr>, True)"
proof -
  have "sn - lastSeq d \<noteq> 0" using diff(1) by auto
  then show ?thesis using s diff(1) leD [OF diff(2)] by (simp add: track_def Let_def)
qed

lemma track_ahead:
  assumes s: "started d" and diff: "sn \<noteq> lastSeq d" "sn - lastSeq d \<le> 8" and t: "track d sn = (d', need)"
  shows "lastSeq d' = sn" "started d'" "need"
    "seen d' s \<longleftrightarrow> s = lastSeq d \<or> (seen d s \<and> in_history d' s)"
proof -
  let ?k = "unat (sn - lastSeq d)"
  have nz: "sn - lastSeq d \<noteq> 0" using diff(1) by simp
  have le: "sn - lastSeq d \<le> 0x8000" using diff(2) by (rule order_trans) simp
  have k: "0 < ?k" "?k \<le> 8" using nz diff(2) by (simp_all add: unat_gt_0 word_le_nat_alt)
  have kc: "unat (ucast (sn - lastSeq d) :: byte) = ?k"
    using k by (simp add: unsigned_ucast_eq take_bit_nat_eq_self)
  have k1: "unat (sn - lastSeq d - 1) = ?k - 1" using nz by (simp add: unat_minus_one)
  have t': "d' = d\<lparr>lastSeq := sn, pktHistory := push_bit ?k (pktHistory d) OR push_bit (?k - 1) 1\<rparr>" "need"
    using t s nz leD [OF le] leD [OF diff(2)] k1 kc by (auto simp: track_def Let_def)
  then show l: "lastSeq d' = sn" "started d'" "need" using s by simp_all
  show "seen d' s \<longleftrightarrow> s = lastSeq d \<or> (seen d s \<and> in_history d' s)"
  proof -
    let ?j = "unat (sn - 1 - s)"
    have j: "sn - 1 - s = (lastSeq d - 1 - s) + (sn - lastSeq d)" by simp
    have sn: "seen d' s \<longleftrightarrow> ?j < 8 \<and> (?k \<le> ?j \<and> bit (pktHistory d) (?j - ?k) \<or> ?j = ?k - 1)"
      using k by (auto simp: seen_def t'(1) bit_simps dest: bit_byte_less)
    have last: "?j = ?k - 1 \<longleftrightarrow> s = lastSeq d"
    proof -
      have "?j = ?k - 1 \<longleftrightarrow> sn - 1 - s = sn - lastSeq d - 1" unfolding k1 [symmetric] by (simp flip: word_unat_eq_iff)
      then show ?thesis by auto
    qed
    have "?k \<le> ?j \<and> bit (pktHistory d) (?j - ?k) \<longleftrightarrow> seen d s" if "?j < 8"
    proof (cases "?k \<le> ?j")
      case True
      have "lastSeq d - 1 - s = (sn - 1 - s) - (sn - lastSeq d)" by simp
      then have "unat (lastSeq d - 1 - s) = ?j - ?k" using True by (simp only: unat_sub word_le_nat_alt)
      then show ?thesis using True by (simp add: seen_def)
    next
      case False
      have "unat (lastSeq d - 1 - s) \<noteq> ?j - ?k + 0 \<or> True" by simp
      have "\<not> seen d s"
      proof
        assume "seen d s"
        then have lt: "unat (lastSeq d - 1 - s) < 8" using bit_byte_less by (simp add: seen_def)
        have "?j = unat (lastSeq d - 1 - s) + ?k"
          unfolding j unat_word_ariths(1) using lt k by simp
        then show False using False by simp
      qed
      then show ?thesis using False by simp
    qed
    then show ?thesis using sn last k by (auto simp: in_history_def l(1) word_less_nat_alt)
  qed
qed

text \<open>The blocks asked for: the two packets before this one, where the history can and does miss them.\<close>

lemma recover_bits_spec:
  "bit (recover_bits d need sn) i \<longleftrightarrow> need \<and> i < 2 \<and>
     (\<forall>j \<le> i. in_history d (sn - 1 - of_nat j)) \<and> \<not> seen d (sn - 1 - of_nat i)"
proof -
  let ?b = "lastSeq d - sn"
  have e: "lastSeq d - 1 - (sn - 1 - of_nat j) = ?b + of_nat j" for j by simp
  have h: "in_history d (sn - 1 - of_nat j) \<longleftrightarrow> \<not> ?b + of_nat j > 7" for j
    unfolding in_history_def e by (auto simp: word_less_nat_alt)
  have w: "unat (x + 1) = unat x + 1" if "\<not> 7 < x" for x :: u16
  proof -
    have "unat x \<le> 7" using that by (simp add: not_less word_le_nat_alt)
    then show ?thesis by (simp add: unat_word_ariths(1))
  qed
  have ix: "lastSeq d - 1 - (sn - 1) = ?b" "lastSeq d - 1 - (sn - 2) = ?b + 1" by simp_all
  have s0: "pktHistory d AND push_bit (unat ?b) 1 = 0 \<longleftrightarrow> \<not> seen d (sn - 1)"
    unfolding seen_def ix bit_iff_and_push_bit_not_eq_0 by (rule not_not [symmetric])
  have s1: "pktHistory d AND push_bit (unat (?b + 1)) 1 = 0 \<longleftrightarrow> \<not> seen d (sn - 2)"
    unfolding seen_def ix bit_iff_and_push_bit_not_eq_0 by (rule not_not [symmetric])
  have r: "recover_bits d True sn =
    (if ?b > 7 then 0
     else let r = (if seen d (sn - 1) then 0 else 1) in
       if ?b + 1 > 7 then r else if seen d (sn - 2) then r else r OR 2)"
    by (simp only: recover_bits_def maxRecoverCount_def numeral_2_eq_2 recover_loop.simps Let_def s0 s1 if_True) simp
  have sn: "seen d (sn - 1) \<Longrightarrow> \<not> 7 < ?b" "seen d (sn - 2) \<Longrightarrow> \<not> 7 < ?b + 1"
    using seen_in_history [of d "sn - 1 - of_nat 0"] seen_in_history [of d "sn - 1 - of_nat 1"] by (simp_all only: h) simp_all
  consider "i = 0" | "i = 1" | "2 \<le> i" by linarith
  then show ?thesis
  proof cases
    case 1
    then show ?thesis using h [of 0] r by (cases need) (simp_all add: recover_bits_def Let_def)
  next
    case 2
    have a: "(\<forall>j \<le> 1. P j) \<longleftrightarrow> P 0 \<and> P (1 :: nat)" for P by (auto simp: le_Suc_eq)
    have b: "bit (if s then 0 else 1 :: byte) (Suc 0) = False" for s by simp
    show ?thesis
      using h [of 0] h [of 1] r unfolding 2 a by (cases need) (auto simp: recover_bits_def Let_def)
  next
    case 3
    then show ?thesis using r by (cases need) (auto simp: recover_bits_def Let_def bit_simps)
  qed
qed


section \<open>Extraction on any payload\<close>

definition redundant :: "block \<Rightarrow> bool" where
  "redundant b \<longleftrightarrow> \<not> blk_primary b \<and> blk_length b < 1024"

definition total :: "block list \<Rightarrow> nat" where
  "total bs = sum_list (map blk_length bs)"

lemma total_simps [simp]: "total [] = 0" "total (b # bs) = blk_length b + total bs" "total (as @ bs) = total as + total bs"
  by (simp_all add: total_def)

lemma unat_and_3FF: "unat (x AND 0x3FF :: u32) < 1024"
proof -
  have "x AND 0x3FF = take_bit 10 x" by (simp add: take_bit_eq_mask mask_eq_exp_minus_1)
  then have "unat (x AND 0x3FF) = take_bit 10 (unat x)" by (simp only: unsigned_take_bit_eq)
  also have "\<dots> < 2 ^ 10" by (rule take_bit_nat_less_exp)
  finally show ?thesis by simp
qed

text \<open>One turn of the header loop.\<close>

definition head_block :: "byte list \<Rightarrow> block" where
  "head_block payload = (let w = (ucast (be_val (take 4 payload)) :: u32) in
     \<lparr>blk_tsOffset = drop_bit 10 w AND 0x3FFF, blk_length = unat (w AND 0x3FF),
      blk_pt = ucast (drop_bit 14 (drop_bit 10 w) AND 0x7F), blk_primary = False\<rparr>)"

definition more_headers :: "byte list \<Rightarrow> bool" where
  "more_headers payload \<longleftrightarrow> 4 \<le> length payload \<and> payload ! 0 AND 0x80 \<noteq> 0"

abbreviation primary_block :: "byte \<Rightarrow> block" where
  "primary_block pt \<equiv> \<lparr>blk_tsOffset = 0, blk_length = 0, blk_pt = pt, blk_primary = True\<rparr>"

lemma redundant_head_block: "redundant (head_block payload)"
  using unat_and_3FF by (simp add: redundant_def head_block_def Let_def)

lemma parse_headers_more:
  "more_headers payload \<Longrightarrow> parse_headers payload acc len =
    parse_headers (drop 4 payload) (acc @ [head_block payload]) (len + blk_length (head_block payload))"
  unfolding more_headers_def by (subst parse_headers.simps) (auto simp: Let_def get_be_def head_block_def)

lemma parse_headers_end:
  assumes "\<not> more_headers payload"
  shows "parse_headers payload acc len = Some (Inl ErrIncompleteHeader) \<and> primary_headers payload len = Some (Inl ErrIncompleteHeader) \<or>
    (\<exists>pt. parse_headers payload acc len = Some (Inr (acc @ [primary_block pt], len, drop 1 payload)) \<and>
      primary_headers payload len = Some (Inr (len, drop 1 payload)))"
  using assms unfolding more_headers_def
  by (subst (1 2) parse_headers.simps, subst (1 2) primary_headers.simps) (auto simp: Let_def Suc_le_eq)

lemma payload_induct [case_names last more]:
  assumes "\<And>payload. \<not> more_headers payload \<Longrightarrow> P payload"
    and "\<And>payload. more_headers payload \<Longrightarrow> P (drop 4 payload) \<Longrightarrow> P payload"
  shows "P payload"
proof (induction payload rule: length_induct)
  case (1 payload)
  show ?case
  proof (cases "more_headers payload")
    case True
    then have "4 \<le> length payload" by (simp add: more_headers_def)
    then have "length (drop 4 payload) < length payload" by simp
    then show ?thesis using 1 True assms(2) by blast
  qed (rule assms(1))
qed

lemma parse_headers_shape:
  "\<exists>r. parse_headers payload acc len = Some r \<and>
    (case r of Inl e \<Rightarrow> True
     | Inr (bs, l, p) \<Rightarrow> \<exists>reds pt. bs = acc @ reds @ [primary_block pt] \<and> list_all redundant reds \<and> l = len + total reds)"
proof (induction payload arbitrary: acc len rule: payload_induct)
  case (last payload)
  from parse_headers_end [OF last, of acc len] show ?case by (auto intro!: exI [of _ "[]"])
next
  case (more payload)
  let ?b = "head_block payload"
  from more.IH [of "acc @ [?b]" "len + blk_length ?b"] obtain r where
    r: "parse_headers payload acc len = Some r"
      "case r of Inl e \<Rightarrow> True
       | Inr (bs, l, p) \<Rightarrow> \<exists>reds pt. bs = (acc @ [?b]) @ reds @ [primary_block pt] \<and> list_all redundant reds \<and> l = len + blk_length ?b + total reds"
    unfolding parse_headers_more [OF more.hyps] by blast
  show ?case
  proof (cases r)
    case (Inl e)
    then show ?thesis using r(1) by simp
  next
    case (Inr q)
    obtain bs l p where q: "q = (bs, l, p)" by (cases q)
    from r(2) obtain reds pt where s: "bs = acc @ (?b # reds) @ [primary_block pt]"
      "list_all redundant reds" "l = len + blk_length ?b + total reds" unfolding Inr q by auto
    have "list_all redundant (?b # reds)" "l = len + total (?b # reds)" using s redundant_head_block by simp_all
    then show ?thesis using r(1) s(1) unfolding Inr q by (intro exI [of _ "Inr (bs, l, p)"]) (simp only: sum.case prod.case, blast)
  qed
qed

text \<open>The packets emitted for the redundant blocks, oldest first.\<close>

fun recovered :: "'h rtp_packet \<Rightarrow> byte \<Rightarrow> block list \<Rightarrow> byte list \<Rightarrow> 'h rtp_packet list" where
  "recovered pkt bits [] payload = []"
| "recovered pkt bits (b # bs) payload =
    (if bit bits (length bs)
     then [pkt\<lparr>SequenceNumber := SequenceNumber pkt - of_nat (length bs + 1), Timestamp := Timestamp pkt - blk_tsOffset b,
              PayloadType := blk_pt b, Payload := take (blk_length b) payload\<rparr>]
     else []) @ recovered pkt bits bs (drop (blk_length b) payload)"

lemma emit_blocks_spec:
  assumes "list_all redundant reds" "total reds \<le> length payload" "blk_primary p" "n = i + length reds + 1"
  shows "emit_blocks pkt bits n i (reds @ [p]) payload pkts =
    Some (pkts @ recovered pkt bits reds payload @ [pkt\<lparr>PayloadType := blk_pt p, Payload := drop (total reds) payload\<rparr>])"
  using assms
proof (induction reds arbitrary: i payload pkts)
  case (Cons b reds)
  have idx: "int n - int i - 1 = int (length reds + 1)" using Cons.prems(4) by simp
  have bit: "bits AND push_bit (nat (int (length reds + 1) - 1)) 1 = 0 \<longleftrightarrow> \<not> bit bits (length reds)"
    by (simp add: bit_iff_and_push_bit_not_eq_0)
  have b: "\<not> blk_primary b" "blk_length b \<le> length payload" using Cons.prems by (simp_all add: redundant_def)
  have lt: "\<not> int (length reds + 1) < 1" by simp
  have IH: "emit_blocks pkt bits n (i + 1) (reds @ [p]) (drop (blk_length b) payload) pkts' =
    Some (pkts' @ recovered pkt bits reds (drop (blk_length b) payload) @
      [pkt\<lparr>PayloadType := blk_pt p, Payload := drop (total reds) (drop (blk_length b) payload)\<rparr>])" for pkts'
    using Cons.prems by (intro Cons.IH) simp_all
  show ?case
  proof (cases "bit bits (length reds)")
    case True
    then show ?thesis
      using b lt bit IH by (simp add: idx Let_def add.commute del: of_nat_add of_nat_Suc)
  next
    case False
    then show ?thesis
      using b lt bit IH by (simp add: idx Let_def add.commute del: of_nat_add of_nat_Suc)
  qed
qed simp

text \<open>What \<open>ExtractPackets\<close> returns, given what the headers parse to.\<close>

lemma ExtractPackets_eq:
  obtains (error) e where "parse_headers (Payload pkt) [] 0 = Some (Inl e)" "ExtractPackets pkt bits = Some (Inl e)"
  | (short) bs l p where "parse_headers (Payload pkt) [] 0 = Some (Inr (bs, l, p))" "length p < l"
      "ExtractPackets pkt bits = Some (Inl ErrIncompleteBlock)"
  | (ok) reds pt p where "parse_headers (Payload pkt) [] 0 =
        Some (Inr (reds @ [primary_block pt], total reds, p))"
      "list_all redundant reds" "total reds \<le> length p"
      "ExtractPackets pkt bits = Some (Inr (recovered pkt bits reds p @ [pkt\<lparr>PayloadType := pt, Payload := drop (total reds) p\<rparr>]))"
proof -
  from parse_headers_shape [of "Payload pkt" "[]" 0] obtain r where r: "parse_headers (Payload pkt) [] 0 = Some r"
    "case r of Inl e \<Rightarrow> True
     | Inr (bs, l, p) \<Rightarrow> \<exists>reds pt. bs = [] @ reds @ [primary_block pt]
         \<and> list_all redundant reds \<and> l = 0 + total reds" by blast
  show thesis
  proof (cases r)
    case (Inl e)
    then show thesis using r(1) error by (simp add: ExtractPackets_def)
  next
    case (Inr q)
    obtain bs l p where q: "q = (bs, l, p)" by (cases q)
    from r(2) obtain reds pt where s: "bs = reds @ [primary_block pt]"
      "list_all redundant reds" "l = total reds" unfolding Inr q by auto
    show thesis
    proof (cases "length p < l")
      case True
      then show thesis using r(1) short unfolding Inr q by (simp add: ExtractPackets_def)
    next
      case False
      then have le: "total reds \<le> length p" using s(3) by simp
      have "emit_blocks pkt bits (length bs) 0 bs p [] =
        Some (recovered pkt bits reds p @ [pkt\<lparr>PayloadType := pt, Payload := drop (total reds) p\<rparr>])"
        unfolding s(1) using emit_blocks_spec [OF s(2) le, of _ "length reds + 1" 0 pkt bits "[]"] by simp
      then have "ExtractPackets pkt bits =
        Some (Inr (recovered pkt bits reds p @ [pkt\<lparr>PayloadType := pt, Payload := drop (total reds) p\<rparr>]))"
        using r(1) False unfolding Inr q by (simp add: ExtractPackets_def)
      then show thesis using r(1) s le ok unfolding Inr q by blast
    qed
  qed
qed

section \<open>The primary encoding alone\<close>

lemma be_val_append: "be_val (xs @ ys) = push_bit (8 * length ys) (be_val xs) OR be_val ys"
proof (induction ys rule: rev_induct)
  case Nil
  then show ?case by (simp add: be_val_def)
next
  case (snoc y ys)
  have "be_val (xs @ ys @ [y]) = push_bit 8 (be_val (xs @ ys)) OR ucast y"
    using be_val_snoc [of "xs @ ys" y] by simp
  also have "\<dots> = push_bit 8 (push_bit (8 * length ys) (be_val xs)) OR be_val (ys @ [y])"
    by (simp only: snoc push_bit_or be_val_snoc or.assoc)
  finally show ?case by (simp add: push_bit_push_bit add.commute)
qed

lemma unat_less_65536: "unat (x :: u16) < 65536"
proof -
  have "int (unat x) = uint x" "uint x < 65536" using uint_lt2p [of x] by simp_all
  then show ?thesis by linarith
qed

lemma low_bits_agree:
  assumes "4 \<le> length payload"
  shows "unat ((ucast (be_val (take 2 (drop 2 payload))) :: u16) AND 0x3FF) = unat ((ucast (be_val (take 4 payload)) :: u32) AND 0x3FF)"
proof -
  have "take 4 payload = take 2 payload @ take 2 (drop 2 payload)"
    using take_add [of 2 2 payload] by simp
  then have v: "be_val (take 4 payload) = push_bit 16 (be_val (take 2 payload)) OR be_val (take 2 (drop 2 payload))"
    using assms by (simp add: be_val_append)
  have m: "(0x3FF :: 'a::len word) = mask 10" by (simp add: mask_eq_exp_minus_1)
  have "(ucast ((ucast (be_val (take 2 (drop 2 payload))) :: u16) AND mask 10) :: u32) =
      (ucast (be_val (take 4 payload)) :: u32) AND mask 10"
    unfolding v by (rule bit_word_eqI) (auto simp: bit_simps)
  then have "unat (ucast ((ucast (be_val (take 2 (drop 2 payload))) :: u16) AND mask 10) :: u32) =
      unat ((ucast (be_val (take 4 payload)) :: u32) AND mask 10)" by simp
  moreover have "unat (ucast y :: u32) = unat y" for y :: u16
    using unat_less_65536 [of y] by (simp add: unsigned_ucast_eq take_bit_nat_eq_self)
  ultimately show ?thesis unfolding m by simp
qed

lemma primary_headers_agree:
  "primary_headers payload len = map_option (map_sum id snd) (parse_headers payload acc len)"
proof (induction payload arbitrary: acc len rule: payload_induct)
  case (last payload)
  from parse_headers_end [OF last, of acc len] show ?case by auto
next
  case (more payload)
  have "primary_headers payload len = primary_headers (drop 4 payload) (len + blk_length (head_block payload))"
    using more.hyps low_bits_agree [of payload] unfolding more_headers_def
    by (subst primary_headers.simps) (auto simp: Let_def get_be_def head_block_def)
  then show ?case using more.IH parse_headers_more [OF more.hyps] by metis
qed


section \<open>A RED sender\<close>

text \<open>A redundant block: payload type, timestamp offset, payload (RFC 2198, section 3).\<close>

type_synonym red_frame = "byte \<times> u32 \<times> byte list"

definition frame_ok :: "red_frame \<Rightarrow> bool" where
  "frame_ok fr = (case fr of (pt, ts, pl) \<Rightarrow> pt < 128 \<and> ts < 2 ^ 14 \<and> length pl < 1024)"

definition red_header :: "red_frame \<Rightarrow> byte list" where
  "red_header fr = (case fr of (pt, ts, pl) \<Rightarrow>
     be_bytes 4 (0x80000000 OR push_bit 24 (ucast pt) OR push_bit 10 (ucast ts) OR of_nat (length pl)))"

definition red_payload :: "red_frame list \<Rightarrow> byte \<Rightarrow> byte list \<Rightarrow> byte list" where
  "red_payload reds pt primary =
     concat (map red_header reds) @ [pt] @ concat (map (\<lambda>(_, _, pl). pl) reds) @ primary"

definition frame_block :: "red_frame \<Rightarrow> block" where
  "frame_block fr = (case fr of (pt, ts, pl) \<Rightarrow>
     \<lparr>blk_tsOffset = ts, blk_length = length pl, blk_pt = pt, blk_primary = False\<rparr>)"

lemma red_header_block:
  assumes "frame_ok fr"
  shows "head_block (red_header fr @ rest) = frame_block fr" "more_headers (red_header fr @ rest)"
    "length (red_header fr) = 4"
proof -
  obtain pt ts pl where fr: "fr = (pt, ts, pl)" by (cases fr)
  have pt: "\<And>n. bit pt n \<Longrightarrow> n < 7" and ts: "\<And>n. bit ts n \<Longrightarrow> n < 14" and len: "length pl < 1024"
    using assms bit_less_exp [of pt 7] bit_less_exp [of ts 14] by (simp_all add: fr frame_ok_def)
  define n where "n = (of_nat (length pl) :: u64)"
  have un: "unat n = length pl" using len by (simp add: n_def unat_of_nat take_bit_nat_eq_self)
  have nb: "bit n k \<Longrightarrow> k < 10" for k
  proof -
    have "n < 2 ^ 10" using len un by (simp add: word_less_nat_alt)
    then show "bit n k \<Longrightarrow> k < 10" by (rule bit_less_exp)
  qed
  define v where "v = 0x80000000 OR push_bit 24 (ucast pt) OR push_bit 10 (ucast ts) OR n"
  have hv: "red_header fr = be_bytes 4 v" by (simp add: fr red_header_def v_def n_def)
  show l4: "length (red_header fr) = 4" by (simp add: hv)
  have c31: "bit (0x80000000 :: u64) k \<longleftrightarrow> k = 31" for k
  proof -
    have "(0x80000000 :: u64) = 2 ^ 31" by simp
    then show ?thesis by (simp only: bit_exp_iff) auto
  qed
  have vb: "bit v k \<longleftrightarrow> k = 31 \<or> (24 \<le> k \<and> bit pt (k - 24)) \<or> (10 \<le> k \<and> bit ts (k - 10)) \<or> bit n k" if "k < 64" for k
    unfolding v_def bit_or_iff c31 using that by (auto simp: bit_simps)
  have w: "(ucast (be_val (take 4 (red_header fr @ rest))) :: u32) = ucast v"
    using l4 unfolding hv by (simp add: be_val_be_bytes) (rule bit_word_eqI, simp add: bit_simps)
  have m: "(0x3FFF :: u32) = mask 14" "(0x7F :: u32) = mask 7" "(0x3FF :: u32) = mask 10"
    by (simp_all add: mask_eq_exp_minus_1)
  have "drop_bit 10 (ucast v :: u32) AND 0x3FFF = ts"
  proof (rule bit_word_eqI)
    fix k assume "k < LENGTH(32)"
    then show "bit (drop_bit 10 (ucast v :: u32) AND 0x3FFF) k = bit ts k"
      using ts [of k] nb [of "10 + k"] unfolding m by (auto simp: bit_simps vb)
  qed
  moreover have "ucast (drop_bit 14 (drop_bit 10 (ucast v :: u32)) AND 0x7F) = pt"
  proof (rule bit_word_eqI)
    fix k assume "k < LENGTH(8)"
    then show "bit (ucast (drop_bit 14 (drop_bit 10 (ucast v :: u32)) AND 0x7F) :: byte) k = bit pt k"
      using pt [of k] nb [of "24 + k"] ts [of "14 + k"] unfolding m by (auto simp: bit_simps vb)
  qed
  moreover have "(ucast v :: u32) AND 0x3FF = ucast n"
  proof (rule bit_word_eqI)
    fix k assume "k < LENGTH(32)"
    then show "bit ((ucast v :: u32) AND 0x3FF) k = bit (ucast n :: u32) k"
      using nb [of k] unfolding m by (auto simp: bit_simps vb)
  qed
  then have "unat ((ucast v :: u32) AND 0x3FF) = length pl"
    using un len by (simp add: unsigned_ucast_eq take_bit_nat_eq_self)
  ultimately show "head_block (red_header fr @ rest) = frame_block fr"
    unfolding head_block_def Let_def w by (simp add: frame_block_def fr del: drop_bit_drop_bit)
  have "be_bytes 4 v ! 0 = ucast (drop_bit 24 v)" by (simp add: numeral_eq_Suc drop_bit_drop_bit)
  moreover have "bit (ucast (drop_bit 24 v) AND 0x80 :: byte) 7" by (simp add: bit_simps vb)
  then have "ucast (drop_bit 24 v) AND 0x80 \<noteq> (0 :: byte)" by (metis bit_0_eq bot_apply bot_bool_def)
  ultimately show "more_headers (red_header fr @ rest)" using l4 by (simp add: more_headers_def hv nth_append)
qed

lemma parse_headers_encoded:
  assumes "list_all frame_ok reds" "pt < 128"
  shows "parse_headers (concat (map red_header reds) @ [pt] @ rest) acc len =
    Some (Inr (acc @ map frame_block reds @ [primary_block pt], len + total (map frame_block reds), rest))"
  using assms(1)
proof (induction reds arbitrary: acc len)
  case Nil
  have pt: "pt < 2 ^ 7" using assms(2) by simp
  have b: "\<not> bit pt 7" using bit_less_exp [OF pt, of 7] by auto
  have "pt AND 0x80 = 0"
  proof (rule bit_word_eqI)
    fix k assume "k < LENGTH(8)"
    have "bit (0x80 :: byte) k \<longleftrightarrow> k = 7"
    proof -
      have "(0x80 :: byte) = 2 ^ 7" by simp
      then show ?thesis by (simp only: bit_exp_iff) auto
    qed
    then show "bit (pt AND 0x80) k = bit 0 k" using b by (auto simp: bit_and_iff)
  qed
  moreover have "pt AND 0x7F = pt"
  proof -
    have "(0x7F :: byte) = mask 7" by (simp add: mask_eq_exp_minus_1)
    then have "pt AND 0x7F = take_bit 7 pt" by (simp only: take_bit_eq_mask)
    then show ?thesis using take_bit_small [OF pt] by simp
  qed
  ultimately show ?case by (subst parse_headers.simps) simp
next
  case (Cons fr reds)
  note H = red_header_block(1,2) [of fr "concat (map red_header reds) @ [pt] @ rest"] red_header_block(3) [of fr]
  have "parse_headers (red_header fr @ concat (map red_header reds) @ [pt] @ rest) acc len =
    parse_headers (concat (map red_header reds) @ [pt] @ rest) (acc @ [frame_block fr]) (len + blk_length (frame_block fr))"
    using Cons.prems H by (subst parse_headers_more) simp_all
  then show ?case using Cons by (simp add: add.assoc)
qed

text \<open>The packets a receiver should emit for the blocks selected.\<close>

fun picked :: "'h rtp_packet \<Rightarrow> byte \<Rightarrow> red_frame list \<Rightarrow> 'h rtp_packet list" where
  "picked pkt bits [] = []"
| "picked pkt bits ((pt, ts, pl) # reds) =
    (if bit bits (length reds)
     then [pkt\<lparr>SequenceNumber := SequenceNumber pkt - of_nat (length reds + 1), Timestamp := Timestamp pkt - ts,
              PayloadType := pt, Payload := pl\<rparr>]
     else []) @ picked pkt bits reds"

lemma recovered_encoded:
  "recovered (pkt\<lparr>Payload := pl0\<rparr>) bits (map frame_block reds) (concat (map (\<lambda>(_, _, pl). pl) reds) @ rest) = picked pkt bits reds"
  by (induction reds) (auto simp: frame_block_def)

lemma total_frames: "total (map frame_block reds) = length (concat (map (\<lambda>(_, _, pl). pl) reds))"
  by (induction reds) (auto simp: frame_block_def)

lemma ExtractPackets_encoded:
  assumes "list_all frame_ok reds" "pt < 128"
  shows "ExtractPackets (pkt\<lparr>Payload := red_payload reds pt primary\<rparr>) bits =
    Some (Inr (picked pkt bits reds @ [pkt\<lparr>PayloadType := pt, Payload := primary\<rparr>]))"
proof -
  let ?rest = "concat (map (\<lambda>(_, _, pl). pl) reds) @ primary"
  let ?pkt = "pkt\<lparr>Payload := red_payload reds pt primary\<rparr>"
  have ph: "parse_headers (Payload ?pkt) [] 0 =
      Some (Inr (map frame_block reds @ [primary_block pt], total (map frame_block reds), ?rest))"
    using parse_headers_encoded [OF assms, of ?rest "[]" 0] by (simp add: red_payload_def)
  show ?thesis
  proof (cases rule: ExtractPackets_eq [of ?pkt bits])
    case (short bs l p)
    then show ?thesis using ph total_frames [of reds] by simp
  next
    case (ok reds' pt' p)
    then have "reds' = map frame_block reds" "pt' = pt" "p = ?rest" using ph by auto
    then show ?thesis using ok(4) recovered_encoded [where pkt = pkt and bits = bits and reds = reds and rest = primary] by (simp add: total_frames)
  qed (use ph in simp)
qed


section \<open>A stream with losses\<close>

text \<open>
  A sender of frames \<open>f 0, f 1, \<dots>\<close>, each packet carrying the two frames before it; and the plain packets a
  receiver should get out of it.
\<close>

definition plain_pkt :: "(nat \<Rightarrow> byte list) \<Rightarrow> byte \<Rightarrow> u32 \<Rightarrow> nat \<Rightarrow> unit rtp_packet" where
  "plain_pkt f pt dur n = \<lparr>SequenceNumber = of_nat n, Timestamp = of_nat n * dur, PayloadType = pt,
     header_rest = (), Payload = f n\<rparr>"

definition red_pkt :: "(nat \<Rightarrow> byte list) \<Rightarrow> byte \<Rightarrow> u32 \<Rightarrow> nat \<Rightarrow> unit rtp_packet" where
  "red_pkt f pt dur n = (plain_pkt f pt dur n)\<lparr>PayloadType := 63,
     Payload := red_payload [(pt, 2 * dur, f (n - 2)), (pt, dur, f (n - 1))] pt (f n)\<rparr>"

fun depacketize_all :: "Depacketizer \<Rightarrow> 'h rtp_packet list \<Rightarrow> 'h rtp_packet list option" where
  "depacketize_all d [] = Some []"
| "depacketize_all d (p # ps) = do {
     (res, d) \<leftarrow> Depacketize d p;
     rest \<leftarrow> depacketize_all d ps;
     Some ((case res of Inl err \<Rightarrow> [] | Inr out \<Rightarrow> out) @ rest) }"

text \<open>The received numbers go up, with at most two lost in a row.\<close>

fun small_gaps :: "nat \<Rightarrow> nat list \<Rightarrow> bool" where
  "small_gaps n [] = True"
| "small_gaps n (m # ms) \<longleftrightarrow> n < m \<and> m \<le> n + 3 \<and> small_gaps m ms"

definition sender_ok :: "(nat \<Rightarrow> byte list) \<Rightarrow> byte \<Rightarrow> u32 \<Rightarrow> bool" where
  "sender_ok f pt dur \<longleftrightarrow> pt < 128 \<and> dur < 8192 \<and> (\<forall>n. length (f n) < 1024)"

lemma red_pkt_extract:
  assumes ok: "sender_ok f pt dur" and n: "2 \<le> n"
  shows "ExtractPackets (red_pkt f pt dur n) bits =
    Some (Inr ((if bit bits 1 then [plain_pkt f pt dur (n - 2)] else []) @
      (if bit bits 0 then [plain_pkt f pt dur (n - 1)] else []) @ [plain_pkt f pt dur n]))"
proof -
  have pt: "pt < 128" and dur: "dur < 8192" and len: "\<And>n. length (f n) < 1024" using ok by (auto simp: sender_ok_def)
  have "unat dur < 8192" using dur by (simp add: word_less_nat_alt)
  then have "unat (2 * dur) < 16384" by (simp add: unat_word_ariths(2))
  then have d2: "2 * dur < 16384" by (simp add: word_less_nat_alt)
  have d1: "dur < 16384" using dur by (rule order.strict_trans) simp
  have fr: "list_all frame_ok [(pt, 2 * dur, f (n - 2)), (pt, dur, f (n - 1))]"
    using pt len d1 d2 by (simp add: frame_ok_def)
  have seq: "(of_nat n :: u16) - 2 = of_nat (n - 2)" "(of_nat n :: u16) - 1 = of_nat (n - 1)"
    and ts: "(of_nat n :: u32) * dur - 2 * dur = of_nat (n - 2) * dur" "(of_nat n :: u32) * dur - dur = of_nat (n - 1) * dur"
    using n by (simp_all add: of_nat_diff algebra_simps)
  show ?thesis
    using ExtractPackets_encoded [OF fr pt, where pkt = "(plain_pkt f pt dur n)\<lparr>PayloadType := 63\<rparr>" and primary = "f n" and bits = bits] seq ts
    by (simp add: red_pkt_def plain_pkt_def)
qed

lemma stream_step:
  assumes ok: "sender_ok f pt dur" and d: "started d" "lastSeq d = of_nat n" and m: "n < m" "m \<le> n + 3" "2 \<le> m"
  shows "\<exists>d' out. Depacketize d (red_pkt f pt dur m) = Some (Inr out, d') \<and> started d' \<and> lastSeq d' = of_nat m \<and>
    plain_pkt f pt dur ` {n<..m} \<subseteq> set out \<and> set out \<subseteq> plain_pkt f pt dur ` {n - 1..m}"
proof -
  let ?sn = "of_nat m :: u16"
  have sn: "SequenceNumber (red_pkt f pt dur m) = ?sn" by (simp add: red_pkt_def plain_pkt_def)
  have diff: "?sn - lastSeq d = of_nat (m - n)" using m d by (simp add: of_nat_diff)
  have u: "unat (of_nat j :: u16) = j" if "j < 65536" for j using that by (simp add: unat_of_nat take_bit_nat_eq_self)
  have k: "unat (?sn - lastSeq d) = m - n" unfolding diff using m by (intro u) simp
  then have le: "?sn - lastSeq d \<le> 8" and ne: "?sn \<noteq> lastSeq d" using m by (auto simp: word_le_nat_alt)
  obtain d' need where t: "track d ?sn = (d', need)" by (cases "track d ?sn")
  note A = track_ahead [OF d(1) ne le t]
  have notseen: "\<not> seen d' (of_nat j)" if j: "n < j" "j < m" for j
  proof -
    have "unat (of_nat (j - n) :: u16) = j - n" using j m by (intro u) simp
    then have "unat (of_nat j - lastSeq d) = j - n" using j d by (simp add: of_nat_diff)
    then have jn: "of_nat j \<noteq> lastSeq d" using j by auto
    have "lastSeq d - 1 - of_nat j = - (of_nat (j - n + 1) :: u16)" using j d by (simp add: of_nat_diff)
    moreover have "unat (- (of_nat (j - n + 1)) :: u16) = 65536 - (j - n + 1)"
    proof -
      have w: "unat (of_nat (j - n + 1) :: u16) = j - n + 1" using j m by (intro u) simp
      then have "(of_nat (j - n + 1) :: u16) \<noteq> 0" by (metis add_is_0 one_neq_zero unat_0)
      then show ?thesis using w by (simp add: unat_neg del: of_nat_add of_nat_Suc)
    qed
    ultimately have "unat (lastSeq d - 1 - of_nat j) = 65536 - (j - n + 1)" by (simp only:)
    then have "\<not> seen d (of_nat j)" unfolding seen_def using j m by (auto dest: bit_byte_less)
    then show ?thesis using jn A(4) [of "of_nat j"] by simp
  qed
  have hist: "in_history d' (?sn - 1 - of_nat j)" if "j < 2" for j
    using that by (simp add: in_history_def A(1) word_less_nat_alt u)
  let ?bits = "recover_bits d' need ?sn"
  have b0: "bit ?bits 0" if "n < m - 1"
    using that notseen [of "m - 1"] hist [of 0] m A(3) by (simp add: recover_bits_spec of_nat_diff)
  have b1: "bit ?bits 1" if "n < m - 2"
  proof -
    have "?sn - 1 - of_nat 1 = of_nat (m - 2)" using m by (simp add: of_nat_diff)
    then show ?thesis using that notseen [of "m - 2"] hist m A(3) by (simp only: recover_bits_spec) simp
  qed
  define out where "out = (if bit ?bits 1 then [plain_pkt f pt dur (m - 2)] else []) @
      (if bit ?bits 0 then [plain_pkt f pt dur (m - 1)] else []) @ [plain_pkt f pt dur m]"
  have dep: "Depacketize d (red_pkt f pt dur m) = Some (Inr out, d')"
    using red_pkt_extract [OF ok m(3), of ?bits] t sn by (simp add: Depacketize_def out_def)
  have "plain_pkt f pt dur j \<in> set out" if "n < j" "j \<le> m" for j
  proof -
    have "j = m \<or> j = m - 1 \<and> n < m - 1 \<or> j = m - 2 \<and> n < m - 2" using that m by linarith
    then show ?thesis using b0 b1 by (auto simp: out_def)
  qed
  then have "plain_pkt f pt dur ` {n<..m} \<subseteq> set out" by auto
  moreover have "set out \<subseteq> plain_pkt f pt dur ` {n - 1..m}" using m by (auto simp: out_def)
  ultimately show ?thesis using dep A(1,2) by blast
qed

lemma stream_run:
  assumes ok: "sender_ok f pt dur"
  shows "started d \<Longrightarrow> lastSeq d = of_nat n \<Longrightarrow> 2 \<le> n \<Longrightarrow> small_gaps n ms \<Longrightarrow>
    \<exists>out. depacketize_all d (map (red_pkt f pt dur) ms) = Some out \<and>
      plain_pkt f pt dur ` {n<..last (n # ms)} \<subseteq> set out \<and> set out \<subseteq> plain_pkt f pt dur ` {n - 1..last (n # ms)}
      \<and> n \<le> last (n # ms)"
proof (induction ms arbitrary: d n)
  case (Cons m ms)
  have m: "n < m" "m \<le> n + 3" "2 \<le> m" and g: "small_gaps m ms" using Cons.prems by auto
  from stream_step [OF ok Cons.prems(1,2) m] obtain d' out where
    d': "Depacketize d (red_pkt f pt dur m) = Some (Inr out, d')" "started d'" "lastSeq d' = of_nat m"
    and out: "plain_pkt f pt dur ` {n<..m} \<subseteq> set out" "set out \<subseteq> plain_pkt f pt dur ` {n - 1..m}" by blast
  from Cons.IH [OF d'(2,3) m(3) g] obtain rest where
    rest: "depacketize_all d' (map (red_pkt f pt dur) ms) = Some rest"
      "plain_pkt f pt dur ` {m<..last (m # ms)} \<subseteq> set rest" "set rest \<subseteq> plain_pkt f pt dur ` {m - 1..last (m # ms)}"
      "m \<le> last (m # ms)" by blast
  have "{n<..last (m # ms)} = {n<..m} \<union> {m<..last (m # ms)}" using m rest(4) by auto
  then have "plain_pkt f pt dur ` {n<..last (m # ms)} \<subseteq> set (out @ rest)"
    using out(1) rest(2) by (simp only: image_Un set_append) blast
  moreover have "{n - 1..m} \<subseteq> {n - 1..last (m # ms)}" "{m - 1..last (m # ms)} \<subseteq> {n - 1..last (m # ms)}"
    using m rest(4) by auto
  then have "set (out @ rest) \<subseteq> plain_pkt f pt dur ` {n - 1..last (m # ms)}" using out(2) rest(3) by auto
  ultimately show ?case using d' rest m by auto
qed simp

section \<open>Properties\<close>

text \<open>
  C12. The history: a packet behind the last one is recorded if it is among the eight before it, a jump
  of more than eight forgets everything, and otherwise the last packet and whatever stays among the
  eight are remembered. Blocks are asked for exactly for the (at most two) packets just before this
  one that the history covers and misses.
\<close>

theorem depacketize_tracks:
  assumes "started d" "track d sn = (d', need)"
  shows "lastSeq d' = (if sn - lastSeq d \<le> 0x8000 then sn else lastSeq d) \<and>
    (seen d' s \<longleftrightarrow>
      (if sn = lastSeq d then seen d s
       else if sn - lastSeq d > 0x8000 then seen d s \<or> (s = sn \<and> in_history d sn)
       else if sn - lastSeq d > 8 then False
       else s = lastSeq d \<or> (seen d s \<and> in_history d' s))) \<and>
    (bit (recover_bits d' need sn) i \<longleftrightarrow> need \<and> i < 2 \<and>
      (\<forall>j \<le> i. in_history d' (sn - 1 - of_nat j)) \<and> \<not> seen d' (sn - 1 - of_nat i)) \<and>
    (need \<longleftrightarrow> sn \<noteq> lastSeq d \<and> (sn - lastSeq d \<le> 0x8000 \<or> in_history d sn))"
proof -
  note R = recover_bits_spec [of d' need sn i]
  consider "sn = lastSeq d" | "sn \<noteq> lastSeq d" "0x8000 < sn - lastSeq d"
    | "8 < sn - lastSeq d" "sn - lastSeq d \<le> 0x8000" | "sn \<noteq> lastSeq d" "sn - lastSeq d \<le> 8" by fastforce
  then show ?thesis
  proof cases
    case 1
    then have "d' = d" "\<not> need" using assms by (auto simp: track_def Let_def)
    then show ?thesis using 1 R by simp
  next
    case 2
    then show ?thesis using track_behind [OF assms(1) 2(2) assms(2)] R leD by auto
  next
    case 3
    have ne: "sn \<noteq> lastSeq d" using 3(1) by auto
    have "d' = d\<lparr>lastSeq := sn, pktHistory := 0\<rparr>" "need" using track_jump [OF assms(1) 3] assms(2) by auto
    moreover from this have "\<not> seen d' s" by (simp add: seen_def)
    ultimately show ?thesis using 3 ne R leD [OF 3(2)] by auto
  next
    case 4
    have "sn - lastSeq d \<le> 0x8000" using 4(2) by (rule order_trans) simp
    then show ?thesis using track_ahead [OF assms(1) 4 assms(2)] R 4 leD [OF 4(2)] leD by auto
  qed
qed

text \<open>
  Round trip: from a payload built with any redundant blocks, \<open>ExtractPackets\<close> returns exactly the
  selected blocks, oldest first, with their sequence numbers, timestamps and payload types, then the
  primary.
\<close>

theorem extract_round_trip:
  assumes "list_all frame_ok reds" "pt < 128"
  shows "ExtractPackets (pkt\<lparr>Payload := red_payload reds pt primary\<rparr>) bits =
    Some (Inr (picked pkt bits reds @ [pkt\<lparr>PayloadType := pt, Payload := primary\<rparr>]))"
  by (rule ExtractPackets_encoded [OF assms])

text \<open>
  On any payload whatever neither extraction panics; \<open>ExtractPrimaryEncoding\<close> fails exactly when
  \<open>ExtractPackets\<close> does, with the same error, and otherwise returns the payload of its last packet.
\<close>

theorem primary_agrees:
  "\<exists>r. ExtractPackets pkt bits = Some r \<and>
    ExtractPrimaryEncoding (Payload pkt) = Some (case r of Inl e \<Rightarrow> Inl e | Inr pkts \<Rightarrow> Inr (Payload (last pkts)))"
proof (cases rule: ExtractPackets_eq [of pkt bits])
  case (error e)
  then show ?thesis using primary_headers_agree [of "Payload pkt" 0 "[]"] by (simp add: ExtractPrimaryEncoding_def)
next
  case (short bs l p)
  then show ?thesis using primary_headers_agree [of "Payload pkt" 0 "[]"] by (simp add: ExtractPrimaryEncoding_def)
next
  case (ok reds pt p)
  then show ?thesis using primary_headers_agree [of "Payload pkt" 0 "[]"] by (simp add: ExtractPrimaryEncoding_def)
qed

text \<open>
  C13. Recovery end to end: when each packet carries the two frames before it and at most two packets in
  a row are lost, every frame from the first packet received to the last is emitted, and nothing is
  emitted that the sender did not send.
\<close>

theorem stream_recovered:
  assumes "sender_ok f pt dur" "2 \<le> n" "small_gaps n ms"
  shows "\<exists>out. depacketize_all zero_depacketizer (map (red_pkt f pt dur) (n # ms)) = Some out \<and>
    plain_pkt f pt dur ` {n..last (n # ms)} \<subseteq> set out \<and> set out \<subseteq> plain_pkt f pt dur ` {n - 1..last (n # ms)}"
proof -
  let ?d = "\<lparr>started = True, lastSeq = of_nat n, pktHistory = 0\<rparr>"
  have sn: "SequenceNumber (red_pkt f pt dur n) = of_nat n" by (simp add: red_pkt_def plain_pkt_def)
  have first: "Depacketize zero_depacketizer (red_pkt f pt dur n) = Some (Inr [plain_pkt f pt dur n], ?d)"
    using red_pkt_extract [OF assms(1,2), of 0] sn
    by (simp add: Depacketize_def track_def zero_depacketizer_def recover_bits_def)
  from stream_run [OF assms(1), of ?d n ms] assms obtain out where
    out: "depacketize_all ?d (map (red_pkt f pt dur) ms) = Some out"
      "plain_pkt f pt dur ` {n<..last (n # ms)} \<subseteq> set out" "set out \<subseteq> plain_pkt f pt dur ` {n - 1..last (n # ms)}"
      "n \<le> last (n # ms)" by auto
  have "{n..last (n # ms)} = insert n {n<..last (n # ms)}" using out(4) by auto
  then have "plain_pkt f pt dur ` {n..last (n # ms)} \<subseteq> set ([plain_pkt f pt dur n] @ out)"
  proof -
    assume e: "{n..last (n # ms)} = insert n {n<..last (n # ms)}"
    show ?thesis unfolding e image_insert using subset_insertI2 [OF out(2)] by (simp del: last.simps)
  qed
  moreover have "set ([plain_pkt f pt dur n] @ out) \<subseteq> plain_pkt f pt dur ` {n - 1..last (n # ms)}"
    using out(3,4) by auto
  ultimately show ?thesis using first out(1) by simp
qed

text \<open>
  A block recovered once is not recorded as received: after one loss the packet that follows asks for
  the same block again, and the recovered frame is emitted a second time, out of order.
\<close>

lemma recovered_twice:
  "map_option (map SequenceNumber) (depacketize_all zero_depacketizer (map (red_pkt (\<lambda>_. [1]) 111 960) [10, 12, 13])) =
    Some [10, 11, 12, 11, 13]"
  by code_simp

section \<open>Witnesses\<close>

theorem depacketize_tracks_witness:
  "let d = \<lparr>started = True, lastSeq = 97, pktHistory = 1\<rparr>; (d', need) = track d 100 in
    seen d' 97 \<and> seen d' 96 \<and> \<not> seen d' 98 \<and> bit (recover_bits d' need 100) 1"
proof -
  obtain d' need where t: "track \<lparr>started = True, lastSeq = 97, pktHistory = 1\<rparr> 100 = (d', need)"
    by (cases "track \<lparr>started = True, lastSeq = 97, pktHistory = 1\<rparr> 100")
  note T = depacketize_tracks [OF _ t]
  have s: "seen \<lparr>started = True, lastSeq = 97, pktHistory = 1\<rparr> 96" "\<not> seen \<lparr>started = True, lastSeq = 97, pktHistory = 1\<rparr> 98"
    by (simp_all add: seen_def)
  have a: "(\<forall>j \<le> 1. P j) \<longleftrightarrow> P 0 \<and> P (1 :: nat)" for P by (auto simp: le_Suc_eq)
  have l: "lastSeq d' = 100" "need" using T [of 97 0] by simp_all
  have "seen d' 97" "seen d' 96" "\<not> seen d' 98"
    using T [of 97 0] T [of 96 0] T [of 98 0] s l(1) by (simp_all add: in_history_def)
  then show ?thesis
    using T [of 97 1] l unfolding a by (simp add: t in_history_def)
qed

theorem extract_round_trip_witness:
  "ExtractPackets \<lparr>SequenceNumber = 100, Timestamp = 10000, PayloadType = 63, header_rest = (),
      Payload = red_payload [(111, 960, [0xCC])] 111 [0xAA, 0xBB]\<rparr> 1 =
    Some (Inr [\<lparr>SequenceNumber = 99, Timestamp = 9040, PayloadType = 111, header_rest = (), Payload = [0xCC]\<rparr>,
      \<lparr>SequenceNumber = 100, Timestamp = 10000, PayloadType = 111, header_rest = (), Payload = [0xAA, 0xBB]\<rparr>])"
  using extract_round_trip [of "[(111, 960, [0xCC])]" 111, where primary = "[0xAA, 0xBB]" and bits = 1 and
      pkt = "\<lparr>SequenceNumber = 100, Timestamp = 10000, PayloadType = 63, header_rest = (), Payload = []\<rparr>"]
  by (simp add: frame_ok_def)

theorem stream_recovered_witness:
  "\<exists>out. depacketize_all zero_depacketizer (map (red_pkt (\<lambda>n. [of_nat n]) 111 960) [10, 13, 14]) = Some out \<and>
    plain_pkt (\<lambda>n. [of_nat n]) 111 960 ` {10..14} \<subseteq> set out"
  using stream_recovered [of "\<lambda>n. [of_nat n]" 111 960 10 "[13, 14]"]
  by (auto simp: sender_ok_def simp del: depacketize_all.simps)

end
