(* ===== verification/Go_Time.thy ===== *)
theory Go_Time
  imports Complex_Main Go_Prelude
begin

text \<open>
  Differences of clock readings and conversions from \<open>float64\<close>, shared by the components that measure time.
  A time or duration is a number of nanoseconds, a float the rational it denotes.
\<close>

text \<open>\<open>Time.Sub\<close> and \<open>time.Since\<close> saturate at the range of \<open>int64\<close>.\<close>

definition time_sub :: "int \<Rightarrow> int \<Rightarrow> int" where
  "time_sub t u = max (- (2 ^ 63)) (min (2 ^ 63 - 1) (t - u))"

text \<open>The conversion of a \<open>float64\<close> out of range gives the least \<open>int64\<close> (amd64).\<close>

definition float_to_int64 :: "rat \<Rightarrow> int" where
  "float_to_int64 r = (let i = (if r < 0 then \<lceil>r\<rceil> else \<lfloor>r\<rfloor>) in
     if - (2 ^ 63) \<le> i \<and> i < 2 ^ 63 then i else - (2 ^ 63))"

lemma float_to_int64_id: "- (2 ^ 63) \<le> n \<Longrightarrow> n < 2 ^ 63 \<Longrightarrow> float_to_int64 (of_int n) = n"
  by (simp add: float_to_int64_def)

lemma float_to_int64_nonneg: "0 \<le> r \<Longrightarrow> r \<le> of_int n \<Longrightarrow> n < 2 ^ 63 \<Longrightarrow> 0 \<le> float_to_int64 r \<and> float_to_int64 r \<le> n"
  by (auto simp: float_to_int64_def Let_def floor_le_iff)

lemma float_to_int64_nonpos:
  assumes "r \<le> 0" "of_int n \<le> r" "- (2 ^ 63) \<le> n"
  shows "float_to_int64 r \<le> 0 \<and> n \<le> float_to_int64 r"
proof -
  have "n \<le> \<lceil>r\<rceil>" "\<lceil>r\<rceil> \<le> 0" using assms by linarith+
  then show ?thesis using assms by (auto simp: float_to_int64_def Let_def)
qed

end
