(* ===== verification/Ntp.thy ===== *)
theory Ntp
  imports Go_Time
begin

text \<open>
  NTP timestamps and the round-trip time from an RTCP reception report, \<^verbatim>\<open>helpers.go\<close> of the root package.
  A \<open>time.Time\<close> is its distance from the NTP epoch (1900-01-01 UTC) in nanoseconds, the zero time is
  \<open>None\<close>; clock readings are arguments. \<open>Time.Sub\<close> saturates at the range of \<open>int64\<close>.
\<close>

section \<open>NTP timestamps\<close>

definition ntpEpoch :: int where "ntpEpoch = 0"

definition Duration :: "u64 \<Rightarrow> int" where
  "Duration t =
    (let sec = drop_bit 32 t * 1000000000;
         frac = (t AND 0xffffffff) * 1000000000;
         nsec = drop_bit 32 frac;
         nsec = (if (ucast frac :: u32) \<ge> 0x80000000 then nsec + 1 else nsec)
     in sint (sec + nsec))"

definition ntp_Time :: "u64 \<Rightarrow> int" where
  "ntp_Time t = ntpEpoch + Duration t"

definition ToNtpTime :: "int \<Rightarrow> u64" where
  "ToNtpTime t =
    (let nsec = word_of_int (time_sub t ntpEpoch) :: u64;
         sec = nsec div 1000000000;
         nsec = push_bit 32 (nsec - sec * 1000000000);
         frac = nsec div 1000000000;
         frac = (if nsec mod 1000000000 \<ge> 1000000000 div 2 then frac + 1 else frac)
     in push_bit 32 sec OR frac)"

section \<open>Round-trip time\<close>

datatype rtt_error =
    ErrRttNoLastSenderReport | ErrRttNotLastSenderReport | ErrRttNoLastSendTime | ErrRttAnachronousSenderReport

record reception_report =
  LastSenderReport :: u32
  Delay :: u32

text \<open>
  \<open>wall\<close> is the reading of \<open>time.Now\<close>, \<open>since\<close> the later one of \<open>time.Since\<close>. The product and the quotient
  of the last step are exact in \<open>float64\<close>.
\<close>

definition getRttMs :: "int \<Rightarrow> int \<Rightarrow> reception_report \<Rightarrow> u64 \<Rightarrow> int option \<Rightarrow> bool \<Rightarrow> rtt_error + u32" where
  "getRttMs wall since report lastSRNTP lastSentAt ignoreLast =
    (if LastSenderReport report = 0 then Inl ErrRttNoLastSenderReport
     else if \<not> ignoreLast \<and> LastSenderReport report \<noteq> ucast (drop_bit 16 lastSRNTP AND 0xFFFFFFFF)
       then Inl ErrRttNotLastSenderReport
     else if \<not> ignoreLast \<and> lastSentAt = None then Inl ErrRttNoLastSendTime
     else
       let now = (if ignoreLast then wall else ntp_Time lastSRNTP + time_sub since (the lastSentAt));
           nowNTP32 = ucast (drop_bit 16 (ToNtpTime now)) :: u32;
           ntpDiff = nowNTP32 - LastSenderReport report - Delay report
       in if ntpDiff > push_bit 31 1 then Inl ErrRttAnachronousSenderReport
          else Inr (word_of_int \<lceil>of_int (uint ntpDiff) * 1000 / 65536 :: rat\<rceil>))"

definition GetRttMs :: "int \<Rightarrow> int \<Rightarrow> reception_report \<Rightarrow> u64 \<Rightarrow> int option \<Rightarrow> rtt_error + u32" where
  "GetRttMs wall since report lastSRNTP lastSentAt = getRttMs wall since report lastSRNTP lastSentAt False"

definition GetRttMsFromReceiverReportOnly :: "int \<Rightarrow> int \<Rightarrow> reception_report \<Rightarrow> rtt_error + u32" where
  "GetRttMsFromReceiverReportOnly wall since report = getRttMs wall since report 0 None True"

section \<open>Closed forms\<close>

text \<open>A timestamp rounds to the nearest nanosecond, a time to the nearest timestamp, both half up.\<close>

lemma round_half_up:
  fixes x M :: int
  assumes "M = 2 * h" "0 < h"
  shows "(if h \<le> x mod M then x div M + 1 else x div M) = (x + h) div M"
proof -
  have x: "x = (x div M) * M + x mod M" by simp
  have r: "0 \<le> x mod M" "x mod M < M" using assms by simp_all
  have "(x + h) div M = x div M + (x mod M + h) div M"
    using assms by (subst x) (simp add: add.assoc)
  moreover have "(x mod M + h) div M = (if h \<le> x mod M then 1 else 0)"
  proof (cases "h \<le> x mod M")
    case True
    then have "(x mod M + h) div M = (M + (x mod M - h)) div M" using assms(1) by (simp add: add.commute)
    also have "\<dots> = 1 + (x mod M - h) div M"
      using assms by (subst div_add_self1) simp_all
    also have "(x mod M - h) div M = 0" using True r assms(2) by (intro div_pos_pos_trivial) linarith+
    finally show ?thesis using True by simp
  next
    case False
    then show ?thesis using r assms by (simp add: div_pos_pos_trivial)
  qed
  ultimately show ?thesis by simp
qed

lemma Duration_eq: "Duration t = (uint t * 1000000000 + 2 ^ 31) div 2 ^ 32"
proof -
  define s where "s = uint t div 4294967296"
  define f where "f = uint t mod 4294967296"
  have split: "uint t = s * 4294967296 + f" by (simp add: s_def f_def)
  have t: "0 \<le> uint t" "uint t < 18446744073709551616" using uint_lt2p [of t] by simp_all
  have f: "0 \<le> f" "f < 4294967296" by (simp_all add: f_def)
  have s: "0 \<le> s" "s < 4294967296" using t split f by linarith+
  have m: "(0xffffffff :: u64) = mask 32" by (simp add: mask_eq_exp_minus_1)
  have fr: "uint ((t AND 0xffffffff) * 1000000000) = f * 1000000000"
    unfolding uint_word_ariths m uint_mask using f by (simp add: f_def [symmetric] mod_pos_pos_trivial)
  have sc: "uint (drop_bit 32 t * 1000000000) = s * 1000000000"
    unfolding uint_word_ariths uint_drop_bit using s by (simp add: s_def [symmetric] mod_pos_pos_trivial)
  define q where "q = f * 1000000000 div 2 ^ 32"
  have q: "0 \<le> q" "q \<le> 1000000000" using f by (simp_all add: q_def)
  have dr: "uint (drop_bit 32 ((t AND 0xffffffff) * 1000000000)) = q"
    unfolding uint_drop_bit fr q_def ..
  have lo: "uint (ucast ((t AND 0xffffffff) * 1000000000) :: u32) = f * 1000000000 mod 2 ^ 32"
    by (simp only: unsigned_ucast_eq take_bit_eq_mod fr) simp
  have up: "(ucast ((t AND 0xffffffff) * 1000000000) :: u32) \<ge> 0x80000000 \<longleftrightarrow> 2 ^ 31 \<le> f * 1000000000 mod 2 ^ 32"
    unfolding word_le_def lo by simp
  define n where "n = (if 2 ^ 31 \<le> f * 1000000000 mod 2 ^ 32 then q + 1 else q)"
  have n: "0 \<le> n" "n \<le> 1000000001" using q by (simp_all add: n_def)
  have nq: "n = (f * 1000000000 + 2 ^ 31) div 2 ^ 32"
    unfolding n_def q_def by (rule round_half_up) simp_all
  define nsec where "nsec = (if (ucast ((t AND 0xffffffff) * 1000000000) :: u32) \<ge> 0x80000000
    then drop_bit 32 ((t AND 0xffffffff) * 1000000000) + 1 else drop_bit 32 ((t AND 0xffffffff) * 1000000000))"
  have un: "uint nsec = n"
    unfolding nsec_def n_def up using q by (simp add: uint_word_ariths dr mod_pos_pos_trivial)
  have "uint (drop_bit 32 t * 1000000000 + nsec) = s * 1000000000 + n"
    unfolding uint_word_ariths(1) sc un using s n by (simp add: mod_pos_pos_trivial)
  then have "sint (drop_bit 32 t * 1000000000 + nsec) = s * 1000000000 + n"
    using s n by (simp add: sint_uint signed_take_bit_int_eq_self)
  moreover have "Duration t = sint (drop_bit 32 t * 1000000000 + nsec)"
    unfolding Duration_def Let_def nsec_def ..
  moreover have "(uint t * 1000000000 + 2 ^ 31) div 2 ^ 32 = s * 1000000000 + n"
    unfolding split nq by simp
  ultimately show ?thesis by simp
qed

definition ntp_units :: "int \<Rightarrow> int" where
  "ntp_units t = (t * 2 ^ 32 + 500000000) div 1000000000"

lemma ToNtpTime_eq:
  assumes "0 \<le> t" "t < 2 ^ 63"
  shows "ToNtpTime t = word_of_int (ntp_units t)"
proof -
  define s where "s = t div 1000000000"
  define r where "r = t mod 1000000000"
  have t: "t = s * 1000000000 + r" by (simp add: s_def r_def)
  have r: "0 \<le> r" "r < 1000000000" by (simp_all add: r_def)
  have s: "0 \<le> s" "s < 9223372037" using assms t r by simp_all
  have st: "time_sub t ntpEpoch = t" using assms by (simp add: time_sub_def ntpEpoch_def)
  let ?n = "word_of_int t :: u64"
  have un: "uint ?n = t" using assms by (simp add: uint_word_of_int_eq take_bit_int_eq_self)
  have us: "uint (?n div 1000000000) = s" by (simp add: uint_div un s_def)
  have sm: "uint (?n div 1000000000 * 1000000000) = s * 1000000000"
    unfolding uint_word_ariths us using s by (simp add: mod_pos_pos_trivial)
  have ur: "uint (?n - ?n div 1000000000 * 1000000000) = r"
    unfolding uint_word_ariths(2) sm un using r by (simp add: t mod_pos_pos_trivial)
  define f where "f = r * 4294967296"
  have f: "0 \<le> f" "f < 4294967296000000000" using r by (simp_all add: f_def)
  have uf: "uint (push_bit 32 (?n - ?n div 1000000000 * 1000000000)) = f"
  proof -
    have "uint (push_bit 32 (?n - ?n div 1000000000 * 1000000000)) = take_bit 64 (r * 2 ^ 32)"
      by (simp only: unsigned_push_bit_eq ur) (simp add: push_bit_eq_mult)
    also have "\<dots> = f" using f by (simp add: f_def take_bit_int_eq_self)
    finally show ?thesis .
  qed
  define q where "q = (f + 500000000) div 1000000000"
  have q: "0 \<le> q" "q < 4294967296" using f r by (simp_all add: q_def f_def)
  define frac where "frac = (if push_bit 32 (?n - ?n div 1000000000 * 1000000000) mod 1000000000 \<ge> 1000000000 div 2
    then push_bit 32 (?n - ?n div 1000000000 * 1000000000) div 1000000000 + 1
    else push_bit 32 (?n - ?n div 1000000000 * 1000000000) div 1000000000)"
  have c: "push_bit 32 (?n - ?n div 1000000000 * 1000000000) mod 1000000000 \<ge> 1000000000 div 2 \<longleftrightarrow> 500000000 \<le> f mod 1000000000"
    unfolding word_le_def uint_mod uf uint_div by simp
  have ufrac: "uint frac = q"
  proof -
    have d: "uint (push_bit 32 (?n - ?n div 1000000000 * 1000000000) div 1000000000) = f div 1000000000"
      by (simp only: uint_div uf) simp
    have "f div 1000000000 < 18446744073709551615" "0 \<le> f div 1000000000" using f by simp_all
    then have "uint frac = (if 500000000 \<le> f mod 1000000000 then f div 1000000000 + 1 else f div 1000000000)"
      unfolding frac_def c by (simp add: uint_word_ariths(1) d mod_pos_pos_trivial)
    then show ?thesis using round_half_up [of 1000000000 500000000 f] by (simp add: q_def)
  qed
  have "ToNtpTime t = push_bit 32 (?n div 1000000000) OR frac"
    unfolding ToNtpTime_def st Let_def frac_def ..
  also have "\<dots> = push_bit 32 (?n div 1000000000) + frac"
  proof (rule disjunctive_add_eq_or [symmetric], rule bit_word_eqI)
    fix k assume "k < LENGTH(64)"
    have "frac < 2 ^ 32" using q by (simp add: word_less_def ufrac)
    then show "bit (push_bit 32 (?n div 1000000000) AND frac) k = bit 0 k"
      using bit_less_exp [of frac 32 k] by (auto simp: bit_and_iff bit_push_bit_iff)
  qed
  also have "\<dots> = word_of_int (s * 4294967296 + q)"
  proof -
    have "frac = word_of_int q" "?n div 1000000000 = word_of_int s" using ufrac us by (metis word_of_int_uint)+
    then show ?thesis by (simp add: push_bit_eq_mult mult.commute)
  qed
  also have "s * 4294967296 + q = ntp_units t"
    by (simp add: ntp_units_def t q_def f_def algebra_simps)
  finally show ?thesis .
qed

text \<open>The unit of a timestamp is finer than a nanosecond: nothing is lost on the way back.\<close>

lemma units_inverse: "(ntp_units t * 1000000000 + 2 ^ 31) div 2 ^ 32 = t"
proof -
  define u where "u = ntp_units t"
  define r where "r = (t * 4294967296 + 500000000) mod 1000000000"
  have "t * 4294967296 + 500000000 = u * 1000000000 + r" by (simp add: u_def ntp_units_def r_def)
  moreover have "0 \<le> r" "r < 1000000000" by (simp_all add: r_def)
  ultimately have "u * 1000000000 + 2147483648 = t * 4294967296 + (2647483648 - r)"
    and "0 \<le> 2647483648 - r" "2647483648 - r < 4294967296" by linarith+
  moreover have "(t * 4294967296 + (2647483648 - r)) div 4294967296 = t"
    using \<open>0 \<le> 2647483648 - r\<close> \<open>2647483648 - r < 4294967296\<close> by (simp add: div_pos_pos_trivial)
  ultimately show ?thesis by (simp add: u_def)
qed

text \<open>One era is \<open>2^32\<close> seconds.\<close>

lemma units_era: "ntp_units (q * 4294967296000000000 + r) = q * 18446744073709551616 + ntp_units r"
proof -
  have "(q * 4294967296000000000 + r) * 2 ^ 32 + 500000000 = (r * 2 ^ 32 + 500000000) + q * 18446744073709551616 * 1000000000"
    by (simp add: algebra_simps)
  then show ?thesis unfolding ntp_units_def by (simp only: div_mult_self1 zero_neq_numeral not_False_eq_True)
qed

lemma units_bounds: "0 \<le> r \<Longrightarrow> r < 4294967296000000000 \<Longrightarrow> 0 \<le> ntp_units r \<and> ntp_units r < 18446744073709551616"
  by (auto simp: ntp_units_def)

lemma uint_ToNtpTime:
  assumes "0 \<le> t" "t < 2 ^ 63"
  shows "uint (ToNtpTime t) = ntp_units (t mod 4294967296000000000)"
proof -
  let ?r = "t mod 4294967296000000000" and ?q = "t div 4294967296000000000"
  have "t = ?q * 4294967296000000000 + ?r" by simp
  then have "ntp_units t = ?q * 18446744073709551616 + ntp_units ?r" using units_era [of ?q ?r] by simp
  moreover have "0 \<le> ntp_units ?r \<and> ntp_units ?r < 18446744073709551616" by (rule units_bounds) simp_all
  moreover have "uint (ToNtpTime t) = ntp_units t mod 18446744073709551616"
    by (simp only: ToNtpTime_eq [OF assms] uint_word_of_int_eq) (simp add: take_bit_eq_mod)
  ultimately show ?thesis by simp
qed

lemma Duration_ToNtpTime:
  assumes "0 \<le> t" "t < 2 ^ 63"
  shows "Duration (ToNtpTime t) = t mod 4294967296000000000"
  unfolding Duration_eq uint_ToNtpTime [OF assms] by (rule units_inverse)

lemma units_mono: "t \<le> t' \<Longrightarrow> ntp_units t \<le> ntp_units t'"
  unfolding ntp_units_def by (rule zdiv_mono1) simp_all

lemma Duration_bounds: "0 \<le> Duration t" "Duration t \<le> 4294967296000000000"
proof -
  have "uint t < 18446744073709551616" "0 \<le> uint t" using uint_lt2p [of t] by simp_all
  then have "0 \<le> uint t * 1000000000 + 2147483648" "uint t * 1000000000 + 2147483648 < 18446744073709551616 * 1000000000 + 2147483648"
    by linarith+
  then show "0 \<le> Duration t" "Duration t \<le> 4294967296000000000"
    unfolding Duration_eq by (simp_all add: pos_imp_zdiv_nonneg_iff)
qed

section \<open>Measuring\<close>

lemma middle_bits: "(ucast (drop_bit 16 w) :: u32) = word_of_int (uint (w :: u64) div 65536)"
  by (simp only: ucast_eq uint_drop_bit) simp

lemma middle_era:
  "(word_of_int ((x + q * 18446744073709551616) div 65536) :: u32) = word_of_int (x div 65536)"
proof -
  have "(x + q * 18446744073709551616) div 65536 = x div 65536 + q * 281474976710656"
    by (simp add: div_plus_div_distrib_dvd_right)
  moreover have "(281474976710656 :: u32) = 0" by simp
  then have "(word_of_int (x div 65536 + q * 281474976710656) :: u32) = word_of_int (x div 65536)"
    by (simp only: of_int_add of_int_mult of_int_numeral mult_zero_right add_0_right)
  ultimately show ?thesis by simp
qed

text \<open>The elapsed time seen in the middle 32 bits, in units of \<open>2^-16\<close> seconds.\<close>

definition elapsed_units :: "u64 \<Rightarrow> int \<Rightarrow> int" where
  "elapsed_units L e = ntp_units (Duration L + e) div 65536 - uint L div 65536"

lemma elapsed_units_bounds:
  assumes "1 \<le> e"
  shows "0 \<le> elapsed_units L e" "\<bar>elapsed_units L e * 1000000000 - e * 65536\<bar> < 2 * 1000000000"
proof -
  define A where "A = uint L"
  define B where "B = ntp_units (Duration L + e)"
  define d where "d = (A * 1000000000 + 2147483648) mod 4294967296"
  define g where "g = ((Duration L + e) * 4294967296 + 500000000) mod 1000000000"
  have "A * 1000000000 + 2147483648 = Duration L * 4294967296 + d" by (simp add: Duration_eq A_def d_def)
  moreover have "(Duration L + e) * 4294967296 + 500000000 = B * 1000000000 + g" by (simp add: B_def ntp_units_def g_def)
  moreover have "0 \<le> d" "d < 4294967296" "0 \<le> g" "g < 1000000000" by (simp_all add: d_def g_def)
  moreover have "(Duration L + e) * 4294967296 = Duration L * 4294967296 + e * 4294967296" by (simp add: algebra_simps)
  ultimately have lo: "e * 4294967296 - 2647483648 < (B - A) * 1000000000" and hi: "(B - A) * 1000000000 < e * 4294967296 + 2647483649"
    by (simp_all only: left_diff_distrib)
  have "0 < (B - A) * 1000000000" using lo assms by linarith
  then have "A \<le> B" by simp
  then show "0 \<le> elapsed_units L e" unfolding elapsed_units_def A_def [symmetric] B_def [symmetric]
    using zdiv_mono1 [of A B 65536] by simp
  define n where "n = B div 65536 - A div 65536"
  have "B = (B div 65536) * 65536 + B mod 65536" "A = (A div 65536) * 65536 + A mod 65536" by simp_all
  moreover have "0 \<le> B mod 65536" "B mod 65536 < 65536" "0 \<le> A mod 65536" "A mod 65536 < 65536" by simp_all
  ultimately have "B - A - 65535 \<le> n * 65536" "n * 65536 \<le> B - A + 65535"
    unfolding n_def left_diff_distrib by linarith+
  then have "\<bar>n * 1000000000 - e * 65536\<bar> < 2 * 1000000000" using lo hi unfolding left_diff_distrib by linarith
  then show "\<bar>elapsed_units L e * 1000000000 - e * 65536\<bar> < 2 * 1000000000"
    by (simp add: elapsed_units_def n_def A_def B_def)
qed

lemma elapsed_word:
  assumes "0 \<le> Duration L + e" "Duration L + e < 2 ^ 63"
  shows "(ucast (drop_bit 16 (ToNtpTime (Duration L + e))) :: u32) - ucast (drop_bit 16 L) = word_of_int (elapsed_units L e)"
proof -
  let ?t = "Duration L + e"
  let ?q = "?t div 4294967296000000000"
  have "?t = ?q * 4294967296000000000 + ?t mod 4294967296000000000" by simp
  then have "ntp_units ?t = ntp_units (?t mod 4294967296000000000) + ?q * 18446744073709551616"
    using units_era [of ?q "?t mod 4294967296000000000"] by simp
  then have "(ucast (drop_bit 16 (ToNtpTime ?t)) :: u32) = word_of_int (ntp_units ?t div 65536)"
    by (simp only: middle_bits uint_ToNtpTime [OF assms] middle_era)
  then show ?thesis by (simp only: middle_bits elapsed_units_def of_int_diff)
qed

lemma rtt_ms_bounds:
  assumes "0 \<le> (x :: int)" "x \<le> 2147483648"
  shows "0 \<le> \<lceil>of_int x * 1000 / 65536 :: rat\<rceil>" "\<lceil>of_int x * 1000 / 65536 :: rat\<rceil> \<le> 32768000"
proof -
  have "(0 :: rat) \<le> of_int x" "(of_int x :: rat) \<le> of_int 2147483648"
    using assms by (simp_all only: of_int_0_le_iff of_int_le_iff)
  then show "0 \<le> \<lceil>of_int x * 1000 / 65536 :: rat\<rceil>" "\<lceil>of_int x * 1000 / 65536 :: rat\<rceil> \<le> 32768000"
    by (simp_all add: ceiling_le_iff le_ceiling_iff)
qed

section \<open>Properties\<close>

text \<open>
  C14. Round trip of times: converting a time to an NTP timestamp and back loses nothing, up to the era
  of \<open>2^32\<close> seconds the format has room for.
\<close>

theorem ntp_round_trip:
  assumes "0 \<le> t" "t < 2 ^ 63"
  shows "ntp_Time (ToNtpTime t) = t mod (2 ^ 32 * 1000000000)"
  using Duration_ToNtpTime [OF assms] by (simp add: ntp_Time_def ntpEpoch_def)

text \<open>
  Within an era the timestamp is the nearest to the time (units of \<open>2^-32\<close> seconds), and timestamps
  keep the order of times.
\<close>

theorem ntp_nearest:
  assumes "0 \<le> t" "t \<le> t'" "t' < 2 ^ 32 * 1000000000"
  shows "\<bar>uint (ToNtpTime t) * 1000000000 - t * 2 ^ 32\<bar> \<le> 500000000 \<and> ToNtpTime t \<le> ToNtpTime t'"
proof -
  have u: "uint (ToNtpTime x) = ntp_units x" if "0 \<le> x" "x < 2 ^ 32 * 1000000000" for x
    using that uint_ToNtpTime [of x] by simp
  have t: "uint (ToNtpTime t) = ntp_units t" "uint (ToNtpTime t') = ntp_units t'"
    using assms u [of t] u [of t'] by simp_all
  define r where "r = (t * 4294967296 + 500000000) mod 1000000000"
  have "t * 4294967296 + 500000000 = ntp_units t * 1000000000 + r" by (simp add: ntp_units_def r_def)
  moreover have "0 \<le> r" "r < 1000000000" by (simp_all add: r_def)
  ultimately have "\<bar>ntp_units t * 1000000000 - t * 4294967296\<bar> \<le> 500000000" by linarith
  then show ?thesis using t units_mono [OF assms(2)] by (simp add: word_le_def)
qed

lemma middle_mask: "(ucast (drop_bit 16 L AND 0xFFFFFFFF) :: u32) = ucast (drop_bit 16 (L :: u64))"
proof -
  have m: "(0xFFFFFFFF :: u64) = mask 32" by (simp add: mask_eq_exp_minus_1)
  show ?thesis unfolding m by (rule bit_word_eqI) (auto simp: bit_simps)
qed

text \<open>The difference of two numbers below \<open>2 ^ 31\<close> in 32 bits is beyond \<open>2 ^ 31\<close> exactly when it is negative.\<close>

lemma difference_word:
  fixes x :: u32
  assumes x: "x = word_of_int (n - d)" and n: "0 \<le> n" "n \<le> 2147483648" and d: "0 \<le> d" "d < 2147483648"
  shows "uint x = (if n < d then n - d + 4294967296 else n - d)" "x > push_bit 31 1 \<longleftrightarrow> n < d"
proof -
  have "uint x = (n - d) mod 4294967296" unfolding x uint_word_of_int_eq by (simp add: take_bit_eq_mod)
  moreover have "(n - d) mod 4294967296 = n - d + 4294967296" if "n < d"
    using that n d mod_pos_pos_trivial [of "n - d + 4294967296" 4294967296] by simp
  moreover have "(n - d) mod 4294967296 = n - d" if "\<not> n < d" using that n d by (intro mod_pos_pos_trivial) linarith+
  ultimately show u: "uint x = (if n < d then n - d + 4294967296 else n - d)" by simp
  have "uint (push_bit 31 1 :: u32) = 2147483648" by simp
  moreover have "2147483648 < uint x \<longleftrightarrow> n < d" unfolding u using n d by (cases "n < d") simp_all
  ultimately show "x > push_bit 31 1 \<longleftrightarrow> n < d" unfolding word_less_def by simp
qed

text \<open>
  C15. The round-trip time of a matching report is the time since the sender report minus the delay the
  peer names, measured to within two units of \<open>2^-16\<close> seconds and rounded up to a millisecond; a peer
  that names more delay than has elapsed is reported as anachronous.
\<close>

theorem rtt_measured:
  assumes L: "LastSenderReport report = ucast (drop_bit 16 L)" "LastSenderReport report \<noteq> 0"
    and e: "1 \<le> since - sent" "since - sent \<le> 32767 * 1000000000"
    and D: "uint (Delay report) < 2 ^ 31"
  shows "\<exists>n. \<bar>n * 1000000000 - (since - sent) * 65536\<bar> < 2 * 1000000000 \<and>
    GetRttMs wall since report L (Some sent) =
      (if n < uint (Delay report) then Inl ErrRttAnachronousSenderReport
       else Inr (word_of_int \<lceil>of_int (n - uint (Delay report)) * 1000 / 65536 :: rat\<rceil>))"
proof -
  let ?e = "since - sent" and ?D = "uint (Delay report)"
  define n where "n = elapsed_units L ?e"
  have n: "0 \<le> n" "\<bar>n * 1000000000 - ?e * 65536\<bar> < 2 * 1000000000"
    using elapsed_units_bounds [OF e(1), of L] by (simp_all add: n_def)
  have nh: "n \<le> 2147483648"
  proof -
    have "n * 1000000000 < ?e * 65536 + 2000000000" using n(2) by (simp only: abs_less_iff) linarith
    moreover have "?e * 65536 \<le> 32767000000000 * 65536" using e(2) by (intro mult_right_mono) simp_all
    ultimately show ?thesis by linarith
  qed
  have D': "0 \<le> ?D" "?D < 2147483648" using D by simp_all
  have sb: "time_sub since sent = ?e" using e by (simp add: time_sub_def)
  have rng: "0 \<le> Duration L + ?e" "Duration L + ?e < 2 ^ 63"
    using Duration_bounds [of L] e by simp_all
  define x where "x = ucast (drop_bit 16 (ToNtpTime (Duration L + ?e))) - LastSenderReport report - Delay report"
  have "x = word_of_int (n - ?D)"
    using elapsed_word [OF rng] L(1) by (simp add: x_def n_def)
  from difference_word [OF this n(1) nh D'] have ux: "uint x = (if n < ?D then n - ?D + 4294967296 else n - ?D)"
    and big: "x > push_bit 31 1 \<longleftrightarrow> n < ?D" by simp_all
  have "GetRttMs wall since report L (Some sent) =
      (if x > push_bit 31 1 then Inl ErrRttAnachronousSenderReport else Inr (word_of_int \<lceil>of_int (uint x) * 1000 / 65536 :: rat\<rceil>))"
    using L by (simp add: GetRttMs_def getRttMs_def middle_mask sb ntp_Time_def ntpEpoch_def Let_def x_def)
  then show ?thesis using big ux n(2) by (intro exI [of _ n]) simp
qed

text \<open>
  Every outcome of the round-trip time has its cause: the first three errors stand for a missing
  sender report, another sender report and a missing send time (the last two cannot occur without a
  sender report of one's own), and a result never exceeds 32768 seconds.
\<close>

theorem rtt_outcomes:
  fixes report defines "lsr \<equiv> LastSenderReport report"
  shows "(GetRttMs wall since report L sent = Inl ErrRttNoLastSenderReport \<longleftrightarrow> lsr = 0) \<and>
    (GetRttMs wall since report L sent = Inl ErrRttNotLastSenderReport \<longleftrightarrow> lsr \<noteq> 0 \<and> lsr \<noteq> ucast (drop_bit 16 L)) \<and>
    (GetRttMs wall since report L sent = Inl ErrRttNoLastSendTime \<longleftrightarrow>
       lsr \<noteq> 0 \<and> lsr = ucast (drop_bit 16 L) \<and> sent = None) \<and>
    GetRttMsFromReceiverReportOnly wall since report \<notin> {Inl ErrRttNotLastSenderReport, Inl ErrRttNoLastSendTime} \<and>
    (\<forall>r. GetRttMs wall since report L sent = Inr r \<or> GetRttMsFromReceiverReportOnly wall since report = Inr r
       \<longrightarrow> uint r \<le> 32768 * 1000)"
proof -
  have bound: "uint r \<le> 32768000" if r: "getRttMs wall since report L' sent' ig = Inr r" for L' sent' ig r
  proof -
    obtain x :: u32 where x: "\<not> x > push_bit 31 1" "r = word_of_int \<lceil>of_int (uint x) * 1000 / 65536 :: rat\<rceil>"
      using r by (auto simp: getRttMs_def Let_def split: if_splits)
    have "0 \<le> uint x" "uint x \<le> 2147483648" using x(1) by (simp_all add: word_less_def)
    from rtt_ms_bounds [OF this] show ?thesis
      by (simp add: x(2) uint_word_of_int_eq take_bit_int_eq_self)
  qed
  show ?thesis
    using bound unfolding GetRttMs_def GetRttMsFromReceiverReportOnly_def
    by (auto simp: getRttMs_def middle_mask Let_def lsr_def)
qed

section \<open>Witnesses\<close>

theorem ntp_round_trip_witness: "ntp_Time (ToNtpTime 3900000000123456789) = 3900000000123456789"
  by (subst ntp_round_trip) simp_all

theorem ntp_nearest_witness: "ToNtpTime 3900000000123456789 \<le> ToNtpTime 3900000000123456790"
  using ntp_nearest [of 3900000000123456789 3900000000123456790] by simp

definition sample_report :: reception_report where
  "sample_report = \<lparr>LastSenderReport = 7, Delay = 6553\<rparr>"

lemma sample_report_simps [simp]: "LastSenderReport sample_report = 7" "Delay sample_report = 6553"
  by (simp_all add: sample_report_def)

theorem rtt_measured_witness:
  "\<exists>n. \<bar>n * 1000000000 - 250000000 * 65536\<bar> < 2 * 1000000000 \<and>
    GetRttMs 0 300000000 sample_report (7 * 65536) (Some 50000000) =
      (if n < 6553 then Inl ErrRttAnachronousSenderReport
       else Inr (word_of_int \<lceil>of_int (n - 6553) * 1000 / 65536 :: rat\<rceil>))"
  using rtt_measured [of sample_report "7 * 65536" 300000000 50000000 0] by (simp cong: if_cong)

theorem rtt_outcomes_witness:
  "GetRttMs 0 0 sample_report (6 * 65536) None = Inl ErrRttNotLastSenderReport"
  using rtt_outcomes [of 0 0 sample_report "6 * 65536" None] by simp

end
