(* ===== verification/Vp8.thy ===== *)
theory Vp8
  imports Go_Prelude
begin

text \<open>
  The VP8 payload descriptor, \<^verbatim>\<open>pkg/codec/vp8.go\<close>, and \<^verbatim>\<open>pkg/codec/helpers.go\<close>. A payload is \<open>None\<close> for a nil
  slice. \<open>Unmarshal\<close> writes into its receiver, also when it fails: it returns the error, if any, and the
  receiver afterwards.
\<close>

section \<open>Types\<close>

datatype vp8_error = errShortPacket | errNilPacket | errInvalidPacket

record VP8 =
  vp_FirstByte :: byte
  vp_S :: bool
  vp_I :: bool
  vp_M :: bool
  vp_PictureID :: u16
  vp_L :: bool
  vp_TL0PICIDX :: byte
  vp_T :: bool
  vp_TID :: byte
  vp_Y :: bool
  vp_K :: bool
  vp_KEYIDX :: byte
  vp_HeaderSize :: int
  vp_IsKeyFrame :: bool

definition zero_VP8 :: VP8 where
  "zero_VP8 = \<lparr>vp_FirstByte = 0, vp_S = False, vp_I = False, vp_M = False, vp_PictureID = 0, vp_L = False,
     vp_TL0PICIDX = 0, vp_T = False, vp_TID = 0, vp_Y = False, vp_K = False, vp_KEYIDX = 0,
     vp_HeaderSize = 0, vp_IsKeyFrame = False\<rparr>"

record VideoSize =
  Width :: u32
  Height :: u32

definition VPxPictureIdSizeDiff :: "bool \<Rightarrow> bool \<Rightarrow> int" where
  "VPxPictureIdSizeDiff mBit1 mBit2 = (if mBit1 = mBit2 then 0 else if mBit1 then 1 else - 1)"

section \<open>Unmarshal\<close>

text \<open>
  The steps of \<open>Unmarshal\<close>: \<open>Inl\<close> is an early return with the receiver as it is then, \<open>Inr\<close> carries the
  receiver and \<open>idx\<close> on.
\<close>

type_synonym vp8_step = "((vp8_error \<times> VP8) + (VP8 \<times> nat)) option"

definition step_PictureID :: "byte list \<Rightarrow> VP8 \<Rightarrow> nat \<Rightarrow> vp8_step" where
  "step_PictureID payload v idx =
    (if \<not> vp_I v then Some (Inr (v, idx))
     else
       let idx = idx + 1 in
       if length payload < idx + 1 then Some (Inl (errShortPacket, v))
       else do {
         b \<leftarrow> go_at payload idx;
         let pid = b AND 0x7f;
         let v = v\<lparr>vp_M := b AND 0x80 > 0\<rparr>;
         if vp_M v then
           let idx = idx + 1 in
           if length payload < idx + 1 then Some (Inl (errShortPacket, v))
           else do {
             b2 \<leftarrow> go_at payload idx;
             Some (Inr (v\<lparr>vp_PictureID := ucast (be_val [pid, b2])\<rparr>, idx)) }
         else Some (Inr (v\<lparr>vp_PictureID := ucast pid\<rparr>, idx)) })"

definition step_TL0PICIDX :: "byte list \<Rightarrow> VP8 \<Rightarrow> nat \<Rightarrow> vp8_step" where
  "step_TL0PICIDX payload v idx =
    (if \<not> vp_L v then Some (Inr (v, idx))
     else
       let idx = idx + 1 in
       if length payload < idx + 1 then Some (Inl (errShortPacket, v))
       else do { b \<leftarrow> go_at payload idx; Some (Inr (v\<lparr>vp_TL0PICIDX := b\<rparr>, idx)) })"

definition step_TK :: "byte list \<Rightarrow> VP8 \<Rightarrow> nat \<Rightarrow> vp8_step" where
  "step_TK payload v idx =
    (if \<not> (vp_T v \<or> vp_K v) then Some (Inr (v, idx))
     else
       let idx = idx + 1 in
       if length payload < idx + 1 then Some (Inl (errShortPacket, v))
       else do {
         b \<leftarrow> go_at payload idx;
         let v = (if vp_T v then v\<lparr>vp_TID := drop_bit 6 (b AND 0xc0), vp_Y := b AND 0x20 > 0\<rparr> else v);
         let v = (if vp_K v then v\<lparr>vp_KEYIDX := b AND 0x1f\<rparr> else v);
         Some (Inr (v, idx)) })"

text \<open>The end of both branches: the first byte of the VP8 payload.\<close>

definition step_last :: "byte list \<Rightarrow> VP8 \<Rightarrow> nat \<Rightarrow> (vp8_error option \<times> VP8) option" where
  "step_last payload v idx =
    (let idx = idx + 1 in
     if length payload < idx + 1 then Some (Some errShortPacket, v)
     else do {
       b \<leftarrow> go_at payload idx;
       Some (None, v\<lparr>vp_IsKeyFrame := (b AND 0x01 = 0 \<and> vp_S v), vp_HeaderSize := int idx\<rparr>) })"

definition then_step :: "vp8_step \<Rightarrow> (VP8 \<Rightarrow> nat \<Rightarrow> vp8_step) \<Rightarrow> vp8_step" where
  "then_step m f = do { r \<leftarrow> m; case r of Inl e \<Rightarrow> Some (Inl e) | Inr (v, idx) \<Rightarrow> f v idx }"

definition Unmarshal :: "VP8 \<Rightarrow> byte list option \<Rightarrow> (vp8_error option \<times> VP8) option" where
  "Unmarshal v payload_opt =
    (case payload_opt of
       None \<Rightarrow> Some (Some errNilPacket, v)
     | Some payload \<Rightarrow>
         if length payload < 1 then Some (Some errShortPacket, v)
         else do {
           b \<leftarrow> go_at payload 0;
           let v = v\<lparr>vp_FirstByte := b, vp_S := b AND 0x10 > 0\<rparr>;
           if b AND 0x80 > 0 then
             if length payload < 2 then Some (Some errShortPacket, v)
             else do {
               x \<leftarrow> go_at payload 1;
               let v = v\<lparr>vp_I := x AND 0x80 > 0, vp_L := x AND 0x40 > 0, vp_T := x AND 0x20 > 0, vp_K := x AND 0x10 > 0\<rparr>;
               if vp_L v \<and> \<not> vp_T v then Some (Some errInvalidPacket, v)
               else do {
                 r \<leftarrow> then_step (then_step (step_PictureID payload v 1) (step_TL0PICIDX payload)) (step_TK payload);
                 case r of
                   Inl (err, v) \<Rightarrow> Some (Some err, v)
                 | Inr (v, idx) \<Rightarrow> step_last payload v idx } }
           else step_last payload v 0 })"

section \<open>Marshal\<close>

definition write_PictureID :: "VP8 \<Rightarrow> byte list \<times> nat \<times> byte \<Rightarrow> (byte list \<times> nat \<times> byte) option" where
  "write_PictureID v = (\<lambda>(buf, idx, xval).
    if vp_I v then
      let xval = xval OR push_bit 7 1 in
      if vp_M v then do {
        buf \<leftarrow> go_set buf idx (0x80 OR ucast (drop_bit 8 (vp_PictureID v) AND 0x7f));
        buf \<leftarrow> go_set buf (idx + 1) (ucast (vp_PictureID v AND 0xff));
        Some (buf, idx + 2, xval) }
      else do {
        buf \<leftarrow> go_set buf idx (ucast (vp_PictureID v));
        Some (buf, idx + 1, xval) }
    else Some (buf, idx, xval))"

definition write_TL0PICIDX :: "VP8 \<Rightarrow> byte list \<times> nat \<times> byte \<Rightarrow> (byte list \<times> nat \<times> byte) option" where
  "write_TL0PICIDX v = (\<lambda>(buf, idx, xval).
    if vp_L v then do {
      buf \<leftarrow> go_set buf idx (vp_TL0PICIDX v);
      Some (buf, idx + 1, xval OR push_bit 6 1) }
    else Some (buf, idx, xval))"

definition write_TK :: "VP8 \<Rightarrow> byte list \<times> nat \<times> byte \<Rightarrow> (byte list \<times> nat \<times> byte) option" where
  "write_TK v = (\<lambda>(buf, idx, xval).
    if vp_T v \<or> vp_K v then do {
      buf \<leftarrow> go_set buf idx 0;
      (buf, xval) \<leftarrow> (if vp_T v then do {
          buf \<leftarrow> go_set buf idx (push_bit 6 (vp_TID v));
          buf \<leftarrow> (if vp_Y v then do { b \<leftarrow> go_at buf idx; go_set buf idx (b OR push_bit 5 1) } else Some buf);
          Some (buf, xval OR push_bit 5 1) }
        else Some (buf, xval));
      (buf, xval) \<leftarrow> (if vp_K v then do {
          b \<leftarrow> go_at buf idx;
          buf \<leftarrow> go_set buf idx (b OR (vp_KEYIDX v AND 0x1f));
          Some (buf, xval OR push_bit 4 1) }
        else Some (buf, xval));
      Some (buf, idx + 1, xval) }
    else Some (buf, idx, xval))"

definition MarshalTo :: "VP8 \<Rightarrow> byte list \<Rightarrow> ((vp8_error + nat) \<times> byte list) option" where
  "MarshalTo v buf =
    (if int (length buf) < vp_HeaderSize v then Some (Inl errShortPacket, buf)
     else do {
       buf \<leftarrow> go_set buf 0 (vp_FirstByte v);
       b \<leftarrow> go_at buf 0;
       if vp_I v \<or> vp_L v \<or> vp_T v \<or> vp_K v then do {
         buf \<leftarrow> go_set buf 0 (b OR 0x80);
         st \<leftarrow> write_PictureID v (buf, 2, 0);
         st \<leftarrow> write_TL0PICIDX v st;
         (buf, idx, xval) \<leftarrow> write_TK v st;
         buf \<leftarrow> go_set buf 1 xval;
         Some (Inr idx, buf) }
       else do {
         buf \<leftarrow> go_set buf 0 (b AND NOT 0x80);
         Some (Inr 1, buf) } })"

definition Marshal :: "VP8 \<Rightarrow> (vp8_error + byte list) option" where
  "Marshal v = do {
     (res, buf) \<leftarrow> MarshalTo v (replicate 8 0);
     case res of
       Inl err \<Rightarrow> Some (Inl err)
     | Inr n \<Rightarrow> map_option Inr (go_slice buf 0 n) }"

section \<open>The size of a key frame\<close>

definition ExtractVP8VideoSize :: "VP8 \<Rightarrow> byte list \<Rightarrow> VideoSize option" where
  "ExtractVP8VideoSize v payload =
    (if \<not> vp_IsKeyFrame v \<or> int (length payload) < vp_HeaderSize v + 10 then Some \<lparr>Width = 0, Height = 0\<rparr>
     else if vp_HeaderSize v < 0 then None
     else do {
       p \<leftarrow> go_from payload (nat (vp_HeaderSize v));
       if length p < 10 then Some \<lparr>Width = 0, Height = 0\<rparr>
       else do {
         b3 \<leftarrow> go_at p 3;
         b4 \<leftarrow> go_at p 4;
         b5 \<leftarrow> go_at p 5;
         if b3 \<noteq> 0x9D \<or> b4 \<noteq> 0x01 \<or> b5 \<noteq> 0x2A then Some \<lparr>Width = 0, Height = 0\<rparr>
         else do {
           b6 \<leftarrow> go_at p 6;
           b7 \<leftarrow> go_at p 7;
           b8 \<leftarrow> go_at p 8;
           b9 \<leftarrow> go_at p 9;
           let width = (ucast b6 OR push_bit 8 (ucast b7) :: u32);
           let height = (ucast b8 OR push_bit 8 (ucast b9) :: u32);
           Some \<lparr>Width = width AND 0x3FFF, Height = height AND 0x3FFF\<rparr> } } })"

section \<open>The descriptor as bytes\<close>

definition pic_bytes :: "VP8 \<Rightarrow> byte list" where
  "pic_bytes v = (if vp_I v then
     if vp_M v then [0x80 OR ucast (drop_bit 8 (vp_PictureID v) AND 0x7f), ucast (vp_PictureID v AND 0xff)]
     else [ucast (vp_PictureID v)] else [])"

definition tl0_bytes :: "VP8 \<Rightarrow> byte list" where
  "tl0_bytes v = (if vp_L v then [vp_TL0PICIDX v] else [])"

definition tk_byte :: "VP8 \<Rightarrow> byte" where
  "tk_byte v = (if vp_T v then push_bit 6 (vp_TID v) OR (if vp_Y v then 0x20 else 0) else 0) OR
     (if vp_K v then vp_KEYIDX v AND 0x1f else 0)"

definition tk_bytes :: "VP8 \<Rightarrow> byte list" where
  "tk_bytes v = (if vp_T v \<or> vp_K v then [tk_byte v] else [])"

definition extended :: "VP8 \<Rightarrow> bool" where
  "extended v \<longleftrightarrow> vp_I v \<or> vp_L v \<or> vp_T v \<or> vp_K v"

definition x_byte :: "VP8 \<Rightarrow> byte" where
  "x_byte v = (((if vp_I v then 0x80 else 0) OR (if vp_L v then 0x40 else 0)) OR (if vp_T v then 0x20 else 0))
     OR (if vp_K v then 0x10 else 0)"

definition descriptor :: "VP8 \<Rightarrow> byte list" where
  "descriptor v = (if extended v
     then (vp_FirstByte v OR 0x80) # x_byte v # pic_bytes v @ tl0_bytes v @ tk_bytes v
     else [vp_FirstByte v AND NOT 0x80])"

lemma length_descriptor: "1 \<le> length (descriptor v)" "length (descriptor v) \<le> 6"
  by (simp_all add: descriptor_def pic_bytes_def tl0_bytes_def tk_bytes_def)

lemma go_set_at: "k < length rest \<Longrightarrow> i = length pre + k \<Longrightarrow> go_set (pre @ rest) i x = Some (pre @ rest[k := x])"
  by (simp add: list_update_append)

lemma write_PictureID_spec:
  "length (pic_bytes v) \<le> length rest \<Longrightarrow> write_PictureID v (pre @ rest, length pre, x) =
    Some ((pre @ pic_bytes v) @ drop (length (pic_bytes v)) rest, length (pre @ pic_bytes v), x OR (if vp_I v then 0x80 else 0))"
  by (cases rest rule: list.exhaust; cases "tl rest" rule: list.exhaust)
    (auto simp: write_PictureID_def pic_bytes_def Let_def list_update_append)

lemma write_TL0PICIDX_spec:
  "length (tl0_bytes v) \<le> length rest \<Longrightarrow> write_TL0PICIDX v (pre @ rest, length pre, x) =
    Some ((pre @ tl0_bytes v) @ drop (length (tl0_bytes v)) rest, length (pre @ tl0_bytes v), x OR (if vp_L v then 0x40 else 0))"
  by (cases rest) (auto simp: write_TL0PICIDX_def tl0_bytes_def Let_def list_update_append)

lemma write_TK_spec:
  "length (tk_bytes v) \<le> length rest \<Longrightarrow> write_TK v (pre @ rest, length pre, x) =
    Some ((pre @ tk_bytes v) @ drop (length (tk_bytes v)) rest, length (pre @ tk_bytes v),
      (x OR (if vp_T v then 0x20 else 0)) OR (if vp_K v then 0x10 else 0))"
  by (cases rest; cases "vp_T v"; cases "vp_K v"; cases "vp_Y v")
    (simp_all add: write_TK_def tk_bytes_def tk_byte_def Let_def list_update_append nth_append)

lemma MarshalTo_spec:
  assumes h: "vp_HeaderSize v \<le> int (length buf)" and l: "length (descriptor v) \<le> length buf"
  shows "MarshalTo v buf = Some (Inr (length (descriptor v)), descriptor v @ drop (length (descriptor v)) buf)"
proof (cases "extended v")
  case False
  then obtain b bs where buf: "buf = b # bs" using l by (cases buf) (auto simp: descriptor_def)
  show ?thesis using False h by (simp add: buf MarshalTo_def descriptor_def extended_def)
next
  case True
  then obtain b0 b1 rest where buf: "buf = b0 # b1 # rest"
    using l by (cases buf; cases "tl buf") (auto simp: descriptor_def)
  have lr: "length (pic_bytes v) + length (tl0_bytes v) + length (tk_bytes v) \<le> length rest"
    using l True by (simp add: buf descriptor_def)
  let ?pre = "[vp_FirstByte v OR 0x80, b1]"
  note W1 = write_PictureID_spec [of v rest ?pre 0]
  note W2 = write_TL0PICIDX_spec [of v "drop (length (pic_bytes v)) rest" "?pre @ pic_bytes v"]
  note W3 = write_TK_spec [of v "drop (length (tl0_bytes v)) (drop (length (pic_bytes v)) rest)" "(?pre @ pic_bytes v) @ tl0_bytes v"]
  have w: "do { st \<leftarrow> write_PictureID v ((vp_FirstByte v OR 0x80) # b1 # rest, 2, 0); st \<leftarrow> write_TL0PICIDX v st; write_TK v st } =
    Some (?pre @ pic_bytes v @ tl0_bytes v @ tk_bytes v @ drop (length (pic_bytes v) + length (tl0_bytes v) + length (tk_bytes v)) rest,
      2 + length (pic_bytes v) + length (tl0_bytes v) + length (tk_bytes v), x_byte v)"
    using W1 W2 W3 lr by (simp add: numeral_2_eq_2 x_byte_def add.commute add.left_commute)
  show ?thesis
    using True h w unfolding buf MarshalTo_def extended_def
    by (simp add: descriptor_def extended_def bind_assoc [symmetric] add.commute add.left_commute del: bind_assoc)
qed

lemma Marshal_spec:
  assumes "vp_HeaderSize v \<le> 8"
  shows "Marshal v = Some (Inr (descriptor v))"
  using MarshalTo_spec [of v "replicate 8 0"] length_descriptor [of v] assms by (simp add: Marshal_def)

section \<open>Parsing a descriptor\<close>

text \<open>
  A receiver as a successful \<open>Unmarshal\<close> of a fresh one leaves it: fields in range, absent fields zero,
  \<open>S\<close> and the extension bit as in the first byte, the size that of the descriptor.
\<close>

definition vp8_ok :: "VP8 \<Rightarrow> bool" where
  "vp8_ok v \<longleftrightarrow>
     (if vp_I v then if vp_M v then vp_PictureID v < 2 ^ 15 else vp_PictureID v < 2 ^ 7
      else \<not> vp_M v \<and> vp_PictureID v = 0) \<and>
     (vp_L v \<longrightarrow> vp_T v) \<and> (\<not> vp_L v \<longrightarrow> vp_TL0PICIDX v = 0) \<and>
     (if vp_T v then vp_TID v < 2 ^ 2 else vp_TID v = 0 \<and> \<not> vp_Y v) \<and>
     (if vp_K v then vp_KEYIDX v < 2 ^ 5 else vp_KEYIDX v = 0) \<and>
     vp_S v = bit (vp_FirstByte v) 4 \<and> extended v = bit (vp_FirstByte v) 7 \<and>
     vp_HeaderSize v = int (length (descriptor v))"

lemma bit_flags:
  "bit (128 :: int) n = (n = 7)" "bit (64 :: int) n = (n = 6)" "bit (32 :: int) n = (n = 5)" "bit (16 :: int) n = (n = 4)"
  "bit (- 129 :: int) n = (n \<noteq> 7)"
proof -
  have e: "(128 :: int) = 2 ^ 7" "(64 :: int) = 2 ^ 6" "(32 :: int) = 2 ^ 5" "(16 :: int) = 2 ^ 4" by simp_all
  show f: "bit (128 :: int) n = (n = 7)" "bit (64 :: int) n = (n = 6)" "bit (32 :: int) n = (n = 5)" "bit (16 :: int) n = (n = 4)"
    by (simp_all only: e bit_exp_iff) auto
  have "(- 129 :: int) = NOT 128" by simp
  then show "bit (- 129 :: int) n = (n \<noteq> 7)" using f(1) by (simp only: bit_not_iff) simp
qed

lemma byte_and_gt: "b AND 2 ^ n > (0 :: byte) \<longleftrightarrow> bit b n" if "n < 8"
proof -
  have "b AND 2 ^ n = 0 \<longleftrightarrow> \<not> bit b n" using and_push_bit_eq_0 [of b n] by (simp add: push_bit_eq_mult)
  then show ?thesis by (simp add: word_neq_0_conv [symmetric])
qed

lemma byte_tests:
  "(b AND 0x80 > (0 :: byte)) = bit b 7" "(b AND 0x40 > (0 :: byte)) = bit b 6" "(b AND 0x20 > (0 :: byte)) = bit b 5"
  "(b AND 0x10 > (0 :: byte)) = bit b 4"
  using byte_and_gt [of 7 b] byte_and_gt [of 6 b] byte_and_gt [of 5 b] byte_and_gt [of 4 b] by simp_all

lemma step_PictureID_spec:
  assumes p: "payload = pre @ pic_bytes w @ rest" and idx: "idx + 1 = length pre" and I: "vp_I v = vp_I w"
    and ok: "if vp_I w then if vp_M w then vp_PictureID w < 2 ^ 15 else vp_PictureID w < 2 ^ 7 else True"
  shows "step_PictureID payload v idx = Some (Inr
    (if vp_I w then v\<lparr>vp_M := vp_M w, vp_PictureID := vp_PictureID w\<rparr> else v, idx + length (pic_bytes w)))"
proof (cases "vp_I w")
  case False
  then show ?thesis using I by (simp add: step_PictureID_def pic_bytes_def)
next
  case True
  show ?thesis
  proof (cases "vp_M w")
    case m: True
    define hi where "hi = (0x80 OR ucast (drop_bit 8 (vp_PictureID w) AND 0x7f) :: byte)"
    define lo where "lo = (ucast (vp_PictureID w AND 0xff) :: byte)"
    have pl: "payload = pre @ hi # lo # rest" using p True m by (simp add: pic_bytes_def hi_def lo_def)
    have b7: "bit hi 7" by (simp add: hi_def bit_or_iff)
    have "vp_PictureID w < 2 ^ 15" using ok True m by simp
    note small = bit_less_exp [OF this]
    have "(ucast (be_val [hi AND 0x7f, lo]) :: u16) = vp_PictureID w"
    proof (rule bit_word_eqI)
      fix k assume "k < LENGTH(16)"
      have m7: "(0x7f :: 'a::len word) = mask 7" "(0xff :: 'a::len word) = mask 8" by (simp_all add: mask_eq_exp_minus_1)
      have h: "(0x80 :: byte) = 2 ^ 7" by simp
      show "bit (ucast (be_val [hi AND 0x7f, lo]) :: u16) k = bit (vp_PictureID w) k"
        using \<open>k < LENGTH(16)\<close> small [of k]
        unfolding be_val_def hi_def lo_def m7 h by (auto simp: bit_simps bit_flags)
    qed
    then show ?thesis
      using True m idx I b7 by (simp add: step_PictureID_def pl Let_def byte_tests nth_append pic_bytes_def)
  next
    case m: False
    have pl: "payload = pre @ ucast (vp_PictureID w) # rest" using p True m by (simp add: pic_bytes_def)
    have "vp_PictureID w < 2 ^ 7" using ok True m by simp
    note small = bit_less_exp [OF this]
    have "\<not> bit (ucast (vp_PictureID w) :: byte) 7" using small [of 7] by (auto simp: bit_simps)
    moreover have "(ucast (ucast (vp_PictureID w) AND 0x7f :: byte) :: u16) = vp_PictureID w"
    proof (rule bit_word_eqI)
      fix k assume "k < LENGTH(16)"
      have m7: "(0x7f :: byte) = mask 7" by (simp add: mask_eq_exp_minus_1)
      show "bit (ucast (ucast (vp_PictureID w) AND 0x7f :: byte) :: u16) k = bit (vp_PictureID w) k"
        using small [of k] unfolding m7 by (auto simp: bit_simps)
    qed
    ultimately show ?thesis
      using True m idx I by (simp add: step_PictureID_def pl Let_def byte_tests nth_append pic_bytes_def)
  qed
qed

lemma step_TL0PICIDX_spec:
  assumes p: "payload = pre @ tl0_bytes w @ rest" and idx: "idx + 1 = length pre" and L: "vp_L v = vp_L w"
  shows "step_TL0PICIDX payload v idx = Some (Inr
    (if vp_L w then v\<lparr>vp_TL0PICIDX := vp_TL0PICIDX w\<rparr> else v, idx + length (tl0_bytes w)))"
  using p idx L by (auto simp: step_TL0PICIDX_def tl0_bytes_def Let_def nth_append)

lemma tk_byte_fields:
  assumes "if vp_T w then vp_TID w < 2 ^ 2 else True" "if vp_K w then vp_KEYIDX w < 2 ^ 5 else True"
  shows "vp_T w \<Longrightarrow> drop_bit 6 (tk_byte w AND 0xc0) = vp_TID w" "vp_T w \<Longrightarrow> bit (tk_byte w) 5 = vp_Y w"
    "vp_K w \<Longrightarrow> tk_byte w AND 0x1f = vp_KEYIDX w"
proof -
  have c0: "(0xc0 :: byte) = push_bit 6 (mask 2)" "(0x1f :: byte) = mask 5"
    by (simp_all add: mask_eq_exp_minus_1)
  have t: "bit (vp_TID w) k \<Longrightarrow> k < 2" if "vp_T w" for k using assms(1) that bit_less_exp [of "vp_TID w" 2 k] by simp
  have q: "bit (vp_KEYIDX w) k \<Longrightarrow> k < 5" if "vp_K w" for k using assms(2) that bit_less_exp [of "vp_KEYIDX w" 5 k] by simp
  show "drop_bit 6 (tk_byte w AND 0xc0) = vp_TID w" if T: "vp_T w"
  proof (rule bit_word_eqI)
    fix k assume "k < LENGTH(8)"
    then show "bit (drop_bit 6 (tk_byte w AND 0xc0)) k = bit (vp_TID w) k"
      using t [OF T, of k] T unfolding tk_byte_def c0 by (auto simp: bit_simps bit_flags)
  qed
  show "bit (tk_byte w) 5 = vp_Y w" if T: "vp_T w"
    using T q [of 5] unfolding tk_byte_def c0 by (auto simp: bit_simps bit_flags)
  show "tk_byte w AND 0x1f = vp_KEYIDX w" if K: "vp_K w"
  proof (rule bit_word_eqI)
    fix k assume "k < LENGTH(8)"
    then show "bit (tk_byte w AND 0x1f) k = bit (vp_KEYIDX w) k"
      using q [OF K, of k] K unfolding tk_byte_def c0 by (auto simp: bit_simps bit_flags)
  qed
qed

lemma step_TK_spec:
  assumes p: "payload = pre @ tk_bytes w @ rest" and idx: "idx + 1 = length pre" and TK: "vp_T v = vp_T w" "vp_K v = vp_K w"
    and ok: "if vp_T w then vp_TID w < 2 ^ 2 else True" "if vp_K w then vp_KEYIDX w < 2 ^ 5 else True"
  shows "step_TK payload v idx = Some (Inr
    (let v = (if vp_T w then v\<lparr>vp_TID := vp_TID w, vp_Y := vp_Y w\<rparr> else v)
     in if vp_K w then v\<lparr>vp_KEYIDX := vp_KEYIDX w\<rparr> else v, idx + length (tk_bytes w)))"
proof (cases "vp_T w \<or> vp_K w")
  case False
  then show ?thesis using TK by (simp add: step_TK_def tk_bytes_def)
next
  case True
  then have pl: "payload = pre @ tk_byte w # rest" using p by (simp add: tk_bytes_def)
  show ?thesis
    using True idx TK tk_byte_fields [OF ok] by (auto simp: step_TK_def pl Let_def byte_tests nth_append tk_bytes_def)
qed

lemma x_byte_bits:
  "bit (x_byte v) 7 = vp_I v" "bit (x_byte v) 6 = vp_L v" "bit (x_byte v) 5 = vp_T v" "bit (x_byte v) 4 = vp_K v"
  by (auto simp: x_byte_def bit_or_iff bit_flags)

lemma FirstByte_or: "bit b 7 \<Longrightarrow> b OR 0x80 = (b :: byte)"
  by (rule bit_word_eqI) (auto simp: bit_or_iff bit_flags)

lemma FirstByte_and: "\<not> bit b 7 \<Longrightarrow> b AND NOT 0x80 = (b :: byte)"
  by (rule bit_word_eqI) (auto simp: bit_and_iff bit_not_iff bit_flags)

lemma Unmarshal_descriptor:
  assumes ok: "vp8_ok v"
  shows "Unmarshal zero_VP8 (Some (descriptor v @ b # rest)) = Some (None, v\<lparr>vp_IsKeyFrame := (b AND 1 = 0 \<and> vp_S v)\<rparr>)"
proof (cases "extended v")
  case False
  then have nb: "\<not> bit (vp_FirstByte v) 7" and s: "vp_S v = bit (vp_FirstByte v) 4" and h: "vp_HeaderSize v = 1"
    using ok by (auto simp: vp8_ok_def descriptor_def)
  have d: "descriptor v = [vp_FirstByte v]" using False FirstByte_and [OF nb] by (simp add: descriptor_def)
  have z: "\<not> vp_I v" "\<not> vp_L v" "\<not> vp_T v" "\<not> vp_K v" using False by (auto simp: extended_def)
  then have "\<not> vp_M v" "vp_PictureID v = 0" "vp_TL0PICIDX v = 0" "vp_TID v = 0" "\<not> vp_Y v" "vp_KEYIDX v = 0"
    using ok by (auto simp: vp8_ok_def)
  then have "v\<lparr>vp_IsKeyFrame := x\<rparr> = zero_VP8\<lparr>vp_FirstByte := vp_FirstByte v, vp_S := vp_S v, vp_IsKeyFrame := x, vp_HeaderSize := 1\<rparr>" for x
    using z h by (intro VP8.equality) (simp_all add: zero_VP8_def)
  then show ?thesis using nb s by (simp add: d Unmarshal_def byte_tests step_last_def Let_def)
next
  case True
  then have fb: "bit (vp_FirstByte v) 7" and s: "vp_S v = bit (vp_FirstByte v) 4" and LT: "vp_L v \<longrightarrow> vp_T v"
    and h: "vp_HeaderSize v = int (length (descriptor v))"
    and okp: "if vp_I v then if vp_M v then vp_PictureID v < 2 ^ 15 else vp_PictureID v < 2 ^ 7 else True"
    and okt: "if vp_T v then vp_TID v < 2 ^ 2 else True" and okk: "if vp_K v then vp_KEYIDX v < 2 ^ 5 else True"
    using ok by (auto simp: vp8_ok_def split: if_splits)
  let ?p = "descriptor v @ b # rest"
  have p: "?p = vp_FirstByte v # x_byte v # pic_bytes v @ tl0_bytes v @ tk_bytes v @ b # rest"
    using True FirstByte_or [OF fb] by (simp add: descriptor_def)
  let ?v0 = "zero_VP8\<lparr>vp_FirstByte := vp_FirstByte v, vp_S := vp_S v, vp_I := vp_I v, vp_L := vp_L v, vp_T := vp_T v, vp_K := vp_K v\<rparr>"
  let ?v1 = "if vp_I v then ?v0\<lparr>vp_M := vp_M v, vp_PictureID := vp_PictureID v\<rparr> else ?v0"
  let ?v2 = "if vp_L v then ?v1\<lparr>vp_TL0PICIDX := vp_TL0PICIDX v\<rparr> else ?v1"
  let ?v3 = "let v' = (if vp_T v then ?v2\<lparr>vp_TID := vp_TID v, vp_Y := vp_Y v\<rparr> else ?v2)
     in if vp_K v then v'\<lparr>vp_KEYIDX := vp_KEYIDX v\<rparr> else v'"
  have s1: "step_PictureID ?p ?v0 1 = Some (Inr (?v1, 1 + length (pic_bytes v)))"
    using step_PictureID_spec [OF _ _ _ okp, of ?p "[vp_FirstByte v, x_byte v]" "tl0_bytes v @ tk_bytes v @ b # rest" 1 ?v0] p by simp
  have s2: "step_TL0PICIDX ?p ?v1 (1 + length (pic_bytes v)) = Some (Inr (?v2, 1 + length (pic_bytes v) + length (tl0_bytes v)))"
    using step_TL0PICIDX_spec [of ?p "[vp_FirstByte v, x_byte v] @ pic_bytes v" v "tk_bytes v @ b # rest" "1 + length (pic_bytes v)" ?v1] p by simp
  have s3: "step_TK ?p ?v2 (1 + length (pic_bytes v) + length (tl0_bytes v)) =
      Some (Inr (?v3, 1 + length (pic_bytes v) + length (tl0_bytes v) + length (tk_bytes v)))"
    using step_TK_spec [OF _ _ _ _ okt okk, of ?p "[vp_FirstByte v, x_byte v] @ pic_bytes v @ tl0_bytes v" "b # rest"
        "1 + length (pic_bytes v) + length (tl0_bytes v)" ?v2] p by simp
  have v3: "?v3 = v\<lparr>vp_HeaderSize := 0, vp_IsKeyFrame := False\<rparr>"
    using ok by (intro VP8.equality) (auto simp: vp8_ok_def zero_VP8_def Let_def split: if_splits)
  have st: "then_step (then_step (step_PictureID ?p ?v0 1) (step_TL0PICIDX ?p)) (step_TK ?p) =
      Some (Inr (v\<lparr>vp_HeaderSize := 0, vp_IsKeyFrame := False\<rparr>, 1 + length (pic_bytes v) + length (tl0_bytes v) + length (tk_bytes v)))"
    unfolding then_step_def s1 by (simp only: Option.bind.bind_lunit sum.case prod.case s2 s3 v3)
  have hs: "length (descriptor v) = 2 + length (pic_bytes v) + length (tl0_bytes v) + length (tk_bytes v)"
    using True by (simp add: descriptor_def)
  have last: "step_last ?p (v\<lparr>vp_HeaderSize := 0, vp_IsKeyFrame := False\<rparr>) (1 + length (pic_bytes v) + length (tl0_bytes v) + length (tk_bytes v)) =
      Some (None, v\<lparr>vp_IsKeyFrame := (b AND 1 = 0 \<and> vp_S v)\<rparr>)"
    using hs h by (simp add: step_last_def Let_def nth_append)
  have "Unmarshal zero_VP8 (Some ?p) = (do {
      r \<leftarrow> then_step (then_step (step_PictureID ?p ?v0 1) (step_TL0PICIDX ?p)) (step_TK ?p);
      case r of Inl (err, v) \<Rightarrow> Some (Some err, v) | Inr (v, idx) \<Rightarrow> step_last ?p v idx })"
    using fb s LT unfolding p by (cases "vp_L v") (simp_all add: Unmarshal_def byte_tests x_byte_bits Let_def zero_VP8_def)
  then show ?thesis unfolding st using last by simp
qed

section \<open>Every payload\<close>

lemma step_PictureID_total:
  "(\<exists>v'. step_PictureID p v idx = Some (Inl (errShortPacket, v'))) \<or>
   (\<not> vp_I v \<and> step_PictureID p v idx = Some (Inr (v, idx))) \<or>
   (vp_I v \<and> (\<exists>m pid. pid < (if m then 2 ^ 15 else 2 ^ 7) \<and>
     step_PictureID p v idx = Some (Inr (v\<lparr>vp_M := m, vp_PictureID := pid\<rparr>, idx + (if m then 2 else 1)))))"
proof (cases "\<not> vp_I v \<or> length p \<le> Suc idx")
  case True
  then show ?thesis by (cases "vp_I v") (simp_all add: step_PictureID_def Let_def)
next
  case False
  define x where "x = p ! Suc idx"
  have m7: "(0x7f :: byte) = mask 7" by (simp add: mask_eq_exp_minus_1)
  have n7: "(ucast (x AND 0x7f) :: u16) < 2 ^ 7"
    unfolding m7 by (rule bits_less_exp) (auto simp: bit_simps)
  have n15: "(ucast (be_val [x AND 0x7f, y]) :: u16) < 2 ^ 15" for y
  proof (rule bits_less_exp)
    fix k assume "bit (ucast (be_val [x AND 0x7f, y]) :: u16) k"
    then have "bit (push_bit 8 (ucast (x AND mask 7)) OR ucast y :: u64) k" by (simp add: be_val_def m7 bit_simps) auto
    then have "bit (push_bit 8 (ucast (x AND mask 7)) :: u64) k \<or> bit (ucast y :: u64) k" by (simp only: bit_or_iff)
    then show "k < 15" by (auto simp: bit_push_bit_iff bit_unsigned_iff bit_and_iff bit_mask_iff dest: bit_imp_le_length)
  qed simp
  show ?thesis
  proof (cases "bit x 7")
    case b: False
    then have "step_PictureID p v idx = Some (Inr (v\<lparr>vp_M := False, vp_PictureID := ucast (x AND 0x7f)\<rparr>, idx + 1))"
      using False by (simp add: step_PictureID_def Let_def byte_tests x_def)
    moreover have "vp_I v" using False by simp
    ultimately show ?thesis
      by (intro disjI2 conjI exI [of _ False] exI [of _ "ucast (x AND 0x7f)"]) (simp_all only: if_False n7)
  next
    case b: True
    show ?thesis
    proof (cases "length p \<le> Suc (Suc idx)")
      case True
      then show ?thesis using False b by (simp add: step_PictureID_def Let_def byte_tests x_def)
    next
      case l: False
      then have "step_PictureID p v idx =
          Some (Inr (v\<lparr>vp_M := True, vp_PictureID := ucast (be_val [x AND 0x7f, p ! Suc (Suc idx)])\<rparr>, idx + 2))"
        using False b by (simp add: step_PictureID_def Let_def byte_tests x_def)
      moreover have "vp_I v" using False by simp
      ultimately show ?thesis
        by (intro disjI2 conjI exI [of _ True] exI [of _ "ucast (be_val [x AND 0x7f, p ! Suc (Suc idx)])"]) (simp_all only: if_True n15)
    qed
  qed
qed

text \<open>What the optional fields fill in when the flags announce them.\<close>

definition with_pic :: "bool \<Rightarrow> u16 \<Rightarrow> VP8 \<Rightarrow> VP8" where
  "with_pic m pid v = (if vp_I v then v\<lparr>vp_M := m, vp_PictureID := pid\<rparr> else v)"

definition with_tl0 :: "byte \<Rightarrow> VP8 \<Rightarrow> VP8" where
  "with_tl0 t v = (if vp_L v then v\<lparr>vp_TL0PICIDX := t\<rparr> else v)"

definition with_tk :: "byte \<Rightarrow> bool \<Rightarrow> byte \<Rightarrow> VP8 \<Rightarrow> VP8" where
  "with_tk tid y k v = (let v = (if vp_T v then v\<lparr>vp_TID := tid, vp_Y := y\<rparr> else v) in if vp_K v then v\<lparr>vp_KEYIDX := k\<rparr> else v)"

lemma step_PictureID_cases:
  "(\<exists>v'. step_PictureID p v idx = Some (Inl (errShortPacket, v'))) \<or>
   (\<exists>m pid. pid < (if m then 2 ^ 15 else 2 ^ 7) \<and>
     step_PictureID p v idx = Some (Inr (with_pic m pid v, idx + length (pic_bytes (with_pic m pid v)))))"
  using step_PictureID_total [of p v idx]
proof (elim disjE exE conjE)
  assume "\<not> vp_I v" "step_PictureID p v idx = Some (Inr (v, idx))"
  then show ?thesis
    by (intro disjI2 exI [of _ False] exI [of _ "0 :: u16"]) (simp add: with_pic_def pic_bytes_def)
next
  fix m pid
  assume "vp_I v" and b: "pid < (if m then 2 ^ 15 else 2 ^ 7 :: u16)"
    and s: "step_PictureID p v idx = Some (Inr (v\<lparr>vp_M := m, vp_PictureID := pid\<rparr>, idx + (if m then 2 else 1)))"
  then show ?thesis
    by (intro disjI2 exI [of _ m] exI [of _ pid] conjI b) (simp add: with_pic_def pic_bytes_def)
qed blast

lemma step_TL0PICIDX_cases:
  "(\<exists>v'. step_TL0PICIDX p v idx = Some (Inl (errShortPacket, v'))) \<or>
   (\<exists>t. step_TL0PICIDX p v idx = Some (Inr (with_tl0 t v, idx + length (tl0_bytes (with_tl0 t v)))))"
  by (cases "length p \<le> Suc idx"; cases "vp_L v") (auto simp: step_TL0PICIDX_def with_tl0_def tl0_bytes_def Let_def)

lemma step_TK_cases:
  "(\<exists>v'. step_TK p v idx = Some (Inl (errShortPacket, v'))) \<or>
   (\<exists>tid y k. tid < 2 ^ 2 \<and> k < 2 ^ 5 \<and>
      step_TK p v idx = Some (Inr (with_tk tid y k v, idx + length (tk_bytes (with_tk tid y k v)))))"
proof (cases "(vp_T v \<or> vp_K v) \<and> length p \<le> Suc idx")
  case True
  then show ?thesis by (simp add: step_TK_def Let_def)
next
  case False
  define b where "b = p ! Suc idx"
  have m: "(0xc0 :: byte) = push_bit 6 (mask 2)" "(0x1f :: byte) = mask 5" by (simp_all add: mask_eq_exp_minus_1)
  have "drop_bit 6 (b AND 0xc0) < 2 ^ 2" unfolding m by (rule bits_less_exp) (auto simp: bit_simps)
  moreover have "b AND 0x1f < 2 ^ 5" unfolding m by (rule bits_less_exp) (auto simp: bit_simps)
  moreover have "step_TK p v idx = (let w = with_tk (drop_bit 6 (b AND 0xc0)) (b AND 0x20 > 0) (b AND 0x1f) v in
      Some (Inr (w, idx + length (tk_bytes w))))"
    using False by (auto simp: step_TK_def Let_def b_def with_tk_def tk_bytes_def)
  ultimately show ?thesis unfolding Let_def by blast
qed

lemma step_last_total:
  "step_last p v idx = (if length p \<le> Suc idx then Some (Some errShortPacket, v)
     else Some (None, v\<lparr>vp_IsKeyFrame := (p ! Suc idx AND 1 = 0 \<and> vp_S v), vp_HeaderSize := int (Suc idx)\<rparr>))"
  by (simp add: step_last_def Let_def)

lemma with_lengths [simp]:
  "length (pic_bytes (with_tl0 t v)) = length (pic_bytes v)" "length (pic_bytes (with_tk tid y k v)) = length (pic_bytes v)"
  "length (tl0_bytes (with_tk tid y k v)) = length (tl0_bytes v)"
  by (simp_all add: with_tl0_def with_tk_def pic_bytes_def tl0_bytes_def Let_def)

text \<open>The three optional fields together.\<close>

lemma steps_cases:
  fixes p v
  defines "run \<equiv> then_step (then_step (step_PictureID p v 1) (step_TL0PICIDX p)) (step_TK p)"
  shows "(\<exists>v'. run = Some (Inl (errShortPacket, v'))) \<or>
   (\<exists>m pid t tid y k. pid < (if m then 2 ^ 15 else 2 ^ 7) \<and> tid < 2 ^ 2 \<and> k < 2 ^ 5 \<and>
     (let w = with_tk tid y k (with_tl0 t (with_pic m pid v)) in
      run = Some (Inr (w, 1 + length (pic_bytes w) + length (tl0_bytes w) + length (tk_bytes w)))))"
  using step_PictureID_cases [of p v 1]
proof (elim disjE exE conjE)
  fix v' assume "step_PictureID p v 1 = Some (Inl (errShortPacket, v'))"
  then show ?thesis by (simp add: run_def then_step_def)
next
  fix m pid
  let ?w = "with_pic m pid v"
  assume pid: "pid < (if m then 2 ^ 15 else 2 ^ 7 :: u16)"
    and s1: "step_PictureID p v 1 = Some (Inr (?w, 1 + length (pic_bytes ?w)))"
  show ?thesis using step_TL0PICIDX_cases [of p ?w "1 + length (pic_bytes ?w)"]
  proof (elim disjE exE conjE)
    fix v' assume "step_TL0PICIDX p ?w (1 + length (pic_bytes ?w)) = Some (Inl (errShortPacket, v'))"
    then show ?thesis using s1 by (simp add: run_def then_step_def)
  next
    fix t
    let ?w2 = "with_tl0 t ?w" let ?i2 = "1 + length (pic_bytes ?w) + length (tl0_bytes ?w2)"
    assume s2: "step_TL0PICIDX p ?w (1 + length (pic_bytes ?w)) = Some (Inr (?w2, ?i2))"
    show ?thesis using step_TK_cases [of p ?w2 ?i2]
    proof (elim disjE exE conjE)
      fix v' assume "step_TK p ?w2 ?i2 = Some (Inl (errShortPacket, v'))"
      then show ?thesis using s1 s2 by (simp add: run_def then_step_def)
    next
      fix tid y k
      let ?w3 = "with_tk tid y k ?w2"
      assume b: "tid < 2 ^ 2" "k < 2 ^ 5" and "step_TK p ?w2 ?i2 = Some (Inr (?w3, ?i2 + length (tk_bytes ?w3)))"
      then have "run = Some (Inr (?w3, 1 + length (pic_bytes ?w3) + length (tl0_bytes ?w3) + length (tk_bytes ?w3)))"
        using s1 s2 by (simp add: run_def then_step_def)
      then show ?thesis using pid b unfolding Let_def by blast
    qed
  qed
qed

lemma Unmarshal_extended:
  assumes "bit (hd p) 7" "p \<noteq> []"
  shows "Unmarshal v (Some p) =
    (if length p < 2 then Some (Some errShortPacket, v\<lparr>vp_FirstByte := hd p, vp_S := bit (hd p) 4\<rparr>)
     else let w = v\<lparr>vp_FirstByte := hd p, vp_S := bit (hd p) 4, vp_I := bit (p ! 1) 7, vp_L := bit (p ! 1) 6,
           vp_T := bit (p ! 1) 5, vp_K := bit (p ! 1) 4\<rparr>
       in if vp_L w \<and> \<not> vp_T w then Some (Some errInvalidPacket, w)
       else do {
         r \<leftarrow> then_step (then_step (step_PictureID p w 1) (step_TL0PICIDX p)) (step_TK p);
         case r of Inl (err, v) \<Rightarrow> Some (Some err, v) | Inr (v, idx) \<Rightarrow> step_last p v idx })"
  using assms by (simp add: Unmarshal_def byte_tests Let_def hd_conv_nth)

lemma Unmarshal_plain:
  assumes "\<not> bit (hd p) 7" "p \<noteq> []"
  shows "Unmarshal v (Some p) = step_last p (v\<lparr>vp_FirstByte := hd p, vp_S := bit (hd p) 4\<rparr>) 0"
  using assms by (simp add: Unmarshal_def byte_tests hd_conv_nth)

lemma Unmarshal_shape:
  fixes v p
  assumes e: "bit (hd p) 7" "2 \<le> length p"
  defines "w0 \<equiv> v\<lparr>vp_FirstByte := hd p, vp_S := bit (hd p) 4, vp_I := bit (p ! 1) 7, vp_L := bit (p ! 1) 6,
           vp_T := bit (p ! 1) 5, vp_K := bit (p ! 1) 4\<rparr>"
  assumes lt: "vp_L w0 \<longrightarrow> vp_T w0"
  shows "(\<exists>v'. Unmarshal v (Some p) = Some (Some errShortPacket, v')) \<or>
    (\<exists>m pid t tid y k w n. pid < (if m then 2 ^ 15 else 2 ^ 7) \<and> tid < 2 ^ 2 \<and> k < 2 ^ 5 \<and>
      w = with_tk tid y k (with_tl0 t (with_pic m pid w0)) \<and>
      n = 2 + length (pic_bytes w) + length (tl0_bytes w) + length (tk_bytes w) \<and> n < length p \<and>
      Unmarshal v (Some p) = Some (None, w\<lparr>vp_IsKeyFrame := (p ! n AND 1 = 0 \<and> vp_S w), vp_HeaderSize := int n\<rparr>))"
proof -
  have U: "Unmarshal v (Some p) = do {
         r \<leftarrow> then_step (then_step (step_PictureID p w0 1) (step_TL0PICIDX p)) (step_TK p);
         case r of Inl (err, v) \<Rightarrow> Some (Some err, v) | Inr (v, idx) \<Rightarrow> step_last p v idx }"
  proof -
    have ne: "p \<noteq> []" "\<not> length p < 2" "\<not> (vp_L w0 \<and> \<not> vp_T w0)" using e lt by auto
    show ?thesis unfolding Unmarshal_extended [OF e(1) ne(1)] Let_def w0_def [symmetric] by (simp only: ne if_False)
  qed
  from steps_cases [of p w0] consider v' where
      "then_step (then_step (step_PictureID p w0 1) (step_TL0PICIDX p)) (step_TK p) = Some (Inl (errShortPacket, v'))"
    | m pid t tid y k where "pid < (if m then 2 ^ 15 else 2 ^ 7 :: u16)" "tid < 2 ^ 2" "k < 2 ^ 5"
      "let w = with_tk tid y k (with_tl0 t (with_pic m pid w0)) in
        then_step (then_step (step_PictureID p w0 1) (step_TL0PICIDX p)) (step_TK p) =
        Some (Inr (w, 1 + length (pic_bytes w) + length (tl0_bytes w) + length (tk_bytes w)))"
    by blast
  then show ?thesis
  proof cases
    case 1
    then show ?thesis by (simp add: U)
  next
    case 2
    define w where "w = with_tk tid y k (with_tl0 t (with_pic m pid w0))"
    let ?n = "2 + length (pic_bytes w) + length (tl0_bytes w) + length (tk_bytes w)"
    have r: "Unmarshal v (Some p) = step_last p w (?n - 1)"
      using 2(4) unfolding U w_def [symmetric] by (simp add: Let_def)
    show ?thesis
    proof (cases "?n < length p")
      case False
      then show ?thesis using r by (simp add: step_last_total)
    next
      case True
      then have "Unmarshal v (Some p) = Some (None, w\<lparr>vp_IsKeyFrame := (p ! ?n AND 1 = 0 \<and> vp_S w), vp_HeaderSize := int ?n\<rparr>)"
        using r by (simp add: step_last_total)
      then show ?thesis using 2(1-3) True w_def by blast
    qed
  qed
qed

lemma shape_bounds:
  "length (pic_bytes w) + length (tl0_bytes w) + length (tk_bytes w) \<le> 4"
  "vp_S (with_tk tid y k (with_tl0 t (with_pic m pid w))) = vp_S w"
  by (simp_all add: pic_bytes_def tl0_bytes_def tk_bytes_def with_tk_def with_tl0_def with_pic_def Let_def)

lemma Unmarshal_total:
  "\<exists>err v'. Unmarshal v payload = Some (err, v') \<and> (err = Some errNilPacket) = (payload = None) \<and>
    (err = Some errInvalidPacket) = (\<exists>p. payload = Some p \<and> 2 \<le> length p \<and> bit (hd p) 7 \<and> bit (p ! 1) 6 \<and> \<not> bit (p ! 1) 5) \<and>
    (err = None \<longrightarrow> (\<exists>p. payload = Some p \<and> 1 \<le> vp_HeaderSize v' \<and> vp_HeaderSize v' \<le> 6 \<and> vp_HeaderSize v' < int (length p) \<and>
      vp_S v' = bit (hd p) 4 \<and> vp_IsKeyFrame v' = (vp_S v' \<and> p ! nat (vp_HeaderSize v') AND 1 = 0)))"
proof (cases payload)
  case None
  then show ?thesis by (simp add: Unmarshal_def)
next
  case (Some p)
  consider "p = []" | "p \<noteq> []" "\<not> bit (hd p) 7" | "p \<noteq> []" "length p < 2" "bit (hd p) 7"
    | "2 \<le> length p" "bit (hd p) 7" "bit (p ! 1) 6" "\<not> bit (p ! 1) 5"
    | "2 \<le> length p" "bit (hd p) 7" "bit (p ! 1) 6 \<longrightarrow> bit (p ! 1) 5"
    by linarith
  then show ?thesis
  proof cases
    case 1
    then show ?thesis by (simp add: Some Unmarshal_def)
  next
    case 2
    then show ?thesis by (auto simp: Some Unmarshal_plain step_last_total)
  next
    case 3
    then show ?thesis by (simp add: Some Unmarshal_extended)
  next
    case 4
    then have "p \<noteq> []" by auto
    then show ?thesis using 4 by (simp add: Some Unmarshal_extended Let_def)
  next
    case 5
    let ?w0 = "v\<lparr>vp_FirstByte := hd p, vp_S := bit (hd p) 4, vp_I := bit (p ! 1) 7, vp_L := bit (p ! 1) 6,
           vp_T := bit (p ! 1) 5, vp_K := bit (p ! 1) 4\<rparr>"
    have "vp_L ?w0 \<longrightarrow> vp_T ?w0" using 5(3) by simp
    from Unmarshal_shape [OF 5(2,1) this]
    consider v' where "Unmarshal v (Some p) = Some (Some errShortPacket, v')"
      | m pid t tid y k w n where "w = with_tk tid y k (with_tl0 t (with_pic m pid ?w0))"
        "n = 2 + length (pic_bytes w) + length (tl0_bytes w) + length (tk_bytes w)" "n < length p"
        "Unmarshal v (Some p) = Some (None, w\<lparr>vp_IsKeyFrame := (p ! n AND 1 = 0 \<and> vp_S w), vp_HeaderSize := int n\<rparr>)"
      by blast
    then show ?thesis
    proof cases
      case 1
      then show ?thesis using 5(3) by (simp add: Some)
    next
      case 2
      have "vp_S w = bit (hd p) 4" unfolding 2(1) shape_bounds by simp
      moreover have "2 \<le> n" "n \<le> 6" using shape_bounds(1) [of w] 2(2) by linarith+
      ultimately show ?thesis using 2(3,4) 5(3) by (auto simp: Some)
    qed
  qed
qed

lemma zero_with:
  "pid < (if m then 2 ^ 15 else 2 ^ 7) \<Longrightarrow> tid < 2 ^ 2 \<Longrightarrow> k < 2 ^ 5 \<Longrightarrow> (L \<longrightarrow> T) \<Longrightarrow>
   w = with_tk tid y k (with_tl0 t (with_pic m pid
     (zero_VP8\<lparr>vp_FirstByte := b, vp_S := bit b 4, vp_I := I, vp_L := L, vp_T := T, vp_K := K\<rparr>))) \<Longrightarrow>
   I \<or> L \<or> T \<or> K \<Longrightarrow> bit b 7 \<Longrightarrow>
   n = 2 + length (pic_bytes w) + length (tl0_bytes w) + length (tk_bytes w) \<Longrightarrow>
   vp8_ok (w\<lparr>vp_IsKeyFrame := kf, vp_HeaderSize := int n\<rparr>)"
  by (cases I; cases L; cases T; cases K; cases m)
    (simp_all add: vp8_ok_def with_tk_def with_tl0_def with_pic_def zero_VP8_def Let_def extended_def descriptor_def
       pic_bytes_def tl0_bytes_def tk_bytes_def)

lemma Unmarshal_ok:
  assumes U: "Unmarshal zero_VP8 (Some p) = Some (None, v)" and x: "bit (hd p) 7 \<longrightarrow> extended v"
  shows "vp8_ok v"
proof (cases "p \<noteq> [] \<and> bit (hd p) 7")
  case False
  then consider "p = []" | "p \<noteq> []" "\<not> bit (hd p) 7" by blast
  then show ?thesis
  proof cases
    case 1
    then show ?thesis using U by (simp add: Unmarshal_def)
  next
    case 2
    then show ?thesis using U
      by (auto simp: Unmarshal_plain step_last_total vp8_ok_def extended_def descriptor_def zero_VP8_def split: if_splits)
  qed
next
  case True
  have l: "2 \<le> length p" using U True by (auto simp: Unmarshal_extended split: if_splits)
  let ?w0 = "zero_VP8\<lparr>vp_FirstByte := hd p, vp_S := bit (hd p) 4, vp_I := bit (p ! 1) 7, vp_L := bit (p ! 1) 6,
           vp_T := bit (p ! 1) 5, vp_K := bit (p ! 1) 4\<rparr>"
  have LT: "bit (p ! 1) 6 \<longrightarrow> bit (p ! 1) 5" using U True l by (auto simp: Unmarshal_extended Let_def split: if_splits)
  then have "vp_L ?w0 \<longrightarrow> vp_T ?w0" by simp
  from Unmarshal_shape [OF conjunct2 [OF True] l this] U
  obtain m pid t tid y k w n where b: "pid < (if m then 2 ^ 15 else 2 ^ 7 :: u16)" "tid < 2 ^ 2" "k < 2 ^ 5"
    and w: "w = with_tk tid y k (with_tl0 t (with_pic m pid ?w0))"
    and n: "n = 2 + length (pic_bytes w) + length (tl0_bytes w) + length (tk_bytes w)"
    and r: "Unmarshal zero_VP8 (Some p) = Some (None, w\<lparr>vp_IsKeyFrame := (p ! n AND 1 = 0 \<and> vp_S w), vp_HeaderSize := int n\<rparr>)"
    by (elim disjE exE conjE) (simp, blast)
  have v: "v = w\<lparr>vp_IsKeyFrame := (p ! n AND 1 = 0 \<and> vp_S w), vp_HeaderSize := int n\<rparr>" using U r by simp
  have "extended v = (bit (p ! 1) 7 \<or> bit (p ! 1) 6 \<or> bit (p ! 1) 5 \<or> bit (p ! 1) 4)"
    unfolding v w extended_def by (simp add: with_tk_def with_tl0_def with_pic_def Let_def)
  then show ?thesis using x True unfolding v by (intro zero_with [OF b LT w _ _ n]) simp_all
qed

section \<open>The size of a frame\<close>

lemma go_from_append: "go_from (xs @ ys) (length xs) = Some ys"
  by simp

definition le16 :: "u16 \<Rightarrow> byte list" where
  "le16 x = [ucast x, ucast (drop_bit 8 x)]"

lemma le16_val: "(ucast (ucast x :: byte) OR push_bit 8 (ucast (ucast (drop_bit 8 x) :: byte)) :: u32) = ucast (x :: u16)"
proof (rule bit_word_eqI)
  fix n assume n: "n < LENGTH(32)"
  have "bit x n \<Longrightarrow> n < 16" using bit_imp_le_length [of x n] by simp
  then show "bit (ucast (ucast x :: byte) OR push_bit 8 (ucast (ucast (drop_bit 8 x) :: byte)) :: u32) n = bit (ucast x :: u32) n"
    using n by (auto simp: bit_simps)
qed

lemma ExtractVP8VideoSize_total:
  assumes "0 \<le> vp_HeaderSize v"
  shows "\<exists>sz. ExtractVP8VideoSize v payload = Some sz \<and> Width sz < 2 ^ 14 \<and> Height sz < 2 ^ 14"
proof -
  have m: "(0x3FFF :: u32) = mask 14" by (simp add: mask_eq_exp_minus_1)
  have b: "x AND 0x3FFF < (2 ^ 14 :: u32)" for x unfolding m by (rule bits_less_exp) (auto simp: bit_simps)
  define n where "n = nat (vp_HeaderSize v)"
  have n: "vp_HeaderSize v = int n" using assms by (simp add: n_def)
  show ?thesis
    using b by (cases "vp_IsKeyFrame v \<and> n + 10 \<le> length payload")
      (auto simp: ExtractVP8VideoSize_def n Let_def)
qed

lemma ExtractVP8VideoSize_frame:
  assumes "vp_HeaderSize v = int (length d)" "vp_IsKeyFrame v"
  shows "ExtractVP8VideoSize v (d @ [b0, b1, b2, 0x9D, 0x01, 0x2A] @ le16 w @ le16 h @ rest) =
    Some \<lparr>Width = ucast w AND 0x3FFF, Height = ucast h AND 0x3FFF\<rparr>"
  using assms le16_val [of w] le16_val [of h] by (simp add: ExtractVP8VideoSize_def Let_def le16_def)


section \<open>Properties\<close>

text \<open>
  C16. Round trip: a descriptor with its fields in range is marshalled to exactly its header size, and
  parsing these bytes in front of any payload gives every field back, the key frame flag read off the
  payload.
\<close>

theorem vp8_round_trip:
  assumes "vp8_ok v"
  shows "\<exists>bs. Marshal v = Some (Inr bs) \<and> int (length bs) = vp_HeaderSize v \<and>
    Unmarshal zero_VP8 (Some (bs @ b # rest)) = Some (None, v\<lparr>vp_IsKeyFrame := (b AND 1 = 0 \<and> vp_S v)\<rparr>)"
proof -
  have h: "vp_HeaderSize v = int (length (descriptor v))" using assms by (simp add: vp8_ok_def)
  then have "vp_HeaderSize v \<le> 8" using length_descriptor [of v] by simp
  then show ?thesis using Marshal_spec Unmarshal_descriptor [OF assms] h by auto
qed

text \<open>
  Every payload, and a nil one, is parsed without a panic, whatever the receiver held before. The packet is
  invalid exactly when it announces a temporal index without a temporal layer; on success the header is 1 to 6
  bytes long with a payload byte after it, which decides about a key frame, and taking the video size from the
  packet does not panic and gives 14-bit sizes.
\<close>

theorem vp8_total:
  "\<exists>err v'. Unmarshal v payload = Some (err, v') \<and>
    (err = Some errNilPacket) = (payload = None) \<and>
    (err = Some errInvalidPacket) = (\<exists>p. payload = Some p \<and> 2 \<le> length p \<and> bit (hd p) 7 \<and> bit (p ! 1) 6 \<and> \<not> bit (p ! 1) 5) \<and>
    (err = None \<longrightarrow> (\<exists>p sz. payload = Some p \<and> 1 \<le> vp_HeaderSize v' \<and> vp_HeaderSize v' \<le> 6 \<and> vp_HeaderSize v' < int (length p) \<and>
      vp_S v' = bit (hd p) 4 \<and> vp_IsKeyFrame v' = (vp_S v' \<and> p ! nat (vp_HeaderSize v') AND 1 = 0) \<and>
      ExtractVP8VideoSize v' p = Some sz \<and> Width sz < 2 ^ 14 \<and> Height sz < 2 ^ 14))"
  using Unmarshal_total [of v payload]
proof (elim exE conjE)
  fix err v'
  assume u: "Unmarshal v payload = Some (err, v')" "(err = Some errNilPacket) = (payload = None)"
    "(err = Some errInvalidPacket) = (\<exists>p. payload = Some p \<and> 2 \<le> length p \<and> bit (hd p) 7 \<and> bit (p ! 1) 6 \<and> \<not> bit (p ! 1) 5)"
    and ok: "err = None \<longrightarrow> (\<exists>p. payload = Some p \<and> 1 \<le> vp_HeaderSize v' \<and> vp_HeaderSize v' \<le> 6 \<and> vp_HeaderSize v' < int (length p) \<and>
      vp_S v' = bit (hd p) 4 \<and> vp_IsKeyFrame v' = (vp_S v' \<and> p ! nat (vp_HeaderSize v') AND 1 = 0))"
  have size: "\<exists>sz. ExtractVP8VideoSize v' p = Some sz \<and> Width sz < 2 ^ 14 \<and> Height sz < 2 ^ 14" if "1 \<le> vp_HeaderSize v'" for p
    using that by (intro ExtractVP8VideoSize_total) linarith
  show ?thesis by (rule exI, rule exI, intro conjI, rule u, rule u, rule u) (use ok size in metis)
qed

text \<open>
  Re-encoding: marshalling what was parsed from any payload (unless it sets the extension bit and
  announces nothing) gives as many bytes as were read, and in their place they parse to the same result.
\<close>

theorem vp8_reencode:
  assumes "Unmarshal zero_VP8 (Some p) = Some (None, v)" "bit (hd p) 7 \<longrightarrow> extended v"
  shows "\<exists>bs. Marshal v = Some (Inr bs) \<and> int (length bs) = vp_HeaderSize v \<and>
    Unmarshal zero_VP8 (Some (bs @ drop (length bs) p)) = Some (None, v)"
proof -
  have ok: "vp8_ok v" using Unmarshal_ok [OF assms] .
  then have h: "vp_HeaderSize v = int (length (descriptor v))" by (simp add: vp8_ok_def)
  let ?n = "length (descriptor v)"
  from Unmarshal_total [of zero_VP8 "Some p"] assms(1) h
  have l: "?n < length p" and kf: "vp_IsKeyFrame v = (vp_S v \<and> p ! ?n AND 1 = 0)" by auto
  have "drop ?n p = p ! ?n # drop (Suc ?n) p" using l by (simp add: Cons_nth_drop_Suc)
  moreover have "v\<lparr>vp_IsKeyFrame := (p ! ?n AND 1 = 0 \<and> vp_S v)\<rparr> = v" using kf by (intro VP8.equality) auto
  ultimately have "Unmarshal zero_VP8 (Some (descriptor v @ drop ?n p)) = Some (None, v)"
    using Unmarshal_descriptor [OF ok] by simp
  moreover have "Marshal v = Some (Inr (descriptor v))" using h length_descriptor [of v] by (intro Marshal_spec) simp
  ultimately show ?thesis using h by auto
qed

text \<open>
  The size of a key frame end to end: after a marshalled descriptor, a key frame header with the start code
  and little-endian sizes gives back the low 14 bits of width and height; the scaling bits above are dropped.
\<close>

theorem vp8_frame_size:
  assumes "vp8_ok v" "vp_S v" "b0 AND 1 = 0" "Marshal v = Some (Inr bs)"
    "payload = bs @ [b0, b1, b2, 0x9D, 0x01, 0x2A] @ le16 w @ le16 h @ rest"
  shows "\<exists>v'. Unmarshal zero_VP8 (Some payload) = Some (None, v') \<and> vp_IsKeyFrame v' \<and>
    ExtractVP8VideoSize v' payload = Some \<lparr>Width = ucast (w AND 0x3FFF), Height = ucast (h AND 0x3FFF)\<rparr>"
proof -
  have m: "ucast (x AND 0x3FFF :: u16) = (ucast x AND 0x3FFF :: u32)" for x
  proof -
    have m: "(0x3FFF :: 'a::len word) = mask 14" by (simp add: mask_eq_exp_minus_1)
    show ?thesis unfolding m by (rule bit_word_eqI) (auto simp: bit_simps)
  qed
  have h: "vp_HeaderSize v = int (length (descriptor v))" using assms(1) by (simp add: vp8_ok_def)
  then have bs: "bs = descriptor v" using length_descriptor [of v] Marshal_spec [of v] assms(4) by simp
  let ?v = "v\<lparr>vp_IsKeyFrame := True\<rparr>"
  have "Unmarshal zero_VP8 (Some payload) = Some (None, ?v)"
    using Unmarshal_descriptor [OF assms(1), of b0 "[b1, b2, 0x9D, 0x01, 0x2A] @ le16 w @ le16 h @ rest"] assms bs by simp
  moreover have "ExtractVP8VideoSize ?v payload = Some \<lparr>Width = ucast (w AND 0x3FFF), Height = ucast (h AND 0x3FFF)\<rparr>"
    unfolding assms(5) bs m by (rule ExtractVP8VideoSize_frame) (simp_all add: h)
  ultimately show ?thesis by auto
qed


section \<open>Witnesses\<close>

definition sample_vp8 :: VP8 where
  "sample_vp8 = zero_VP8\<lparr>vp_FirstByte := 0x90, vp_S := True, vp_I := True, vp_M := True, vp_PictureID := 0x1234,
     vp_L := True, vp_TL0PICIDX := 7, vp_T := True, vp_TID := 2, vp_Y := True, vp_K := True, vp_KEYIDX := 19, vp_HeaderSize := 6\<rparr>"

lemma sample_vp8_ok: "vp8_ok sample_vp8" "vp_S sample_vp8"
  by (simp_all add: vp8_ok_def sample_vp8_def zero_VP8_def extended_def descriptor_def pic_bytes_def tl0_bytes_def tk_bytes_def)

text \<open>
  The optional fields of an earlier packet stay when the next one has no extension byte; marshalling then adds them.
\<close>

lemma Unmarshal_keeps_stale_fields:
  "Unmarshal sample_vp8 (Some [0x10, 0]) = Some (None, sample_vp8\<lparr>vp_FirstByte := 0x10, vp_IsKeyFrame := True, vp_HeaderSize := 1\<rparr>)"
  by (simp add: Unmarshal_plain step_last_total sample_vp8_def zero_VP8_def)

theorem vp8_round_trip_witness:
  "Unmarshal zero_VP8 (Some ([0x90, 0xF0, 0x92, 0x34, 7, 0xB3] @ [0, 1])) = Some (None, sample_vp8\<lparr>vp_IsKeyFrame := True\<rparr>)"
proof -
  have "Marshal sample_vp8 = Some (Inr [0x90, 0xF0, 0x92, 0x34, 7, 0xB3])" by code_simp
  then show ?thesis using vp8_round_trip [OF sample_vp8_ok(1), of 0 "[1]"] sample_vp8_ok(2) by auto
qed

theorem vp8_total_witness:
  "\<exists>v'. Unmarshal sample_vp8 (Some [0x90, 0x40, 0, 0]) = Some (Some errInvalidPacket, v')"
  using vp8_total [of sample_vp8 "Some [0x90, 0x40, 0, 0]"] by auto

theorem vp8_reencode_witness:
  "\<exists>v bs. Unmarshal zero_VP8 (Some [0x90, 0x8F, 0x11, 0]) = Some (None, v) \<and> Marshal v = Some (Inr bs) \<and> length bs = 3"
proof -
  have "map_option fst (Unmarshal zero_VP8 (Some [0x90, 0x8F, 0x11, 0])) = Some None \<and>
      map_option (extended \<circ> snd) (Unmarshal zero_VP8 (Some [0x90, 0x8F, 0x11, 0])) = Some True \<and>
      map_option (vp_HeaderSize \<circ> snd) (Unmarshal zero_VP8 (Some [0x90, 0x8F, 0x11, 0])) = Some 3"
    by code_simp
  then obtain v where v: "Unmarshal zero_VP8 (Some [0x90, 0x8F, 0x11, 0]) = Some (None, v)" "extended v" "vp_HeaderSize v = 3"
    by (cases "Unmarshal zero_VP8 (Some [0x90, 0x8F, 0x11, 0])") auto
  then show ?thesis using vp8_reencode [OF v(1)] by auto
qed

theorem vp8_frame_size_witness:
  "\<exists>v'. Unmarshal zero_VP8 (Some ([0x90, 0xF0, 0x92, 0x34, 7, 0xB3] @ [0x50, 0, 0, 0x9D, 0x01, 0x2A] @ le16 0x4280 @ le16 0x01E0 @ [9])) = Some (None, v')
    \<and> ExtractVP8VideoSize v' ([0x90, 0xF0, 0x92, 0x34, 7, 0xB3] @ [0x50, 0, 0, 0x9D, 0x01, 0x2A] @ le16 0x4280 @ le16 0x01E0 @ [9])
      = Some \<lparr>Width = 640, Height = 480\<rparr>"
proof -
  have "Marshal sample_vp8 = Some (Inr [0x90, 0xF0, 0x92, 0x34, 7, 0xB3])" by code_simp
  note m = this
  have k: "(0x50 :: byte) AND 1 = 0" by simp
  show ?thesis
    using vp8_frame_size [OF sample_vp8_ok k m refl, where ?w = "0x4280" and ?h = "0x01E0" and ?b1.0 = "0" and ?b2.0 = "0" and ?rest = "[9]"]
    by auto
qed

end
