(* ===== verification/Bits.thy ===== *)
theory Bits
  imports Go_Prelude "HOL-Library.Signed_Division"
begin

text \<open>
  The bit reader of \<^verbatim>\<open>pkg/codec/h26xhelper.go\<close> and the two byte-level filters in front of it: the start
  code and the emulation prevention bytes. A read returns its value or error together with the reader, which
  also moves on a failed Exp-Golomb read. The Go \<open>uint\<close> is 64 bits wide.
\<close>

section \<open>The reader\<close>

datatype sps_error =
    NotEnoughBits
  | NotHevcSps u64
  | EmptySps
  | EmptySpsAfterStartCode
  | NotSps byte
  | TooManyRefFrames

record BitReader =
  br_data :: "byte list"
  br_pos :: nat

type_synonym 'a reading = "((sps_error + 'a) \<times> BitReader) option"

text \<open>Go on with the value of a read, or return its error.\<close>

definition reading :: "'a reading \<Rightarrow> ('a \<Rightarrow> BitReader \<Rightarrow> 'b reading) \<Rightarrow> 'b reading" where
  "reading m f = do { (r, br) \<leftarrow> m; case r of Inl e \<Rightarrow> Some (Inl e, br) | Inr x \<Rightarrow> f x br }"

definition NewBitReader :: "byte list \<Rightarrow> BitReader" where
  "NewBitReader data = \<lparr>br_data = data, br_pos = 0\<rparr>"

definition left :: "BitReader \<Rightarrow> int" where
  "left br = int (length (br_data br)) * 8 - int (br_pos br)"

fun read_loop :: "byte list \<Rightarrow> nat \<Rightarrow> nat \<Rightarrow> u64 \<Rightarrow> (u64 \<times> nat) option" where
  "read_loop data pos 0 v = Some (v, pos)"
| "read_loop data pos (Suc n) v = do {
     b \<leftarrow> go_at data (pos div 8);
     let bitPos = 7 - pos mod 8;
     let bit = drop_bit bitPos b AND 1;
     read_loop data (pos + 1) n (push_bit 1 v OR ucast bit) }"

definition ReadBits :: "BitReader \<Rightarrow> int \<Rightarrow> u64 reading" where
  "ReadBits br n =
    (if n < 0 \<or> left br < n then Some (Inl NotEnoughBits, br)
     else do {
       (v, pos) \<leftarrow> read_loop (br_data br) (br_pos br) (nat n) 0;
       Some (Inr v, br\<lparr>br_pos := pos\<rparr>) })"

definition ReadFlag :: "BitReader \<Rightarrow> bool reading" where
  "ReadFlag br = reading (ReadBits br 1) (\<lambda>b br. Some (Inr (b = 1), br))"

text \<open>The first loop of \<open>ReadUE\<close> counts zero bits up to the first one bit.\<close>

lemma read_loop_pos: "read_loop data pos n v = Some (w, p) \<Longrightarrow> p = pos + n"
proof (induction n arbitrary: pos v)
  case (Suc n)
  from Suc.prems obtain v' where "read_loop data (pos + 1) n v' = Some (w, p)" by (auto simp: Let_def split: bind_splits)
  from Suc.IH [OF this] show ?case by simp
qed simp

lemma ReadBits_left: "ReadBits br n = Some (Inr v, br') \<Longrightarrow> left br' = left br - n \<and> n \<le> left br \<and> 0 \<le> n"
  by (auto simp: ReadBits_def left_def split: if_splits bind_splits dest!: read_loop_pos)

function ue_zeros :: "BitReader \<Rightarrow> nat \<Rightarrow> nat reading" where
  "ue_zeros br zeros = do {
     (r, br') \<leftarrow> ReadBits br 1;
     case r of
       Inl err \<Rightarrow> Some (Inl err, br')
     | Inr b \<Rightarrow> if b = 0 then ue_zeros br' (zeros + 1) else Some (Inr zeros, br') }"
  by pat_completeness auto
termination
  by (relation "measure (\<lambda>(br, _). nat (left br))") (auto dest!: ReadBits_left)

declare ue_zeros.simps [simp del]

definition ReadUE :: "BitReader \<Rightarrow> u64 reading" where
  "ReadUE br = reading (ue_zeros br 0) (\<lambda>zeros br.
     if zeros = 0 then Some (Inr 0, br)
     else reading (ReadBits br (int zeros)) (\<lambda>info br. Some (Inr (push_bit zeros 1 - 1 + info), br)))"

definition ReadSE :: "BitReader \<Rightarrow> int reading" where
  "ReadSE br = reading (ReadUE br) (\<lambda>ueVal br.
     let k = go_int ueVal;
         val = (if k smod 2 = 0 then - (k sdiv 2) else wrap64 (k + 1) sdiv 2)
     in Some (Inr val, br))"

section \<open>Filters on bytes\<close>

definition stripStartCode :: "byte list \<Rightarrow> byte list" where
  "stripStartCode b =
    (if length b \<ge> 4 \<and> b ! 0 = 0x00 \<and> b ! 1 = 0x00 \<and> b ! 2 = 0x00 \<and> b ! 3 = 0x01 then drop 4 b
     else if length b \<ge> 3 \<and> b ! 0 = 0x00 \<and> b ! 1 = 0x00 \<and> b ! 2 = 0x01 then drop 3 b
     else b)"

definition removeEmulationPreventionBytes :: "byte list \<Rightarrow> byte list" where
  "removeEmulationPreventionBytes data =
    map (\<lambda>i. data ! i)
      (filter (\<lambda>i. \<not> (i > 1 \<and> data ! i = 0x03 \<and> data ! (i - 1) = 0x00 \<and> data ! (i - 2) = 0x00)) [0..<length data])"

section \<open>The reader as a list of bits\<close>

definition byte_bits :: "byte \<Rightarrow> bool list" where
  "byte_bits b = map (bit b) (rev [0..<8])"

definition bits_of :: "byte list \<Rightarrow> bool list" where
  "bits_of bs = concat (map byte_bits bs)"

definition view :: "BitReader \<Rightarrow> bool list" where
  "view br = drop (br_pos br) (bits_of (br_data br))"

definition reader_ok :: "BitReader \<Rightarrow> bool" where
  "reader_ok br \<longleftrightarrow> br_pos br \<le> 8 * length (br_data br)"

definition bits_val :: "bool list \<Rightarrow> u64" where
  "bits_val bs = foldl (\<lambda>v b. push_bit 1 v OR of_bool b) 0 bs"

definition advance :: "BitReader \<Rightarrow> nat \<Rightarrow> BitReader" where
  "advance br n = br\<lparr>br_pos := br_pos br + n\<rparr>"

lemma length_byte_bits [simp]: "length (byte_bits b) = 8"
  by (simp add: byte_bits_def)

lemma length_bits_of [simp]: "length (bits_of bs) = 8 * length bs"
  by (induction bs) (simp_all add: bits_of_def)

lemma length_view: "length (view br) = 8 * length (br_data br) - br_pos br"
  by (simp add: view_def)

lemma left_view: "reader_ok br \<Longrightarrow> left br = int (length (view br))"
  by (simp add: left_def length_view reader_ok_def)

lemma nth_byte_bits: "i < 8 \<Longrightarrow> byte_bits b ! i = bit b (7 - i)"
  by (simp add: byte_bits_def rev_nth)

lemma nth_bits_of: "i < 8 * length bs \<Longrightarrow> bits_of bs ! i = bit (bs ! (i div 8)) (7 - i mod 8)"
proof (induction bs arbitrary: i)
  case (Cons b bs)
  show ?case
  proof (cases "i < 8")
    case True
    then show ?thesis by (simp add: bits_of_def nth_append nth_byte_bits)
  next
    case False
    then obtain j where i: "i = 8 + j" by (metis le_Suc_ex linorder_not_less)
    then have "bits_of bs ! j = bit (bs ! (j div 8)) (7 - j mod 8)" using Cons by simp
    moreover have "(8 + j) div 8 = Suc (j div 8)" using div_add_self1 [of 8 j] by simp
    ultimately show ?thesis by (simp add: i bits_of_def nth_append)
  qed
qed simp

lemma bits_val_simps [simp]: "bits_val [] = 0" "bits_val (bs @ [b]) = push_bit 1 (bits_val bs) OR of_bool b"
  by (simp_all add: bits_val_def)

lemma read_loop_view:
  "n \<le> length bits \<Longrightarrow> drop pos (bits_of data) = bits \<Longrightarrow>
   read_loop data pos n v = Some (foldl (\<lambda>v b. push_bit 1 v OR of_bool b) v (take n bits), pos + n)"
proof (induction n arbitrary: pos v bits)
  case (Suc n)
  have pos: "pos < 8 * length data"
  proof (rule ccontr)
    assume "\<not> pos < 8 * length data"
    then have "bits = []" using Suc.prems(2) by auto
    then show False using Suc.prems(1) by simp
  qed
  then have bits: "bits = bit (data ! (pos div 8)) (7 - pos mod 8) # drop (Suc pos) (bits_of data)"
    using Suc.prems(2) Cons_nth_drop_Suc [of pos "bits_of data"] nth_bits_of [OF pos] by simp
  have bitv: "ucast (drop_bit k b AND 1 :: byte) = (of_bool (bit b k) :: u64)" for k b
    by (rule bit_word_eqI) (auto simp: bit_simps)
  have here: "go_at data (pos div 8) = Some (data ! (pos div 8))" using pos by (intro go_at_Some) (simp add: div_less_iff_less_mult mult.commute)
  have "n \<le> length (drop (Suc pos) (bits_of data))" using Suc.prems(1) bits by simp
  from Suc.IH [OF this refl] show ?case
    unfolding read_loop.simps here Option.bind.bind_lunit Let_def bitv by (subst bits) simp
qed simp

lemma ReadBits_view:
  assumes "reader_ok br"
  shows "ReadBits br n = (if n < 0 \<or> int (length (view br)) < n then Some (Inl NotEnoughBits, br)
    else Some (Inr (bits_val (take (nat n) (view br))), advance br (nat n)))"
proof (cases "n < 0 \<or> int (length (view br)) < n")
  case True
  then show ?thesis using left_view [OF assms] by (simp add: ReadBits_def)
next
  case False
  then have "nat n \<le> length (view br)" by linarith
  from read_loop_view [OF this, of "br_pos br" "br_data br" 0] show ?thesis
    using False left_view [OF assms] by (simp add: ReadBits_def bits_val_def advance_def view_def)
qed

lemma advance_simps [simp]:
  "view (advance br n) = drop n (view br)" "advance br 0 = br" "advance (advance br m) n = advance br (m + n)"
  "br_data (advance br n) = br_data br"
  by (simp_all add: view_def advance_def add.commute add.left_commute)

lemma reader_ok_advance: "reader_ok br \<Longrightarrow> n \<le> length (view br) \<Longrightarrow> reader_ok (advance br n)"
  by (simp add: reader_ok_def length_view advance_def)

lemma reader_ok_new [simp]: "reader_ok (NewBitReader data)" "view (NewBitReader data) = bits_of data"
  by (simp_all add: reader_ok_def NewBitReader_def view_def)

section \<open>Fixed-width fields\<close>

definition to_bits :: "nat \<Rightarrow> u64 \<Rightarrow> bool list" where
  "to_bits n v = map (bit v) (rev [0..<n])"

lemma length_to_bits [simp]: "length (to_bits n v) = n"
  by (simp add: to_bits_def)

lemma to_bits_Suc: "to_bits (Suc n) v = bit v n # to_bits n v"
  by (simp add: to_bits_def)

lemma to_bits_snoc: "to_bits (Suc n) v = to_bits n (drop_bit 1 v) @ [bit v 0]"
proof -
  have "rev [0..<Suc n] = map Suc (rev [0..<n]) @ [0]"
    by (simp only: rev_map [symmetric] map_Suc_upt upt_conv_Cons [OF zero_less_Suc]) (simp add: upt_conv_Cons)
  then show ?thesis by (simp add: to_bits_def bit_drop_bit_eq)
qed

lemma bits_val_to_bits [simp]: "bits_val (to_bits n v) = take_bit n v"
proof (induction n arbitrary: v)
  case 0
  then show ?case by (simp add: to_bits_def)
next
  case (Suc n)
  have "push_bit 1 (take_bit n (drop_bit 1 v)) OR of_bool (bit v 0) = take_bit (Suc n) v"
  proof (rule bit_word_eqI)
    fix k assume "k < LENGTH(64)"
    then show "bit (push_bit 1 (take_bit n (drop_bit 1 v)) OR of_bool (bit v 0)) k = bit (take_bit (Suc n) v) k"
      by (cases k) (auto simp: bit_or_iff bit_push_bit_iff bit_take_bit_iff bit_drop_bit_eq bit_of_bool_iff simp del: push_bit_Suc bit_0)
  qed
  then show ?case using Suc.IH by (simp add: to_bits_snoc)
qed

section \<open>Exp-Golomb codes\<close>

fun bitlen :: "nat \<Rightarrow> nat" where
  "bitlen n = (if n < 2 then 0 else Suc (bitlen (n div 2)))"

declare bitlen.simps [simp del]

lemma bitlen_step: "p \<le> n div 2 \<and> n div 2 < 2 * p \<Longrightarrow> 2 * p \<le> n \<and> n < 2 * (2 * p)" for n p :: nat
  by linarith

lemma bitlen_bounds: "0 < n \<Longrightarrow> 2 ^ bitlen n \<le> n \<and> n < 2 * 2 ^ bitlen n"
proof (induction n rule: bitlen.induct)
  case (1 n)
  show ?case
  proof (cases "n < 2")
    case True
    then show ?thesis using 1 by (simp add: bitlen.simps)
  next
    case False
    then have "2 ^ bitlen (n div 2) \<le> n div 2 \<and> n div 2 < 2 * 2 ^ bitlen (n div 2)" using 1 by simp
    moreover have "bitlen n = Suc (bitlen (n div 2))" using False by (simp add: bitlen.simps)
    ultimately show ?thesis using bitlen_step [of "2 ^ bitlen (n div 2)" n] by simp
  qed
qed

definition ue_bits :: "nat \<Rightarrow> bool list" where
  "ue_bits v = replicate (bitlen (v + 1)) False @ True # to_bits (bitlen (v + 1)) (of_nat (v + 1))"

lemma length_ue_bits: "length (ue_bits v) = 2 * bitlen (v + 1) + 1"
  by (simp add: ue_bits_def)

lemma ue_zeros_view:
  "reader_ok br \<Longrightarrow> view br = replicate k False @ True # rest \<Longrightarrow> ue_zeros br z = Some (Inr (z + k), advance br (Suc k))"
proof (induction k arbitrary: br z)
  case 0
  then show ?case by (subst ue_zeros.simps) (simp add: ReadBits_view bits_val_def)
next
  case (Suc k)
  have "ue_zeros (advance br 1) (Suc z) = Some (Inr (Suc z + k), advance (advance br 1) (Suc k))"
    using Suc.prems by (intro Suc.IH) (simp_all add: reader_ok_advance)
  then show ?case using Suc.prems by (subst ue_zeros.simps) (simp add: ReadBits_view bits_val_def)
qed

lemma ue_value:
  assumes "v + 1 < 2 ^ 64" "2 ^ z \<le> v + 1" "v + 1 < 2 * 2 ^ z"
  shows "push_bit z 1 - 1 + take_bit z (of_nat (v + 1)) = (of_nat v :: u64)"
proof -
  obtain r where r: "v + 1 = 2 ^ z + r" using assms(2) le_Suc_ex by blast
  then have rl: "r < 2 ^ z" using assms(3) by simp
  have "unat (of_nat (v + 1) :: u64) = v + 1" using assms(1) by (simp add: unsigned_of_nat take_bit_nat_def del: of_nat_add of_nat_Suc)
  then have "unat (take_bit z (of_nat (v + 1) :: u64)) = (v + 1) mod 2 ^ z"
    by (simp only: unsigned_take_bit_eq take_bit_nat_def)
  also have "\<dots> = r" unfolding r using rl by simp
  finally have "of_nat (unat (take_bit z (of_nat (v + 1) :: u64))) = (of_nat r :: u64)" by (rule arg_cong)
  then have "take_bit z (of_nat (v + 1) :: u64) = of_nat r" by (simp only: of_nat_unat ucast_id)
  moreover have "(of_nat v :: u64) = 2 ^ z + of_nat r - 1"
  proof -
    have "(of_nat (v + 1) :: u64) = of_nat (2 ^ z + r)" using r by simp
    then show ?thesis by (simp add: algebra_simps)
  qed
  ultimately show ?thesis by (simp add: push_bit_eq_mult)
qed

lemma ReadUE_view:
  assumes "reader_ok br" "view br = ue_bits v @ rest" "v + 1 < 2 ^ 64"
  shows "ReadUE br = Some (Inr (of_nat v), advance br (length (ue_bits v)))"
proof -
  define z where "z = bitlen (v + 1)"
  define t where "t = to_bits z (of_nat (v + 1))"
  have t: "length t = z" "bits_val t = take_bit z (of_nat (v + 1))" by (simp_all only: t_def length_to_bits bits_val_to_bits)
  have ue: "ue_bits v = replicate z False @ True # t" by (simp only: ue_bits_def z_def t_def)
  define br' where "br' = advance br (Suc z)"
  have vw: "view br' = t @ rest" using assms(2) by (simp add: ue br'_def)
  have ok: "reader_ok br'" unfolding br'_def using assms(1,2) by (intro reader_ok_advance) (simp_all add: ue)
  have zs: "ue_zeros br 0 = Some (Inr z, br')"
    using ue_zeros_view [OF assms(1), of z "t @ rest" 0] assms(2) by (simp add: ue br'_def)
  have "ReadBits br' (int z) = Some (Inr (take_bit z (of_nat (v + 1))), advance br (length (ue_bits v)))"
    unfolding ReadBits_view [OF ok] vw by (simp add: t ue br'_def del: of_nat_add of_nat_Suc)
  moreover have "push_bit z 1 - 1 + take_bit z (of_nat (v + 1)) = (of_nat v :: u64)"
    using bitlen_bounds [of "v + 1"] assms(3) by (intro ue_value) (simp_all add: z_def)
  moreover have "z = 0 \<Longrightarrow> v = 0" using bitlen_bounds [of "v + 1"] by (simp add: z_def)
  moreover have "z = 0 \<Longrightarrow> br' = advance br (length (ue_bits v))" by (simp add: br'_def ue t)
  ultimately show ?thesis by (simp add: ReadUE_def reading_def zs)
qed

lemma ReadFlag_view:
  assumes "reader_ok br" "view br = b # rest"
  shows "ReadFlag br = Some (Inr b, advance br 1)"
  using assms by (simp add: ReadFlag_def reading_def ReadBits_view bits_val_def)

definition se_bits :: "int \<Rightarrow> bool list" where
  "se_bits k = ue_bits (nat (if k > 0 then 2 * k - 1 else - 2 * k))"

lemma go_int_of_nat: "n < 2 ^ 63 \<Longrightarrow> go_int (of_nat n :: u64) = int n"
proof -
  assume n: "n < 2 ^ 63"
  have "uint (of_nat n :: u64) = int n" using n by (simp add: unsigned_of_nat take_bit_nat_eq_self)
  then show ?thesis using n go_int_small [of "of_nat n :: u64"] by simp
qed

lemma half_nonneg: "0 \<le> x \<Longrightarrow> x sdiv 2 = x div 2" "0 \<le> x \<Longrightarrow> x smod 2 = x mod 2" for x :: int
  by (cases "x = 0"; simp add: signed_divide_int_def signed_modulo_int_def)+

lemma ReadSE_view:
  assumes "reader_ok br" "view br = se_bits k @ rest" "\<bar>k\<bar> < 2 ^ 61"
  shows "ReadSE br = Some (Inr k, advance br (length (se_bits k)))"
proof -
  define v where "v = nat (if k > 0 then 2 * k - 1 else - 2 * k)"
  have v: "v < 2 ^ 63" "v + 1 < 2 ^ 64" using assms(3) by (auto simp: v_def)
  have iv: "int v = (if k > 0 then 2 * k - 1 else - 2 * k)" by (simp add: v_def)
  have "ReadUE br = Some (Inr (of_nat v), advance br (length (se_bits k)))"
    unfolding se_bits_def v_def [symmetric] using assms(2) [unfolded se_bits_def, folded v_def] by (rule ReadUE_view [OF assms(1) _ v(2)])
  moreover have "(if int v smod 2 = 0 then - (int v sdiv 2) else wrap64 (int v + 1) sdiv 2) = k"
  proof (cases "k > 0")
    case True
    then have "wrap64 (2 * k) = 2 * k" using assms(3) by (intro wrap64_id) auto
    moreover have "(2 * k - 1) mod 2 = 1" by presburger
    ultimately show ?thesis using True by (simp add: iv half_nonneg)
  next
    case False
    then have "int v = 2 * (- k)" by (simp add: iv)
    then have "int v mod 2 = 0" "int v div 2 = - k" by simp_all
    then show ?thesis using half_nonneg [of "int v"] by simp
  qed
  ultimately show ?thesis by (auto simp: ReadSE_def reading_def go_int_of_nat [OF v(1)] Let_def split: if_splits)
qed

section \<open>Reads always come back\<close>

definition reads :: "'a reading \<Rightarrow> bool" where
  "reads m \<longleftrightarrow> (\<exists>r br. m = Some (r, br) \<and> reader_ok br)"

named_theorems reads_intros "reads that return with the reader in bounds"

lemma reads_Some [reads_intros]: "reader_ok br \<Longrightarrow> reads (Some (r, br))"
  by (simp add: reads_def)

lemma reads_reading [reads_intros]:
  "reads m \<Longrightarrow> (\<And>x br. reader_ok br \<Longrightarrow> reads (f x br)) \<Longrightarrow> reads (reading m f)"
  by (auto simp: reads_def reading_def split: sum.split)

lemma reads_if [reads_intros]: "(c \<Longrightarrow> reads a) \<Longrightarrow> (\<not> c \<Longrightarrow> reads b) \<Longrightarrow> reads (if c then a else b)"
  by simp

lemma reads_let [reads_intros]: "(\<And>y. y = x \<Longrightarrow> reads (f y)) \<Longrightarrow> reads (let y = x in f y)"
  by simp

lemma ReadBits_reads [reads_intros]: "reader_ok br \<Longrightarrow> reads (ReadBits br n)"
  by (auto simp: ReadBits_view reads_def intro!: reader_ok_advance)

lemma ReadFlag_reads [reads_intros]: "reader_ok br \<Longrightarrow> reads (ReadFlag br)"
  unfolding ReadFlag_def by (intro reads_intros)

lemma ue_zeros_reads [reads_intros]: "reader_ok br \<Longrightarrow> reads (ue_zeros br z)"
proof (induction br z rule: ue_zeros.induct)
  case (1 br z)
  show ?case
  proof (cases "view br")
    case Nil
    then show ?thesis using 1(2) by (subst ue_zeros.simps) (simp add: ReadBits_view reads_def)
  next
    case (Cons b rest)
    then have r: "ReadBits br 1 = Some (Inr (of_bool b), advance br 1)" using 1(2) by (simp add: ReadBits_view bits_val_def)
    have "reader_ok (advance br 1)" using 1(2) Cons by (intro reader_ok_advance) simp_all
    then show ?thesis using 1(1) [OF r refl] by (subst ue_zeros.simps) (auto simp: r reads_def)
  qed
qed

lemma ReadUE_reads [reads_intros]: "reader_ok br \<Longrightarrow> reads (ReadUE br)"
  unfolding ReadUE_def by (intro reads_intros)

lemma ReadSE_reads [reads_intros]: "reader_ok br \<Longrightarrow> reads (ReadSE br)"
  unfolding ReadSE_def by (intro reads_intros)

section \<open>Emulation prevention\<close>

fun strip3 :: "bool \<Rightarrow> bool \<Rightarrow> byte list \<Rightarrow> byte list" where
  "strip3 z2 z1 [] = []"
| "strip3 z2 z1 (x # xs) = (if z2 \<and> z1 \<and> x = 3 then [] else [x]) @ strip3 z1 (x = 0) xs"

lemma strip3_loop:
  "map (\<lambda>i. (pre @ xs) ! i) (filter (\<lambda>i. \<not> (i > 1 \<and> (pre @ xs) ! i = 0x03 \<and> (pre @ xs) ! (i - 1) = 0x00 \<and> (pre @ xs) ! (i - 2) = 0x00))
      [length pre..<length (pre @ xs)]) =
   strip3 (length pre > 1 \<and> pre ! (length pre - 2) = 0) (length pre > 0 \<and> pre ! (length pre - 1) = 0) xs"
proof (induction xs arbitrary: pre)
  case (Cons x xs)
  have up: "[length pre..<length (pre @ x # xs)] = length pre # [length (pre @ [x])..<length ((pre @ [x]) @ xs)]"
    using upt_conv_Cons [of "length pre" "length (pre @ x # xs)"] by (simp del: upt_Suc)
  show ?case unfolding up
    using Cons.IH [of "pre @ [x]"] by (auto simp: nth_append)
qed simp

lemma removeEmulation_strip3: "removeEmulationPreventionBytes data = strip3 False False data"
  using strip3_loop [of "[]" data] by (simp add: removeEmulationPreventionBytes_def)

text \<open>The encoder of the standard: a \<open>3\<close> before every byte up to \<open>3\<close> that follows two zero bytes.\<close>

fun escape :: "nat \<Rightarrow> byte list \<Rightarrow> byte list" where
  "escape z [] = []"
| "escape z (b # bs) =
    (if 2 \<le> z \<and> b \<le> 3 then 3 # b # escape (if b = 0 then 1 else 0) bs
     else b # escape (if b = 0 then z + 1 else 0) bs)"

lemma strip3_reset: "strip3 z False xs = strip3 False False xs"
  by (cases xs) simp_all

lemma strip3_escape: "strip3 (2 \<le> z) (1 \<le> z) (escape z bs) = bs"
proof (induction z bs rule: escape.induct)
  case (2 z b bs)
  have "b \<noteq> 3 \<or> b \<le> 3" by simp
  then show ?case using 2 strip3_reset [of True] by (cases "1 \<le> z") (auto split: if_splits)
qed simp

lemma removeEmulation_escape: "removeEmulationPreventionBytes (escape 0 bs) = bs"
  using strip3_escape [of 0 bs] by (simp add: removeEmulation_strip3)

section \<open>The interface to its clients\<close>

text \<open>
  What a parser relies on: reading \<open>n\<close> bits takes them off the front, big-endian; too few bits are an error
  that leaves the source alone.
\<close>

locale bit_source =
  fixes ok :: "'s \<Rightarrow> bool" and bits :: "'s \<Rightarrow> bool list"
    and read :: "'s \<Rightarrow> int \<Rightarrow> ((sps_error + u64) \<times> 's) option"
  assumes read_enough: "ok s \<Longrightarrow> bits s = xs @ rest \<Longrightarrow>
      \<exists>s'. read s (int (length xs)) = Some (Inr (bits_val xs), s') \<and> bits s' = rest \<and> ok s'"
    and read_short: "ok s \<Longrightarrow> n < 0 \<or> int (length (bits s)) < n \<Longrightarrow> \<exists>err. read s n = Some (Inl err, s)"

fun read_all :: "('s \<Rightarrow> int \<Rightarrow> ((sps_error + u64) \<times> 's) option) \<Rightarrow> 's \<Rightarrow> nat list \<Rightarrow> ((sps_error + u64 list) \<times> 's) option" where
  "read_all read s [] = Some (Inr [], s)"
| "read_all read s (n # ns) = do {
     (r, s) \<leftarrow> read s (int n);
     case r of
       Inl err \<Rightarrow> Some (Inl err, s)
     | Inr v \<Rightarrow> do { (rs, s) \<leftarrow> read_all read s ns; Some (map_sum id ((#) v) rs, s) } }"

definition fields_bits :: "(nat \<times> u64) list \<Rightarrow> bool list" where
  "fields_bits fs = concat (map (\<lambda>(n, v). to_bits n v) fs)"

context bit_source begin

lemma read_total: "ok s \<Longrightarrow> \<exists>r s'. read s n = Some (r, s') \<and> ok s' \<and> length (bits s') \<le> length (bits s)"
proof -
  assume s: "ok s"
  show ?thesis
  proof (cases "n < 0 \<or> int (length (bits s)) < n")
    case True
    then show ?thesis using read_short [OF s] s by blast
  next
    case False
    then have "bits s = take (nat n) (bits s) @ drop (nat n) (bits s)" "int (length (take (nat n) (bits s))) = n" by auto
    then show ?thesis using read_enough [OF s, of "take (nat n) (bits s)" "drop (nat n) (bits s)"] by force
  qed
qed

lemma read_field: "ok s \<Longrightarrow> bits s = to_bits n v @ rest \<Longrightarrow> \<exists>s'. read s (int n) = Some (Inr (take_bit n v), s') \<and> bits s' = rest \<and> ok s'"
  using read_enough [of s "to_bits n v" rest] by simp

lemma read_all_fields:
  "ok s \<Longrightarrow> bits s = fields_bits fs @ rest \<Longrightarrow>
   \<exists>s'. read_all read s (map fst fs) = Some (Inr (map (\<lambda>(n, v). take_bit n v) fs), s') \<and> bits s' = rest \<and> ok s'"
proof (induction fs arbitrary: s)
  case Nil
  then show ?case by (simp add: fields_bits_def)
next
  case (Cons f fs)
  obtain n v where f: "f = (n, v)" by (cases f)
  have "bits s = to_bits n v @ fields_bits fs @ rest" using Cons.prems by (simp add: f fields_bits_def)
  from read_field [OF Cons.prems(1) this] obtain s1
    where s1: "read s (int n) = Some (Inr (take_bit n v), s1)" "bits s1 = fields_bits fs @ rest" "ok s1" by blast
  from Cons.IH [OF s1(3,2)] s1(1) show ?case by (auto simp: f)
qed

end

interpretation reader: bit_source reader_ok view ReadBits
proof
  fix s xs rest assume s: "reader_ok s" "view s = xs @ rest"
  then have "reader_ok (advance s (length xs))" by (intro reader_ok_advance) simp_all
  then show "\<exists>s'. ReadBits s (int (length xs)) = Some (Inr (bits_val xs), s') \<and> view s' = rest \<and> reader_ok s'"
    using s by (simp add: ReadBits_view)
next
  fix s n assume "reader_ok s" "n < 0 \<or> int (length (view s)) < n"
  then show "\<exists>err. ReadBits s n = Some (Inl err, s)" by (simp add: ReadBits_view)
qed

section \<open>Properties\<close>

text \<open>
  Any sequence of fixed-width fields, written big-endian and back to back, is read back field by field, each
  to its low bits, and the reader is left at the bits after them.
\<close>

theorem bit_fields:
  assumes "reader_ok br" "view br = fields_bits fs @ rest"
  shows "\<exists>br'. read_all ReadBits br (map fst fs) = Some (Inr (map (\<lambda>(n, v). take_bit n v) fs), br') \<and> view br' = rest \<and> reader_ok br'"
  using reader.read_all_fields [OF assms] .

text \<open>
  Exp-Golomb codes: \<open>ReadUE\<close> decodes the code word of every number the 64-bit result has room for,
  \<open>ReadSE\<close> the signed code of every number, and the reader is left at the bits after them.
\<close>

theorem exp_golomb_round_trip:
  assumes "reader_ok br" "view br = ue_bits v @ se_bits k @ rest" "v + 1 < 2 ^ 64" "\<bar>k\<bar> < 2 ^ 61"
  shows "\<exists>br1 br2. ReadUE br = Some (Inr (of_nat v), br1) \<and> ReadSE br1 = Some (Inr k, br2) \<and> view br2 = rest \<and> reader_ok br2"
proof -
  let ?br1 = "advance br (length (ue_bits v))" let ?br2 = "advance ?br1 (length (se_bits k))"
  have ok: "reader_ok ?br1" using assms(1,2) by (intro reader_ok_advance) simp_all
  have vw: "view ?br1 = se_bits k @ rest" using assms(2) by simp
  have "ReadSE ?br1 = Some (Inr k, ?br2)" by (rule ReadSE_view [OF ok vw assms(4)])
  moreover have "reader_ok ?br2" by (rule reader_ok_advance [OF ok]) (simp only: vw length_append le_add1)
  ultimately show ?thesis using ReadUE_view [OF assms(1,2,3)] assms(2) by auto
qed

text \<open>
  Every read returns, on any data and at any position inside them: no index out of range, no endless
  loop, and the reader stays inside the data.
\<close>

theorem reads_return:
  assumes "reader_ok br"
  shows "(\<exists>r br'. ReadBits br n = Some (r, br') \<and> reader_ok br') \<and> (\<exists>r br'. ReadFlag br = Some (r, br') \<and> reader_ok br') \<and>
    (\<exists>r br'. ReadUE br = Some (r, br') \<and> reader_ok br') \<and> (\<exists>r br'. ReadSE br = Some (r, br') \<and> reader_ok br')"
  using ReadBits_reads [OF assms, of n] ReadFlag_reads [OF assms] ReadUE_reads [OF assms] ReadSE_reads [OF assms]
  unfolding reads_def by blast

text \<open>
  Removing the emulation prevention bytes undoes the escaping of the standard on every byte sequence.
\<close>

theorem emulation_round_trip: "removeEmulationPreventionBytes (escape 0 bs) = bs"
  by (rule removeEmulation_escape)

section \<open>Witnesses\<close>

theorem bit_fields_witness:
  "\<exists>br'. read_all ReadBits (NewBitReader [0xA5, 0xC0]) [3, 5, 4] = Some (Inr [5, 5, 12], br') \<and> view br' = [False, False, False, False]"
proof -
  have "view (NewBitReader [0xA5, 0xC0]) = fields_bits [(3, 5), (5, 5), (4, 12)] @ [False, False, False, False]" by code_simp
  from bit_fields [OF reader_ok_new(1) this] show ?thesis by (auto simp: take_bit_eq_mask mask_eq_exp_minus_1)
qed

theorem exp_golomb_round_trip_witness:
  "\<exists>br1 br2. ReadUE (NewBitReader [0x2B, 0x80]) = Some (Inr 4, br1) \<and> ReadSE br1 = Some (Inr (- 1), br2)"
proof -
  have "view (NewBitReader [0x2B, 0x80]) = ue_bits 4 @ se_bits (- 1) @ [True, False, False, False, False, False, False, False]" by code_simp
  from exp_golomb_round_trip [OF reader_ok_new(1) this] show ?thesis by auto
qed

theorem reads_return_witness: "\<exists>r br'. ReadUE (NewBitReader [0, 0]) = Some (r, br') \<and> reader_ok br'"
  using reads_return [of "NewBitReader [0, 0]"] by simp

end
