(* ===== verification/Sps.thy ===== *)
theory Sps
  imports Bits Vp8
begin

text \<open>
  Sequence parameter sets of H.265 and H.264, \<^verbatim>\<open>pkg/codec/h26xhelper.go\<close>: parsing a NAL unit into the
  size of the picture, and finding the parameter set in an RTP payload. The H.265 parser returns the first read
  error; the H.264 parser goes on with a zero value. Go's \<open>uint\<close> and \<open>int\<close> are 64 bits wide.
\<close>

section \<open>Results\<close>

record SPSInfo =
  ChromaFormatIDC :: u64
  PicWidthInLumaSamples :: u64
  PicHeightInLumaSamples :: u64
  ConformanceWindowFlag :: bool
  ConfWinLeftOffset :: u64
  ConfWinRightOffset :: u64
  ConfWinTopOffset :: u64
  ConfWinBottomOffset :: u64
  CodedWidth :: u64
  CodedHeight :: u64
  DisplayWidth :: u64
  DisplayHeight :: u64

definition getSubWidthC :: "u64 \<Rightarrow> u64" where
  "getSubWidthC chromaFormatIDC = (if chromaFormatIDC = 1 \<or> chromaFormatIDC = 2 then 2 else 1)"

definition getSubHeightC :: "u64 \<Rightarrow> u64" where
  "getSubHeightC chromaFormatIDC = (if chromaFormatIDC = 1 then 2 else 1)"

text \<open>\<open>int(size) - int(crop)*int(unit)\<close>, cut off at zero.\<close>

definition cropped :: "u64 \<Rightarrow> u64 \<Rightarrow> u64 \<Rightarrow> u64" where
  "cropped dim crop unit =
    (let w = wrap64 (go_int dim - wrap64 (go_int crop * go_int unit)) in word_of_int (if w < 0 then 0 else w))"

section \<open>H.265\<close>

definition h265_nal_header :: "BitReader \<Rightarrow> unit reading" where
  "h265_nal_header br =
    reading (ReadBits br 1) (\<lambda>_ br.
    reading (ReadBits br 6) (\<lambda>nalUnitType br.
    reading (ReadBits br 6) (\<lambda>_ br.
    reading (ReadBits br 3) (\<lambda>_ br.
    if nalUnitType \<noteq> 33 then Some (Inl (NotHevcSps nalUnitType), br) else Some (Inr (), br)))))"

fun sublayer_flags :: "nat \<Rightarrow> BitReader \<Rightarrow> (bool \<times> bool) list reading" where
  "sublayer_flags 0 br = Some (Inr [], br)"
| "sublayer_flags (Suc n) br =
    reading (ReadFlag br) (\<lambda>f1 br.
    reading (ReadFlag br) (\<lambda>f2 br.
    reading (sublayer_flags n br) (\<lambda>fs br. Some (Inr ((f1, f2) # fs), br))))"

fun skip_reserved :: "nat \<Rightarrow> BitReader \<Rightarrow> unit reading" where
  "skip_reserved 0 br = Some (Inr (), br)"
| "skip_reserved (Suc n) br = reading (ReadBits br 2) (\<lambda>_ br. skip_reserved n br)"

definition skip_profile :: "bool \<Rightarrow> BitReader \<Rightarrow> unit reading" where
  "skip_profile present br =
    (if present then
       reading (ReadBits br (2 + 1 + 5)) (\<lambda>_ br.
       reading (ReadBits br 32) (\<lambda>_ br.
       reading (ReadBits br 48) (\<lambda>_ br. Some (Inr (), br))))
     else Some (Inr (), br))"

definition skip_level :: "bool \<Rightarrow> BitReader \<Rightarrow> unit reading" where
  "skip_level present br =
    (if present then reading (ReadBits br 8) (\<lambda>_ br. Some (Inr (), br)) else Some (Inr (), br))"

fun skip_sublayers :: "(bool \<times> bool) list \<Rightarrow> BitReader \<Rightarrow> unit reading" where
  "skip_sublayers [] br = Some (Inr (), br)"
| "skip_sublayers ((f1, f2) # fs) br =
    reading (skip_profile f1 br) (\<lambda>_ br.
    reading (skip_level f2 br) (\<lambda>_ br. skip_sublayers fs br))"

definition h265_profile_tier_level :: "BitReader \<Rightarrow> unit reading" where
  "h265_profile_tier_level br =
    reading (ReadBits br 4) (\<lambda>_ br.
    reading (ReadBits br 3) (\<lambda>maxSubLayersMinus1 br.
    reading (ReadBits br 1) (\<lambda>_ br.
    reading (ReadBits br (2 + 1 + 5)) (\<lambda>_ br.
    reading (ReadBits br 32) (\<lambda>_ br.
    reading (ReadBits br 16) (\<lambda>_ br.
    reading (ReadBits br 32) (\<lambda>_ br.
    reading (ReadBits br 8) (\<lambda>_ br.
    reading (sublayer_flags (unat maxSubLayersMinus1) br) (\<lambda>flags br.
    reading (if maxSubLayersMinus1 > 0 then skip_reserved (8 - unat maxSubLayersMinus1) br else Some (Inr (), br)) (\<lambda>_ br.
    skip_sublayers flags br))))))))))"

definition h265_picture :: "BitReader \<Rightarrow> SPSInfo reading" where
  "h265_picture br =
    reading (ReadUE br) (\<lambda>_ br.
    reading (ReadUE br) (\<lambda>chromaFormatIDC br.
    reading (if chromaFormatIDC = 3 then ReadFlag br else Some (Inr False, br)) (\<lambda>_ br.
    reading (ReadUE br) (\<lambda>picW br.
    reading (ReadUE br) (\<lambda>picH br.
    reading (ReadFlag br) (\<lambda>confFlag br.
    reading (if confFlag then
        reading (ReadUE br) (\<lambda>l br.
        reading (ReadUE br) (\<lambda>r br.
        reading (ReadUE br) (\<lambda>t br.
        reading (ReadUE br) (\<lambda>b br. Some (Inr (l, r, t, b), br)))))
      else Some (Inr (0, 0, 0, 0), br)) (\<lambda>(l, r, t, b) br.
    let subWidthC = getSubWidthC chromaFormatIDC;
        subHeightC = getSubHeightC chromaFormatIDC
    in Some (Inr
       \<lparr>ChromaFormatIDC = chromaFormatIDC, PicWidthInLumaSamples = picW, PicHeightInLumaSamples = picH,
        ConformanceWindowFlag = confFlag, ConfWinLeftOffset = l, ConfWinRightOffset = r,
        ConfWinTopOffset = t, ConfWinBottomOffset = b, CodedWidth = picW, CodedHeight = picH,
        DisplayWidth = (if confFlag then cropped picW (l + r) subWidthC else picW),
        DisplayHeight = (if confFlag then cropped picH (t + b) subHeightC else picH)\<rparr>, br))))))))"

definition parseH265SPS :: "byte list \<Rightarrow> (sps_error + SPSInfo) option" where
  "parseH265SPS nal =
    (let nal = stripStartCode nal;
         rbsp = removeEmulationPreventionBytes nal;
         br = NewBitReader rbsp
     in map_option fst
       (reading (h265_nal_header br) (\<lambda>_ br.
        reading (h265_profile_tier_level br) (\<lambda>_ br. h265_picture br))))"

text \<open>The loop over an aggregation packet: the first parameter set in it, or nothing.\<close>

function h265_ap_loop :: "byte list \<Rightarrow> nat \<Rightarrow> byte list option" where
  "h265_ap_loop payload i =
    (if i + 2 \<le> length payload then do {
       hi \<leftarrow> go_at payload i;
       lo \<leftarrow> go_at payload (i + 1);
       let nalSize = unat (push_bit 8 (ucast hi) OR ucast lo :: u64);
       let i = i + 2;
       if i + nalSize > length payload then Some []
       else if nalSize = 0 then h265_ap_loop payload i
       else do {
         nalUnit \<leftarrow> go_slice payload i (i + nalSize);
         b0 \<leftarrow> go_at nalUnit 0;
         let nt = drop_bit 1 b0 AND 0x3F;
         if nt = 33 then Some nalUnit else h265_ap_loop payload (i + nalSize) } }
     else Some [])"
  by pat_completeness auto
termination by (relation "measure (\<lambda>(payload, i). length payload - i)") auto

declare h265_ap_loop.simps [simp del]

definition display_size :: "sps_error + SPSInfo \<Rightarrow> VideoSize" where
  "display_size res = (case res of
      Inl err \<Rightarrow> \<lparr>Width = 0, Height = 0\<rparr>
    | Inr info \<Rightarrow> \<lparr>Width = ucast (DisplayWidth info), Height = ucast (DisplayHeight info)\<rparr>)"

definition ExtractH265VideoSize :: "byte list \<Rightarrow> VideoSize option" where
  "ExtractH265VideoSize payload =
    (if length payload < 2 then Some \<lparr>Width = 0, Height = 0\<rparr>
     else do {
       b0 \<leftarrow> go_at payload 0;
       let nalType = drop_bit 1 b0 AND 0x3F;
       spsNalu \<leftarrow> (if nalType = 33 then Some payload
                   else if nalType = 48 then h265_ap_loop payload 2
                   else Some []);
       if length spsNalu > 0 then map_option display_size (parseH265SPS spsNalu)
       else Some \<lparr>Width = 0, Height = 0\<rparr> })"

section \<open>H.264\<close>

text \<open>A read whose error is ignored: the result is then the zero value.\<close>

definition ignoring :: "'a \<Rightarrow> 'a reading \<Rightarrow> ('a \<Rightarrow> BitReader \<Rightarrow> 'b reading) \<Rightarrow> 'b reading" where
  "ignoring zero m f = do { (r, br) \<leftarrow> m; case r of Inl e \<Rightarrow> f zero br | Inr x \<Rightarrow> f x br }"

fun skip_flags :: "nat \<Rightarrow> BitReader \<Rightarrow> unit reading" where
  "skip_flags 0 br = Some (Inr (), br)"
| "skip_flags (Suc n) br = ignoring False (ReadFlag br) (\<lambda>_ br. skip_flags n br)"

fun skip_se :: "nat \<Rightarrow> BitReader \<Rightarrow> unit reading" where
  "skip_se 0 br = Some (Inr (), br)"
| "skip_se (Suc n) br = ignoring 0 (ReadSE br) (\<lambda>_ br. skip_se n br)"

definition h264_chroma :: "u64 \<Rightarrow> BitReader \<Rightarrow> u64 reading" where
  "h264_chroma profileIDC br =
    (if profileIDC \<in> {100, 110, 122, 244, 44, 83, 86, 118, 128} then
       ignoring 0 (ReadUE br) (\<lambda>chromaFormatIDC br.
       ignoring False (if chromaFormatIDC = 3 then ReadFlag br else Some (Inr False, br)) (\<lambda>_ br.
       ignoring 0 (ReadUE br) (\<lambda>_ br.
       ignoring 0 (ReadUE br) (\<lambda>_ br.
       ignoring False (ReadFlag br) (\<lambda>_ br.
       ignoring False (ReadFlag br) (\<lambda>v br.
       ignoring () (if v then skip_flags 8 br else Some (Inr (), br)) (\<lambda>_ br.
       Some (Inr chromaFormatIDC, br))))))))
     else Some (Inr 1, br))"

definition h264_poc :: "BitReader \<Rightarrow> unit reading" where
  "h264_poc br =
    ignoring 0 (ReadUE br) (\<lambda>pocType br.
    if pocType = 0 then ignoring 0 (ReadUE br) (\<lambda>_ br. Some (Inr (), br))
    else if pocType = 1 then
      ignoring False (ReadFlag br) (\<lambda>_ br.
      ignoring 0 (ReadSE br) (\<lambda>_ br.
      ignoring 0 (ReadSE br) (\<lambda>_ br.
      ignoring 0 (ReadUE br) (\<lambda>cnt br.
      if cnt > 255 then Some (Inl TooManyRefFrames, br)
      else skip_se (unat cnt) br))))
    else Some (Inr (), br))"

definition h264_info :: "u64 \<Rightarrow> u64 \<Rightarrow> u64 \<Rightarrow> bool \<Rightarrow> u64 \<times> u64 \<times> u64 \<times> u64 \<Rightarrow> SPSInfo" where
  "h264_info chromaFormatIDC wMbs hMapUnits frameMbsOnly = (\<lambda>(cropLeft, cropRight, cropTop, cropBottom).
    let width = (wMbs + 1) * 16;
        height = (hMapUnits + 1) * 16;
        height = (if \<not> frameMbsOnly then height * 2 else height);
        subWidthC = getSubWidthC chromaFormatIDC;
        subHeightC = getSubHeightC chromaFormatIDC;
        (cropUnitX, cropUnitY) =
          (if chromaFormatIDC = 0 then (1, if \<not> frameMbsOnly then 2 else 1)
           else if \<not> frameMbsOnly then (subWidthC, subHeightC * 2)
           else (subWidthC, subHeightC))
    in \<lparr>ChromaFormatIDC = chromaFormatIDC, PicWidthInLumaSamples = width, PicHeightInLumaSamples = height,
        ConformanceWindowFlag = cropLeft + cropRight + cropTop + cropBottom > 0,
        ConfWinLeftOffset = cropLeft, ConfWinRightOffset = cropRight,
        ConfWinTopOffset = cropTop, ConfWinBottomOffset = cropBottom, CodedWidth = width, CodedHeight = height,
        DisplayWidth = cropped width (cropLeft + cropRight) cropUnitX,
        DisplayHeight = cropped height (cropTop + cropBottom) cropUnitY\<rparr>)"

definition h264_picture :: "u64 \<Rightarrow> BitReader \<Rightarrow> SPSInfo reading" where
  "h264_picture chromaFormatIDC br =
    ignoring 0 (ReadUE br) (\<lambda>_ br.
    ignoring False (ReadFlag br) (\<lambda>_ br.
    ignoring 0 (ReadUE br) (\<lambda>wMbs br.
    ignoring 0 (ReadUE br) (\<lambda>hMapUnits br.
    ignoring False (ReadFlag br) (\<lambda>frameMbsOnly br.
    ignoring False (if \<not> frameMbsOnly then ReadFlag br else Some (Inr False, br)) (\<lambda>_ br.
    ignoring False (ReadFlag br) (\<lambda>_ br.
    ignoring False (ReadFlag br) (\<lambda>frameCropping br.
    reading (if frameCropping then
        ignoring 0 (ReadUE br) (\<lambda>cropLeft br.
        ignoring 0 (ReadUE br) (\<lambda>cropRight br.
        ignoring 0 (ReadUE br) (\<lambda>cropTop br.
        ignoring 0 (ReadUE br) (\<lambda>cropBottom br. Some (Inr (cropLeft, cropRight, cropTop, cropBottom), br)))))
      else Some (Inr (0, 0, 0, 0), br)) (\<lambda>crop br.
    Some (Inr (h264_info chromaFormatIDC wMbs hMapUnits frameMbsOnly crop), br))))))))))"

definition h264_sps :: "BitReader \<Rightarrow> SPSInfo reading" where
  "h264_sps br =
    ignoring 0 (ReadBits br 8) (\<lambda>profileIDC br.
    ignoring 0 (ReadBits br 8) (\<lambda>_ br.
    ignoring 0 (ReadBits br 8) (\<lambda>_ br.
    ignoring 0 (ReadUE br) (\<lambda>_ br.
    reading (h264_chroma profileIDC br) (\<lambda>chromaFormatIDC br.
    ignoring 0 (ReadUE br) (\<lambda>_ br.
    reading (h264_poc br) (\<lambda>_ br.
    h264_picture chromaFormatIDC br)))))))"

definition parseH264SPS :: "byte list \<Rightarrow> (sps_error + SPSInfo) option" where
  "parseH264SPS nal =
    (if length nal < 1 then Some (Inl EmptySps)
     else
       let nal = stripStartCode nal in
       if length nal < 1 then Some (Inl EmptySpsAfterStartCode)
       else do {
         b0 \<leftarrow> go_at nal 0;
         let nalType = b0 AND 0x1F;
         if nalType \<noteq> 7 then Some (Inl (NotSps nalType))
         else do {
           rest \<leftarrow> go_from nal 1;
           let rbsp = removeEmulationPreventionBytes rest;
           map_option fst (h264_sps (NewBitReader rbsp)) } })"

function h264_stap_loop :: "byte list \<Rightarrow> nat \<Rightarrow> VideoSize option" where
  "h264_stap_loop payload offset =
    (if offset + 2 \<le> length payload then do {
       hi \<leftarrow> go_at payload offset;
       lo \<leftarrow> go_at payload (offset + 1);
       let naluSize = unat (push_bit 8 (ucast hi) OR ucast lo :: u64);
       let offset = offset + 2;
       if offset + naluSize > length payload then Some \<lparr>Width = 0, Height = 0\<rparr>
       else if naluSize = 0 then h264_stap_loop payload offset
       else do {
         nalu \<leftarrow> go_slice payload offset (offset + naluSize);
         b0 \<leftarrow> go_at nalu 0;
         if b0 AND 0x1F = 7 then map_option display_size (parseH264SPS nalu)
         else h264_stap_loop payload (offset + naluSize) } }
     else Some \<lparr>Width = 0, Height = 0\<rparr>)"
  by pat_completeness auto
termination by (relation "measure (\<lambda>(payload, offset). length payload - offset)") auto

declare h264_stap_loop.simps [simp del]

definition ExtractH264VideoSize :: "byte list \<Rightarrow> VideoSize option" where
  "ExtractH264VideoSize payload =
    (if length payload < 1 then Some \<lparr>Width = 0, Height = 0\<rparr>
     else do {
       b0 \<leftarrow> go_at payload 0;
       let nalType = b0 AND 0x1F;
       if nalType = 7 then map_option display_size (parseH264SPS payload)
       else if nalType = 28 then
         if length payload < 2 then Some \<lparr>Width = 0, Height = 0\<rparr>
         else do {
           b1 \<leftarrow> go_at payload 1;
           if b1 AND 0x80 = 0 then Some \<lparr>Width = 0, Height = 0\<rparr>
           else do {
             let nalHeader = b0 AND 0xE0 OR b1 AND 0x1F;
             rest \<leftarrow> go_from payload 2;
             map_option display_size (parseH264SPS (nalHeader # rest)) } }
       else if nalType = 24 then h264_stap_loop payload 1
       else if nalType = 25 then h264_stap_loop payload (1 + 2)
       else if nalType = 26 then h264_stap_loop payload (1 + 3)
       else if nalType = 27 then h264_stap_loop payload (1 + 4)
       else Some \<lparr>Width = 0, Height = 0\<rparr> })"

section \<open>Parsing always comes back\<close>

lemma reads_ignoring [reads_intros]:
  "reads m \<Longrightarrow> (\<And>x br. reader_ok br \<Longrightarrow> reads (f x br)) \<Longrightarrow> reads (ignoring z m f)"
  by (auto simp: reads_def ignoring_def split: sum.split)

lemma reads_prod [reads_intros]: "(\<And>a b. p = (a, b) \<Longrightarrow> reads (f a b br)) \<Longrightarrow> reads ((case p of (a, b) \<Rightarrow> f a b) br)"
  by (cases p) simp

lemma h265_nal_header_reads [reads_intros]: "reader_ok br \<Longrightarrow> reads (h265_nal_header br)"
  unfolding h265_nal_header_def by (intro reads_intros)

lemma sublayer_flags_reads [reads_intros]: "reader_ok br \<Longrightarrow> reads (sublayer_flags n br)"
  by (induction n arbitrary: br) (auto intro!: reads_intros)

lemma skip_reserved_reads [reads_intros]: "reader_ok br \<Longrightarrow> reads (skip_reserved n br)"
  by (induction n arbitrary: br) (auto intro!: reads_intros)

lemma skip_profile_reads [reads_intros]: "reader_ok br \<Longrightarrow> reads (skip_profile f br)"
  unfolding skip_profile_def by (intro reads_intros)

lemma skip_level_reads [reads_intros]: "reader_ok br \<Longrightarrow> reads (skip_level f br)"
  unfolding skip_level_def by (intro reads_intros)

lemma skip_sublayers_reads [reads_intros]: "reader_ok br \<Longrightarrow> reads (skip_sublayers fs br)"
  by (induction fs br rule: skip_sublayers.induct) (auto intro!: reads_intros)

lemma h265_profile_tier_level_reads [reads_intros]: "reader_ok br \<Longrightarrow> reads (h265_profile_tier_level br)"
  unfolding h265_profile_tier_level_def by (intro reads_intros)

lemma h265_picture_reads [reads_intros]: "reader_ok br \<Longrightarrow> reads (h265_picture br)"
  unfolding h265_picture_def by (intro reads_intros)

lemma reads_fst: "reads m \<Longrightarrow> \<exists>r. map_option fst m = Some r"
  by (auto simp: reads_def)

lemma parseH265SPS_total: "\<exists>res. parseH265SPS nal = Some res"
  unfolding parseH265SPS_def Let_def by (intro reads_fst reads_intros reader_ok_new)

lemma h265_ap_loop_total: "\<exists>nal. h265_ap_loop payload i = Some nal"
proof (induction payload i rule: h265_ap_loop.induct)
  case (1 payload i)
  show ?case by (subst h265_ap_loop.simps) (use 1 in \<open>auto simp: Let_def\<close>)
qed

lemma ExtractH265VideoSize_total: "\<exists>sz. ExtractH265VideoSize payload = Some sz"
proof (cases "length payload < 2")
  case False
  then have "go_at payload 0 = Some (payload ! 0)" by (intro go_at_Some) linarith
  moreover obtain nal where "h265_ap_loop payload 2 = Some nal" using h265_ap_loop_total by blast
  ultimately show ?thesis
    using parseH265SPS_total [of payload] parseH265SPS_total [of nal] False by (auto simp: ExtractH265VideoSize_def Let_def)
qed (simp add: ExtractH265VideoSize_def)

lemma skip_flags_reads [reads_intros]: "reader_ok br \<Longrightarrow> reads (skip_flags n br)"
  by (induction n arbitrary: br) (auto intro!: reads_intros)

lemma skip_se_reads [reads_intros]: "reader_ok br \<Longrightarrow> reads (skip_se n br)"
  by (induction n arbitrary: br) (auto intro!: reads_intros)

lemma h264_chroma_reads [reads_intros]: "reader_ok br \<Longrightarrow> reads (h264_chroma profileIDC br)"
  unfolding h264_chroma_def by (intro reads_intros)

lemma h264_poc_reads [reads_intros]: "reader_ok br \<Longrightarrow> reads (h264_poc br)"
  unfolding h264_poc_def by (intro reads_intros)

lemma h264_picture_reads [reads_intros]: "reader_ok br \<Longrightarrow> reads (h264_picture c br)"
  unfolding h264_picture_def by (intro reads_intros)

lemma h264_sps_reads [reads_intros]: "reader_ok br \<Longrightarrow> reads (h264_sps br)"
  unfolding h264_sps_def by (intro reads_intros)

lemma parseH264SPS_total: "\<exists>res. parseH264SPS nal = Some res"
proof -
  have "\<exists>r. map_option fst (h264_sps (NewBitReader rbsp)) = Some r" for rbsp by (intro reads_fst reads_intros reader_ok_new)
  then show ?thesis by (auto simp: parseH264SPS_def Let_def go_at_def go_from_def Suc_le_eq)
qed

lemma h264_stap_loop_total: "\<exists>sz. h264_stap_loop payload i = Some sz"
proof (induction payload i rule: h264_stap_loop.induct)
  case (1 payload i)
  have "\<exists>sz. map_option display_size (parseH264SPS nal) = Some sz" for nal using parseH264SPS_total [of nal] by auto
  then show ?case by (subst h264_stap_loop.simps) (use 1 in \<open>auto simp: Let_def\<close>)
qed

lemma ExtractH264VideoSize_total: "\<exists>sz. ExtractH264VideoSize payload = Some sz"
proof -
  have "\<exists>sz. map_option display_size (parseH264SPS nal) = Some sz" for nal using parseH264SPS_total [of nal] by auto
  then show ?thesis
    using h264_stap_loop_total [of payload]
    by (auto simp: ExtractH264VideoSize_def Let_def go_at_def go_from_def simp del: map_option_eq_Some)
qed

end
