(* ===== verification/Nal.thy ===== *)
theory Nal
  imports Go_Prelude
begin

text \<open>
  How H.264 and H.265 packets aggregate NAL units: each behind its length, two bytes big-endian. Shared by the
  theories on picture sizes and on key frames.
\<close>

definition len16 :: "nat \<Rightarrow> byte list" where
  "len16 n = [ucast (drop_bit 8 (of_nat n :: u64)), ucast (of_nat n :: u64)]"

definition aggregate :: "byte list list \<Rightarrow> byte list" where
  "aggregate nals = concat (map (\<lambda>n. len16 (length n) @ n) nals)"

lemma len16_word:
  assumes "\<And>k. bit v k \<Longrightarrow> k < 16" and n: "16 \<le> LENGTH('a)"
  shows "push_bit 8 (ucast (ucast (drop_bit 8 v) :: byte)) OR ucast (ucast v :: byte) = (ucast (v :: u64) :: 'a::len word)"
proof (rule bit_word_eqI)
  fix k assume "k < LENGTH('a)"
  then show "bit (push_bit 8 (ucast (ucast (drop_bit 8 v) :: byte)) OR ucast (ucast v :: byte) :: 'a word) k = bit (ucast v :: 'a word) k"
    using assms(1) [of k] n by (cases "k < 8") (auto simp: bit_simps)
qed

lemma len16_val:
  assumes "n < 65536"
  shows "unat (push_bit 8 (ucast (ucast (drop_bit 8 (of_nat n :: u64)) :: byte)) OR ucast (ucast (of_nat n :: u64) :: byte) :: u64) = n"
    "unat (push_bit 8 (ucast (ucast (drop_bit 8 (of_nat n :: u64)) :: byte)) OR ucast (ucast (of_nat n :: u64) :: byte) :: u16) = n"
proof -
  have un: "unat (of_nat n :: u64) = n" using assms by (simp add: unsigned_of_nat take_bit_nat_eq_self)
  then have "(of_nat n :: u64) < 2 ^ 16" using assms by (simp add: word_less_nat_alt)
  note small = bit_less_exp [OF this]
  show "unat (push_bit 8 (ucast (ucast (drop_bit 8 (of_nat n :: u64)) :: byte)) OR ucast (ucast (of_nat n :: u64) :: byte) :: u64) = n"
    using len16_word [of "of_nat n", where 'a = 64] small un by simp
  have "unat (ucast (of_nat n :: u64) :: u16) = n" using un assms by (simp add: unsigned_ucast_eq take_bit_nat_eq_self)
  then show "unat (push_bit 8 (ucast (ucast (drop_bit 8 (of_nat n :: u64)) :: byte)) OR ucast (ucast (of_nat n :: u64) :: byte) :: u16) = n"
    using len16_word [of "of_nat n", where 'a = 16] small by simp
qed

lemma aggregate_simps [simp]: "aggregate [] = []" "aggregate (n # ns) = len16 (length n) @ n @ aggregate ns" "length (len16 k) = 2"
  by (simp_all add: aggregate_def len16_def)

definition hevc_type :: "byte list \<Rightarrow> byte" where
  "hevc_type n = drop_bit 1 (hd n) AND 0x3F"

end
