(* ===== verification/Sps_Written.thy ===== *)
theory Sps_Written
  imports Sps Nal
begin

text \<open>
  Parameter sets written field by field and read back. \<open>parses p bs x\<close> says that the parser \<open>p\<close> consumes
  exactly the bits \<open>bs\<close> and yields \<open>x\<close>; the rules in \<open>parses_intros\<close> follow the structure of the parsers.
  The last part puts NAL units into the RTP payloads the extraction functions take apart.
\<close>

section \<open>Parsing what was written\<close>

text \<open>A parser consumes exactly the bits \<open>bs\<close> and yields \<open>x\<close>.\<close>

definition parses :: "(BitReader \<Rightarrow> 'a reading) \<Rightarrow> bool list \<Rightarrow> 'a \<Rightarrow> bool" where
  "parses p bs x \<longleftrightarrow> (\<forall>br rest. reader_ok br \<longrightarrow> view br = bs @ rest \<longrightarrow> p br = Some (Inr x, advance br (length bs)))"

named_theorems parses_intros "parsers and the bits they consume"

lemma parses_end: "parses (\<lambda>br. Some (Inr x, br)) [] x"
  by (simp add: parses_def)

lemma parses_then: "parses p bs x \<Longrightarrow> parses (f x) cs y \<Longrightarrow> parses (\<lambda>br. reading (p br) f) (bs @ cs) y"
  and parses_ignoring: "parses p bs x \<Longrightarrow> parses (f x) cs y \<Longrightarrow> parses (\<lambda>br. ignoring z (p br) f) (bs @ cs) y"
  by (auto simp: parses_def reading_def ignoring_def reader_ok_advance)

lemma parses_if: "(c \<Longrightarrow> parses p bs x) \<Longrightarrow> (\<not> c \<Longrightarrow> parses q cs x) \<Longrightarrow> parses (\<lambda>br. if c then p br else q br) (if c then bs else cs) x"
  by (simp add: parses_def)

lemma parses_bits: "int (length xs) = n \<Longrightarrow> parses (\<lambda>br. ReadBits br n) xs (bits_val xs)"
  by (auto simp: parses_def ReadBits_view)

lemma parses_field: "int n = k \<Longrightarrow> parses (\<lambda>br. ReadBits br k) (to_bits n v) (take_bit n v)"
  using parses_bits [of "to_bits n v" k] by simp

lemma parses_flag: "parses ReadFlag [b] b"
  by (simp add: parses_def ReadFlag_view)

lemma parses_ue: "v + 1 < 2 ^ 64 \<Longrightarrow> parses ReadUE (ue_bits v) (of_nat v)"
  by (simp add: parses_def ReadUE_view)

lemma parses_se: "\<bar>k\<bar> < 2 ^ 61 \<Longrightarrow> parses ReadSE (se_bits k) k"
  by (simp add: parses_def ReadSE_view)

lemma parses_nil: "parses p (bs @ []) x \<Longrightarrow> parses p bs x"
  by simp

lemma parses_opt_flag: "(c \<longleftrightarrow> d) \<Longrightarrow> parses (\<lambda>br. if c then ReadFlag br else Some (Inr False, br)) (if d then [b] else []) (d \<and> b)"
  by (cases d) (simp_all add: parses_flag parses_end)

lemmas parses_then_field [parses_intros] = parses_then [OF parses_field]
lemmas parses_then_flag [parses_intros] = parses_then [OF parses_flag]
lemmas parses_then_ue [parses_intros] = parses_then [OF parses_ue]
lemmas parses_then_opt_flag [parses_intros] = parses_then [OF parses_opt_flag]
lemmas parses_ignoring_field [parses_intros] = parses_ignoring [OF parses_field]
lemmas parses_ignoring_flag [parses_intros] = parses_ignoring [OF parses_flag]
lemmas parses_ignoring_ue [parses_intros] = parses_ignoring [OF parses_ue]
lemmas parses_ignoring_se [parses_intros] = parses_ignoring [OF parses_se]
lemmas parses_ignoring_opt_flag [parses_intros] = parses_ignoring [OF parses_opt_flag]
declare parses_end [parses_intros]

subsection \<open>H.265\<close>

type_synonym window = "nat \<times> nat \<times> nat \<times> nat"

record hevc_sps =
  hs_layer :: u64
  hs_tid :: u64
  hs_vps :: u64
  hs_nesting :: bool
  hs_general :: "u64 \<times> u64 \<times> u64 \<times> u64 \<times> u64"
  hs_sublayers :: "((u64 \<times> u64 \<times> u64) option \<times> u64 option) list"
  hs_id :: nat
  hs_chroma :: nat
  hs_separate :: bool
  hs_width :: nat
  hs_height :: nat
  hs_window :: "window option"

fun profile_bits :: "(u64 \<times> u64 \<times> u64) option \<Rightarrow> bool list" where
  "profile_bits None = []"
| "profile_bits (Some (a, b, c)) = to_bits 8 a @ to_bits 32 b @ to_bits 48 c"

fun level_bits :: "u64 option \<Rightarrow> bool list" where
  "level_bits None = []"
| "level_bits (Some a) = to_bits 8 a"

fun window_bits :: "window option \<Rightarrow> bool list" where
  "window_bits None = [False]"
| "window_bits (Some (l, r, t, b)) = True # ue_bits l @ ue_bits r @ ue_bits t @ ue_bits b"

definition hevc_header_bits :: "hevc_sps \<Rightarrow> bool list" where
  "hevc_header_bits s = to_bits 1 0 @ to_bits 6 33 @ to_bits 6 (hs_layer s) @ to_bits 3 (hs_tid s)"

definition hevc_ptl_bits :: "hevc_sps \<Rightarrow> bool list" where
  "hevc_ptl_bits s = (case hs_general s of (a, b, c, d, e) \<Rightarrow>
     to_bits 4 (hs_vps s) @ to_bits 3 (of_nat (length (hs_sublayers s))) @ [hs_nesting s] @
     to_bits 8 a @ to_bits 32 b @ to_bits 16 c @ to_bits 32 d @ to_bits 8 e @
     concat (map (\<lambda>(p, l). [p \<noteq> None, l \<noteq> None]) (hs_sublayers s)) @
     replicate (if hs_sublayers s = [] then 0 else 2 * (8 - length (hs_sublayers s))) False @
     concat (map (\<lambda>(p, l). profile_bits p @ level_bits l) (hs_sublayers s)))"

definition hevc_picture_bits :: "hevc_sps \<Rightarrow> bool list" where
  "hevc_picture_bits s = ue_bits (hs_id s) @ ue_bits (hs_chroma s) @ (if hs_chroma s = 3 then [hs_separate s] else []) @
     ue_bits (hs_width s) @ ue_bits (hs_height s) @ window_bits (hs_window s)"

definition hevc_bits :: "hevc_sps \<Rightarrow> bool list" where
  "hevc_bits s = hevc_header_bits s @ hevc_ptl_bits s @ hevc_picture_bits s"

definition small :: "nat \<Rightarrow> bool" where "small n \<longleftrightarrow> n < 2 ^ 31"

fun window_small :: "window option \<Rightarrow> bool" where
  "window_small None = True"
| "window_small (Some (l, r, t, b)) = (small l \<and> small r \<and> small t \<and> small b)"

definition hevc_wf :: "hevc_sps \<Rightarrow> bool" where
  "hevc_wf s \<longleftrightarrow> length (hs_sublayers s) \<le> 7 \<and> small (hs_id s) \<and> small (hs_chroma s) \<and> small (hs_width s) \<and> small (hs_height s)
     \<and> window_small (hs_window s)"

text \<open>The size shown, in whole numbers.\<close>

definition chroma_width :: "nat \<Rightarrow> nat" where "chroma_width c = (if c = 1 \<or> c = 2 then 2 else 1)"
definition chroma_height :: "nat \<Rightarrow> nat" where "chroma_height c = (if c = 1 then 2 else 1)"

definition hevc_display :: "hevc_sps \<Rightarrow> nat \<times> nat" where
  "hevc_display s = (case hs_window s of None \<Rightarrow> (hs_width s, hs_height s)
     | Some (l, r, t, b) \<Rightarrow> (hs_width s - (l + r) * chroma_width (hs_chroma s), hs_height s - (t + b) * chroma_height (hs_chroma s)))"

lemma small_ue: "small v \<Longrightarrow> v + 1 < 2 ^ 64"
  by (simp add: small_def)

lemma parses_header: "parses h265_nal_header (hevc_header_bits s) ()"
  unfolding h265_nal_header_def [abs_def] hevc_header_bits_def
  by (rule parses_nil, simp only: append_assoc, intro parses_intros) (simp_all add: parses_end)

lemma parses_profile: "parses (skip_profile (p \<noteq> None)) (profile_bits p) ()"
proof (cases p)
  case None
  then show ?thesis by (simp add: skip_profile_def [abs_def] parses_end)
next
  case (Some a)
  obtain x y z where a: "a = (x, y, z)" by (cases a) auto
  show ?thesis
    unfolding skip_profile_def [abs_def] Some a profile_bits.simps
    by (simp only: if_True option.simps not_False_eq_True simp_thms, rule parses_nil, simp only: append_assoc, intro parses_intros) simp_all
qed

lemma parses_level: "parses (skip_level (l \<noteq> None)) (level_bits l) ()"
  by (cases l) (auto simp: skip_level_def [abs_def] intro!: parses_end parses_nil [OF parses_then_field])

lemma parses_sublayers:
  "parses (skip_sublayers (map (\<lambda>(p, l). (p \<noteq> None, l \<noteq> None)) ls)) (concat (map (\<lambda>(p, l). profile_bits p @ level_bits l) ls)) ()"
proof (induction ls)
  case Nil
  then show ?case by (simp add: parses_end)
next
  case (Cons pl ls)
  obtain p l where pl: "pl = (p, l)" by (cases pl)
  show ?case using parses_then [OF parses_profile [of p] parses_then [OF parses_level [of l] Cons.IH]] by (simp add: pl)
qed

lemma parses_flags:
  "parses (sublayer_flags (length ls)) (concat (map (\<lambda>(p, l). [p \<noteq> None, l \<noteq> None]) ls)) (map (\<lambda>(p, l). (p \<noteq> None, l \<noteq> None)) ls)"
proof (induction ls)
  case Nil
  then show ?case by (simp add: parses_end)
next
  case (Cons pl ls)
  obtain p l where pl: "pl = (p, l)" by (cases pl)
  show ?case
    using parses_then [OF parses_flag [of "p \<noteq> None"] parses_then [OF parses_flag [of "l \<noteq> None"] parses_then [OF Cons.IH parses_end]]]
    by (simp add: pl del: not_None_eq)
qed

lemma parses_reserved: "parses (skip_reserved n) (replicate (2 * n) False) ()"
proof (induction n)
  case 0
  then show ?case by (simp add: parses_end)
next
  case (Suc n)
  show ?case using parses_then [OF parses_bits [of "[False, False]" 2] Suc.IH] by simp
qed

lemma take_bit_3_small: "n \<le> 7 \<Longrightarrow> take_bit 3 (of_nat n :: u64) = of_nat n"
proof -
  assume "n \<le> 7"
  then have "n \<in> set [0..<8]" by simp
  then show ?thesis by (simp add: upt_rec) auto
qed

lemma parses_ptl:
  assumes "length (hs_sublayers s) \<le> 7"
  shows "parses h265_profile_tier_level (hevc_ptl_bits s) ()"
proof -
  let ?n = "length (hs_sublayers s)"
  obtain a b c d e where g: "hs_general s = (a, b, c, d, e)" by (cases "hs_general s")
  have n: "unat (of_nat ?n :: u64) = ?n" "(of_nat ?n > (0 :: u64)) = (hs_sublayers s \<noteq> [])"
    using assms by (simp_all add: unsigned_of_nat take_bit_nat_eq_self word_less_nat_alt)
  have res: "parses (\<lambda>br. if (of_nat ?n :: u64) > 0 then skip_reserved (8 - ?n) br else Some (Inr (), br))
     (replicate (if hs_sublayers s = [] then 0 else 2 * (8 - ?n)) False) ()"
    using parses_reserved [of "8 - ?n"] by (auto simp: n parses_end)
  have nest: "parses (\<lambda>br. ReadBits br 1) [hs_nesting s] (bits_val [hs_nesting s])" by (rule parses_bits) simp
  show ?thesis
    unfolding h265_profile_tier_level_def [abs_def] hevc_ptl_bits_def g prod.case
    by (intro parses_then_field parses_then [OF nest], simp_all only: take_bit_3_small [OF assms] n(1))
      (rule parses_then [OF parses_flags], rule parses_then [OF res], rule parses_sublayers)
qed

lemma small_cropped:
  assumes "small w" "c < 2 ^ 32" "u \<le> 4"
  shows "cropped (of_nat w) (of_nat c) (of_nat u) = of_nat (w - c * u)"
proof -
  have g: "go_int (of_nat n :: u64) = int n" if "n < 2 ^ 32" for n using that by (intro go_int_of_nat) simp
  have "int c * int u \<le> int c * 4" using assms(3) by (intro mult_left_mono) simp_all
  then have cu: "int c * int u < 17179869184" using assms(2) by simp
  have "0 \<le> int c * int u" by simp
  note cu = cu this
  have w: "w < 2147483648" using assms(1) by (simp add: small_def)
  have "wrap64 (int c * int u) = int c * int u" by (rule wrap64_id) (use cu in linarith)+
  moreover have "wrap64 (int w - int c * int u) = int w - int c * int u" by (rule wrap64_id) (use cu w in linarith)+
  moreover have "(word_of_int (if int w - int c * int u < 0 then 0 else int w - int c * int u) :: u64) = of_nat (w - c * u)"
  proof (cases "c * u \<le> w")
    case True
    then show ?thesis by (simp add: of_nat_diff flip: of_nat_mult)
  next
    case False
    then have "int w < int c * int u" by (simp flip: of_nat_mult)
    then show ?thesis using False by simp
  qed
  ultimately show ?thesis using w assms(2,3) by (simp add: cropped_def g Let_def)
qed

lemma small_word_eq: "m < 2 ^ 64 \<Longrightarrow> n < 2 ^ 64 \<Longrightarrow> (of_nat m = (of_nat n :: u64)) = (m = n)"
proof -
  assume "m < 2 ^ 64" "n < 2 ^ 64"
  then have "unat (of_nat m :: u64) = m" "unat (of_nat n :: u64) = n" by (simp_all add: unsigned_of_nat take_bit_nat_eq_self)
  then show ?thesis by metis
qed

lemma chroma_units:
  assumes "small c"
  shows "getSubWidthC (of_nat c) = of_nat (chroma_width c)" "getSubHeightC (of_nat c) = of_nat (chroma_height c)"
    "((of_nat c :: u64) = 3) = (c = 3)" "((of_nat c :: u64) = 0) = (c = 0)"
proof -
  have c: "((of_nat c :: u64) = of_nat k) = (c = k)" if "k < 10" for k
    using assms that by (intro small_word_eq) (simp_all add: small_def)
  show "getSubWidthC (of_nat c) = of_nat (chroma_width c)" "getSubHeightC (of_nat c) = of_nat (chroma_height c)"
    "((of_nat c :: u64) = 3) = (c = 3)" "((of_nat c :: u64) = 0) = (c = 0)"
    using c [of 1] c [of 2] c [of 3] c [of 0] by (auto simp: getSubWidthC_def getSubHeightC_def chroma_width_def chroma_height_def)
qed

lemma parses_window:
  assumes "window_small w"
  shows "parses (\<lambda>br. if w \<noteq> None then
        reading (ReadUE br) (\<lambda>l br. reading (ReadUE br) (\<lambda>r br. reading (ReadUE br) (\<lambda>t br.
        reading (ReadUE br) (\<lambda>b br. Some (Inr (l, r, t, b), br)))))
      else Some (Inr (0, 0, 0, 0), br)) (tl (window_bits w))
      (case w of None \<Rightarrow> (0, 0, 0, 0) | Some (l, r, t, b) \<Rightarrow> (of_nat l, of_nat r, of_nat t, of_nat b))"
proof (cases w)
  case None
  then show ?thesis by (simp add: parses_end)
next
  case (Some a)
  obtain l r t b where a: "a = (l, r, t, b)" by (cases a)
  have sm: "l + 1 < 2 ^ 64" "r + 1 < 2 ^ 64" "t + 1 < 2 ^ 64" "b + 1 < 2 ^ 64"
    using assms small_ue unfolding Some a window_small.simps by blast+
  have "parses (\<lambda>br. reading (ReadUE br) (\<lambda>l br. reading (ReadUE br) (\<lambda>r br. reading (ReadUE br) (\<lambda>t br.
        reading (ReadUE br) (\<lambda>b br. Some (Inr (l, r, t, b), br))))))
      (ue_bits l @ ue_bits r @ ue_bits t @ ue_bits b) (of_nat l, of_nat r, of_nat t, of_nat b)"
    by (rule parses_nil, simp only: append_assoc, intro parses_intros sm)
  then show ?thesis by (simp add: Some a)
qed

definition hevc_info :: "hevc_sps \<Rightarrow> SPSInfo \<Rightarrow> bool" where
  "hevc_info s info \<longleftrightarrow> ChromaFormatIDC info = of_nat (hs_chroma s) \<and>
     CodedWidth info = of_nat (hs_width s) \<and> CodedHeight info = of_nat (hs_height s) \<and>
     ConformanceWindowFlag info = (hs_window s \<noteq> None) \<and>
     DisplayWidth info = of_nat (fst (hevc_display s)) \<and> DisplayHeight info = of_nat (snd (hevc_display s))"

lemma window_bits_cons: "window_bits w = [w \<noteq> None] @ tl (window_bits w)"
  by (cases w rule: window_bits.cases) simp_all

lemma parses_picture:
  assumes "hevc_wf s"
  shows "\<exists>info. parses h265_picture (hevc_picture_bits s) info \<and> hevc_info s info"
proof -
  note wf = assms [unfolded hevc_wf_def]
  have ue: "hs_id s + 1 < 2 ^ 64" "hs_chroma s + 1 < 2 ^ 64" "hs_width s + 1 < 2 ^ 64" "hs_height s + 1 < 2 ^ 64"
    using wf small_ue by blast+
  have c: "small (hs_chroma s)" and win: "window_small (hs_window s)" using wf by auto
  have bits: "hevc_picture_bits s = ue_bits (hs_id s) @ ue_bits (hs_chroma s) @ (if hs_chroma s = 3 then [hs_separate s] else []) @
     ue_bits (hs_width s) @ ue_bits (hs_height s) @ [hs_window s \<noteq> None] @ tl (window_bits (hs_window s)) @ []"
    using window_bits_cons [of "hs_window s"] by (simp add: hevc_picture_bits_def)
  show ?thesis
  proof (cases "hs_window s")
    case None
    show ?thesis
      unfolding h265_picture_def [abs_def] bits
      by (intro exI conjI, rule parses_then_ue [OF ue(1)], rule parses_then_ue [OF ue(2)],
          rule parses_then_opt_flag [OF chroma_units(3) [OF c]], rule parses_then_ue [OF ue(3)], rule parses_then_ue [OF ue(4)],
          rule parses_then_flag, rule parses_then [OF parses_window [OF win]],
          simp only: None option.case prod.case Let_def, rule parses_end)
        (simp add: hevc_info_def hevc_display_def None)
  next
    case (Some a)
    obtain l r t b where a: "a = (l, r, t, b)" by (cases a)
    have sm: "l + r < 2 ^ 32" "t + b < 2 ^ 32" using win by (simp_all add: Some a small_def)
    have u: "chroma_width n \<le> 4" "chroma_height n \<le> 4" for n by (simp_all add: chroma_width_def chroma_height_def)
    have sz: "small (hs_width s)" "small (hs_height s)" using wf by auto
    show ?thesis
      unfolding h265_picture_def [abs_def] bits
      by (intro exI conjI, rule parses_then_ue [OF ue(1)], rule parses_then_ue [OF ue(2)],
          rule parses_then_opt_flag [OF chroma_units(3) [OF c]], rule parses_then_ue [OF ue(3)], rule parses_then_ue [OF ue(4)],
          rule parses_then_flag, rule parses_then [OF parses_window [OF win]],
          simp only: Some a option.case prod.case Let_def, rule parses_end)
        (simp add: hevc_info_def hevc_display_def Some a chroma_units [OF c] small_cropped [OF sz(1) sm(1) u(1)]
          small_cropped [OF sz(2) sm(2) u(2)] flip: of_nat_add)
  qed
qed


subsection \<open>The whole parameter set\<close>

lemma parses_run:
  "parses p bs x \<Longrightarrow> bits_of rbsp = bs @ rest \<Longrightarrow> map_option fst (p (NewBitReader rbsp)) = Some (Inr x)"
  by (simp add: parses_def)

text \<open>A start code, or none.\<close>

definition start_code :: "byte list \<Rightarrow> bool" where
  "start_code c \<longleftrightarrow> c \<in> {[], [0, 0, 1], [0, 0, 0, 1]}"

lemma stripStartCode_strip: "start_code c \<Longrightarrow> b \<noteq> 0 \<Longrightarrow> stripStartCode (c @ b # bs) = b # bs"
  by (auto simp: start_code_def stripStartCode_def)

lemma escape_first: "\<exists>bs'. escape 0 (b # bs) = b # bs'"
  by simp

lemma parseH265SPS_written:
  assumes wf: "hevc_wf s" and bits: "bits_of rbsp = hevc_bits s @ rest" and c: "start_code c"
  shows "\<exists>info. parseH265SPS (c @ escape 0 rbsp) = Some (Inr info) \<and> hevc_info s info"
proof -
  obtain info where info: "parses h265_picture (hevc_picture_bits s) info" "hevc_info s info" using parses_picture [OF wf] by blast
  have ptl: "parses h265_profile_tier_level (hevc_ptl_bits s) ()" using wf by (intro parses_ptl) (simp add: hevc_wf_def)
  have all: "parses (\<lambda>br. reading (h265_nal_header br) (\<lambda>_ br. reading (h265_profile_tier_level br) (\<lambda>_ br. h265_picture br)))
      (hevc_bits s) info"
    unfolding hevc_bits_def by (rule parses_then [OF parses_header], rule parses_then [OF ptl], rule info(1))
  obtain b bs where r: "rbsp = b # bs" using bits by (cases rbsp) (auto simp: bits_of_def hevc_bits_def hevc_header_bits_def to_bits_Suc numeral_eq_Suc)
  have "bits_of rbsp ! 1 = hevc_bits s ! 1" using bits by (simp add: nth_append hevc_bits_def hevc_header_bits_def)
  then have "bit b 6" by (simp add: r nth_bits_of hevc_bits_def hevc_header_bits_def nth_append) (simp add: to_bits_def rev_nth)
  then have b: "b \<noteq> 0" by auto
  obtain bs' where "escape 0 rbsp = b # bs'" using escape_first [of b bs] r by auto
  then have "stripStartCode (c @ escape 0 rbsp) = escape 0 rbsp" using stripStartCode_strip [OF c b] by simp
  then show ?thesis
    using parses_run [OF all bits] info(2) by (auto simp: parseH265SPS_def Let_def removeEmulation_escape)
qed

subsection \<open>Aggregation packets\<close>

text \<open>One round of the loop.\<close>

lemma h265_ap_loop_step:
  assumes "length n < 65536"
  shows "h265_ap_loop (pre @ aggregate (n # ns)) (length pre) =
    (if n = [] then h265_ap_loop ((pre @ len16 0) @ aggregate ns) (length (pre @ len16 0))
     else if hevc_type n = 33 then Some n
     else h265_ap_loop ((pre @ len16 (length n) @ n) @ aggregate ns) (length (pre @ len16 (length n) @ n)))"
proof -
  let ?p = "pre @ aggregate (n # ns)"
  have hi: "go_at ?p (length pre) = Some (ucast (drop_bit 8 (of_nat (length n) :: u64)))"
    and lo: "go_at ?p (length pre + 1) = Some (ucast (of_nat (length n) :: u64))"
    by (simp_all add: go_at_def nth_append len16_def)
  have sl: "go_slice ?p (length pre + 2) (length pre + 2 + length n) = Some n" by (simp add: go_slice_def len16_def)
  have le: "length pre + 2 \<le> length ?p" "\<not> length pre + 2 + length n > length ?p" by simp_all
  show ?thesis
    by (subst h265_ap_loop.simps, simp only: hi lo le if_True if_False Option.bind.bind_lunit Let_def len16_val [OF assms] sl)
      (cases n; simp add: hevc_type_def add.assoc)
qed

lemma h265_ap_loop_found:
  "\<forall>n \<in> set before. length n < 65536 \<and> (n \<noteq> [] \<longrightarrow> hevc_type n \<noteq> 33) \<Longrightarrow> nal \<noteq> [] \<Longrightarrow> hevc_type nal = 33 \<Longrightarrow> length nal < 65536 \<Longrightarrow>
   h265_ap_loop (pre @ aggregate (before @ nal # after)) (length pre) = Some nal"
proof (induction before arbitrary: pre)
  case Nil
  then show ?case by (simp add: h265_ap_loop_step del: aggregate_simps)
next
  case (Cons n ns)
  have ih: "h265_ap_loop (q @ aggregate (ns @ nal # after)) (length q) = Some nal" for q using Cons by simp
  show ?case using Cons.prems h265_ap_loop_step [of n pre "ns @ nal # after"] ih [of "pre @ len16 0"] ih [of "pre @ len16 (length n) @ n"]
    by (auto simp del: aggregate_simps append_assoc)
qed

lemma hevc_type_written:
  assumes "bits_of rbsp = hevc_bits s @ rest"
  shows "2 \<le> length rbsp \<and> drop_bit 1 (hd rbsp) AND 0x3F = (33 :: byte)"
proof -
  have "16 \<le> length (bits_of rbsp)" unfolding assms by (simp add: hevc_bits_def hevc_header_bits_def)
  then have l: "2 \<le> length rbsp" by simp
  then obtain b bs where r: "rbsp = b # bs" by (cases rbsp) auto
  have m: "(0x3F :: byte) = mask 6" by (simp add: mask_eq_exp_minus_1)
  have "bit (drop_bit 1 b AND 0x3F) k = bit (33 :: byte) k" if "k < 8" for k
  proof (cases "k < 6")
    case True
    have "bit b (k + 1) = bits_of rbsp ! (6 - k)" using True by (simp add: r nth_bits_of) 
    also have "\<dots> = to_bits 6 33 ! (5 - k)"
    proof -
      have k: "6 - k = Suc (5 - k)" "5 - k < 6" using True by linarith+
      show ?thesis unfolding k(1) assms using k(2) by (simp add: hevc_bits_def hevc_header_bits_def nth_append)
    qed
    also have "\<dots> = bit (33 :: u64) k" using True by (simp add: to_bits_def rev_nth)
    finally show ?thesis using True unfolding m by (simp add: bit_simps)
  next
    case False
    then have "k = 6 \<or> k = 7" using that by auto
    then show ?thesis unfolding m by (auto simp: bit_simps)
  qed
  then show ?thesis using l r by (auto intro: bit_word_eqI)
qed

lemma length_escape: "length bs \<le> length (escape z bs)"
  by (induction z bs rule: escape.induct) auto

lemma ucast_of_nat: "(ucast (of_nat n :: u64) :: u32) = of_nat n"
  by (rule word_unat_eq_iff [THEN iffD2]) (simp add: unsigned_ucast_eq unsigned_of_nat take_bit_take_bit)

text \<open>
  C17. The size of an H.265 picture, end to end: from a parameter set written field by field and escaped, alone in
  the payload or the first one in an aggregation packet, \<open>ExtractH265VideoSize\<close> returns the coded size less
  the conformance window in chroma units, never below zero.
\<close>

theorem h265_video_size:
  assumes wf: "hevc_wf s" and bits: "bits_of rbsp = hevc_bits s @ rest" and nal: "nal = escape 0 rbsp"
    and payload: "payload = nal \<or>
      (\<exists>b0 b1 before after. payload = b0 # b1 # aggregate (before @ nal # after) \<and> drop_bit 1 b0 AND 0x3F = 48 \<and> length nal < 65536 \<and>
        (\<forall>n \<in> set before. length n < 65536 \<and> (n \<noteq> [] \<longrightarrow> hevc_type n \<noteq> 33)))"
  shows "ExtractH265VideoSize payload =
    Some \<lparr>Width = of_nat (fst (hevc_display s)), Height = of_nat (snd (hevc_display s))\<rparr>"
proof -
  have t: "2 \<le> length rbsp" "drop_bit 1 (hd rbsp) AND 0x3F = (33 :: byte)" using hevc_type_written [OF bits] by auto
  obtain b bs where r: "rbsp = b # bs" using t(1) by (cases rbsp) auto
  obtain bs' where e: "nal = b # bs'" using escape_first [of b bs] by (auto simp: nal r)
  have ln: "2 \<le> length nal" using t(1) length_escape [of rbsp 0] by (simp add: nal)
  have tn: "hevc_type nal = 33" using t(2) by (simp add: hevc_type_def e r)
  obtain info where p: "parseH265SPS nal = Some (Inr info)" "hevc_info s info"
    using parseH265SPS_written [OF wf bits, of "[]"] by (auto simp: start_code_def nal)
  have sz: "map_option display_size (parseH265SPS nal) =
      Some \<lparr>Width = of_nat (fst (hevc_display s)), Height = of_nat (snd (hevc_display s))\<rparr>"
    using p by (simp add: display_size_def hevc_info_def ucast_of_nat)
  from payload show ?thesis
  proof (elim disjE exE conjE)
    assume "payload = nal"
    moreover have "bs' \<noteq> []" using ln by (auto simp: e)
    ultimately show ?thesis using sz tn by (simp add: ExtractH265VideoSize_def hevc_type_def e Let_def Suc_le_eq)
  next
    fix b0 b1 before after
    assume pl: "payload = b0 # b1 # aggregate (before @ nal # after)" and b0: "drop_bit 1 b0 AND 0x3F = 48" and l: "length nal < 65536"
      and before: "\<forall>n \<in> set before. length n < 65536 \<and> (n \<noteq> [] \<longrightarrow> hevc_type n \<noteq> 33)"
    have "h265_ap_loop payload 2 = Some nal"
      using h265_ap_loop_found [OF before _ tn l, of "[b0, b1]" after] e by (simp add: pl numeral_2_eq_2)
    moreover have "nal \<noteq> []" by (simp add: e)
    ultimately show ?thesis using sz b0 by (simp add: ExtractH265VideoSize_def pl Let_def del: map_option_eq_Some)
  qed
qed

section \<open>H.264 parameter sets\<close>

datatype poc = Poc0 nat | Poc1 bool int int "int list" | Poc2

text \<open>
  \<open>as_scaling\<close> is the scaling matrix: absent, or one entry per scaling list (eight, twelve for 4:4:4), each absent
  or the deltas coded for it.
\<close>

record avc_sps =
  as_profile :: u64
  as_constraints :: u64
  as_level :: u64
  as_id :: nat
  as_chroma :: nat
  as_separate :: bool
  as_luma :: nat
  as_chroma_depth :: nat
  as_bypass :: bool
  as_scaling :: "int list option list option"
  as_frame_num :: nat
  as_poc :: poc
  as_refs :: nat
  as_gaps :: bool
  as_mbs :: nat
  as_map_units :: nat
  as_frame_only :: bool
  as_adaptive :: bool
  as_direct :: bool
  as_crop :: "window option"

definition high_profiles :: "u64 set" where
  "high_profiles = {100, 110, 122, 244, 44, 83, 86, 118, 128}"

definition avc_high :: "avc_sps \<Rightarrow> bool" where
  "avc_high s \<longleftrightarrow> take_bit 8 (as_profile s) \<in> high_profiles"

fun poc_bits :: "poc \<Rightarrow> bool list" where
  "poc_bits (Poc0 n) = ue_bits 0 @ ue_bits n"
| "poc_bits (Poc1 f a b ks) = ue_bits 1 @ [f] @ se_bits a @ se_bits b @ ue_bits (length ks) @ concat (map se_bits ks)"
| "poc_bits Poc2 = ue_bits 2"

definition scaling_bits :: "int list option list option \<Rightarrow> bool list" where
  "scaling_bits m = (case m of
     None \<Rightarrow> [False]
   | Some ls \<Rightarrow> [True] @ concat (map (\<lambda>l. case l of None \<Rightarrow> [False] | Some deltas \<Rightarrow> [True] @ concat (map se_bits deltas)) ls))"

definition avc_chroma_bits :: "avc_sps \<Rightarrow> bool list" where
  "avc_chroma_bits s = (if avc_high s then
     ue_bits (as_chroma s) @ (if as_chroma s = 3 then [as_separate s] else []) @ ue_bits (as_luma s) @ ue_bits (as_chroma_depth s) @
     [as_bypass s] @ scaling_bits (as_scaling s) else [])"

definition avc_picture_bits :: "avc_sps \<Rightarrow> bool list" where
  "avc_picture_bits s = ue_bits (as_refs s) @ [as_gaps s] @ ue_bits (as_mbs s) @ ue_bits (as_map_units s) @ [as_frame_only s] @
     (if \<not> as_frame_only s then [as_adaptive s] else []) @ [as_direct s] @ window_bits (as_crop s)"

definition avc_bits :: "avc_sps \<Rightarrow> bool list" where
  "avc_bits s = to_bits 8 (as_profile s) @ to_bits 8 (as_constraints s) @ to_bits 8 (as_level s) @ ue_bits (as_id s) @
     avc_chroma_bits s @ ue_bits (as_frame_num s) @ poc_bits (as_poc s) @ avc_picture_bits s"

fun poc_wf :: "poc \<Rightarrow> bool" where
  "poc_wf (Poc0 n) = small n"
| "poc_wf (Poc1 f a b ks) = (\<bar>a\<bar> < 2 ^ 31 \<and> \<bar>b\<bar> < 2 ^ 31 \<and> length ks \<le> 255 \<and> (\<forall>k \<in> set ks. \<bar>k\<bar> < 2 ^ 31))"
| "poc_wf Poc2 = True"

definition avc_wf :: "avc_sps \<Rightarrow> bool" where
  "avc_wf s \<longleftrightarrow> small (as_id s) \<and> small (as_chroma s) \<and> small (as_luma s) \<and> small (as_chroma_depth s) \<and> small (as_frame_num s) \<and>
     poc_wf (as_poc s) \<and> small (as_refs s) \<and> as_mbs s < 2 ^ 24 \<and> as_map_units s < 2 ^ 24 \<and> window_small (as_crop s)"

text \<open>
  The code steps over the scaling matrix as eight single flags. That fits a set without one, and one with eight
  lists all absent; a list that is present, or the twelve flags of a 4:4:4 set, it takes for the fields that follow.
\<close>

definition scaling_skipped :: "avc_sps \<Rightarrow> bool" where
  "scaling_skipped s \<longleftrightarrow> (avc_high s \<longrightarrow> as_scaling s = None \<or> as_chroma s \<noteq> 3 \<and> as_scaling s = Some (replicate 8 None))"

text \<open>The size shown: macroblocks less the crop, in units that double vertically for fields.\<close>

definition avc_chroma :: "avc_sps \<Rightarrow> nat" where "avc_chroma s = (if avc_high s then as_chroma s else 1)"

definition avc_display :: "avc_sps \<Rightarrow> nat \<times> nat" where
  "avc_display s =
    (let fields = (if as_frame_only s then 1 else 2);
         w = (as_mbs s + 1) * 16;
         h = (as_map_units s + 1) * 16 * fields
     in case as_crop s of
          None \<Rightarrow> (w, h)
        | Some (l, r, t, b) \<Rightarrow> (w - (l + r) * chroma_width (avc_chroma s), h - (t + b) * (chroma_height (avc_chroma s) * fields)))"

lemma parses_skip_se: "\<forall>k \<in> set ks. \<bar>k\<bar> < 2 ^ 31 \<Longrightarrow> parses (skip_se (length ks)) (concat (map se_bits ks)) ()"
proof (induction ks)
  case Nil
  then show ?case by (simp add: parses_end)
next
  case (Cons k ks)
  then have k: "\<bar>k\<bar> < 2 ^ 61" and ks: "parses (skip_se (length ks)) (concat (map se_bits ks)) ()" by auto
  show ?case using parses_ignoring_se [OF k ks] by simp
qed

lemma parses_poc:
  assumes "poc_wf p"
  shows "parses h264_poc (poc_bits p) ()"
proof (cases p)
  case (Poc0 n)
  have n: "n + 1 < 2 ^ 64" "(0 :: nat) + 1 < 2 ^ 64" using assms small_ue by (simp_all add: Poc0)
  show ?thesis unfolding h264_poc_def [abs_def] Poc0 poc_bits.simps
    by (rule parses_ignoring_ue [OF n(2)]) (simp, rule parses_nil, rule parses_ignoring_ue [OF n(1)], rule parses_end)
next
  case (Poc1 f a b ks)
  have one: "(1 :: nat) + 1 < 2 ^ 64" by simp
  have ab: "\<bar>a\<bar> < 2 ^ 61" "\<bar>b\<bar> < 2 ^ 61" "length ks + 1 < 2 ^ 64" "\<forall>k \<in> set ks. \<bar>k\<bar> < 2 ^ 31" "length ks < 256"
    using assms by (simp_all add: Poc1)
  have cnt: "unat (of_nat (length ks) :: u64) = length ks" "\<not> (of_nat (length ks) :: u64) > 255"
    using ab(5) by (simp_all add: unsigned_of_nat take_bit_nat_eq_self word_less_nat_alt)
  show ?thesis unfolding h264_poc_def [abs_def] Poc1 poc_bits.simps
    by (rule parses_ignoring_ue [OF one], simp only: of_nat_1 one_neq_zero if_False if_True simp_thms, rule parses_ignoring_flag,
        rule parses_ignoring_se [OF ab(1)], rule parses_ignoring_se [OF ab(2)], rule parses_ignoring_ue [OF ab(3)],
        simp only: cnt if_False, rule parses_skip_se [OF ab(4)])
next
  case Poc2
  have two: "(2 :: nat) + 1 < 2 ^ 64" by simp
  show ?thesis unfolding h264_poc_def [abs_def] Poc2 poc_bits.simps
    by (rule parses_nil, rule parses_ignoring_ue [OF two]) (simp add: parses_end)
qed

lemma parses_skip_flags: "parses (skip_flags n) (replicate n b) ()"
proof (induction n)
  case 0
  then show ?case by (simp add: parses_end)
next
  case (Suc n)
  then show ?case using parses_ignoring [OF parses_flag [of b] Suc] by simp
qed

lemma parses_scaling:
  assumes "m = None \<or> m = Some (replicate 8 None)"
  shows "parses (\<lambda>br. ignoring False (ReadFlag br) (\<lambda>v br. ignoring () (if v then skip_flags 8 br else Some (Inr (), br)) (\<lambda>_ br.
    Some (Inr x, br)))) (scaling_bits m) x"
proof (cases m)
  case None
  show ?thesis
    unfolding None scaling_bits_def option.case by (rule parses_nil, rule parses_ignoring_flag) (simp add: ignoring_def parses_end)
next
  case (Some ls)
  have "concat (map (\<lambda>l. case l of None \<Rightarrow> [False] | Some deltas \<Rightarrow> [True] @ concat (map se_bits deltas)) (replicate n None)) =
      replicate n False" for n by (induction n) simp_all
  then have b: "scaling_bits m = [True] @ replicate 8 False @ []" using assms Some by (simp add: scaling_bits_def)
  show ?thesis unfolding b
    by (rule parses_ignoring_flag, rule parses_ignoring [where x = "()"], simp only: if_True, rule parses_skip_flags, rule parses_end)
qed

lemma parses_chroma:
  assumes "avc_wf s" and skipped: "scaling_skipped s"
  shows "parses (h264_chroma (take_bit 8 (as_profile s))) (avc_chroma_bits s) (of_nat (avc_chroma s))"
proof (cases "avc_high s")
  case False
  then show ?thesis
    unfolding h264_chroma_def [abs_def] avc_chroma_bits_def avc_chroma_def avc_high_def high_profiles_def by (simp add: parses_end)
next
  case True
  have c: "small (as_chroma s)" and ue: "as_chroma s + 1 < 2 ^ 64" "as_luma s + 1 < 2 ^ 64" "as_chroma_depth s + 1 < 2 ^ 64"
    using assms small_ue unfolding avc_wf_def by blast+
  have sc: "as_scaling s = None \<or> as_scaling s = Some (replicate 8 None)" using skipped True by (auto simp: scaling_skipped_def)
  have p: "take_bit 8 (as_profile s) \<in> {100, 110, 122, 244, 44, 83, 86, 118, 128}"
    using True unfolding avc_high_def high_profiles_def .
  show ?thesis
    unfolding h264_chroma_def [abs_def] avc_chroma_bits_def avc_chroma_def if_P [OF True] if_P [OF p]
    by (rule parses_ignoring_ue [OF ue(1)], rule parses_ignoring_opt_flag [OF chroma_units(3) [OF c]],
        rule parses_ignoring_ue [OF ue(2)], rule parses_ignoring_ue [OF ue(3)], rule parses_ignoring_flag, rule parses_scaling [OF sc])
qed

lemma parses_crop:
  assumes "window_small w"
  shows "parses (\<lambda>br. if w \<noteq> None then
        ignoring 0 (ReadUE br) (\<lambda>l br. ignoring 0 (ReadUE br) (\<lambda>r br. ignoring 0 (ReadUE br) (\<lambda>t br.
        ignoring 0 (ReadUE br) (\<lambda>b br. Some (Inr (l, r, t, b), br)))))
      else Some (Inr (0, 0, 0, 0), br)) (tl (window_bits w))
      (case w of None \<Rightarrow> (0, 0, 0, 0) | Some (l, r, t, b) \<Rightarrow> (of_nat l, of_nat r, of_nat t, of_nat b))"
proof (cases w)
  case None
  then show ?thesis by (simp add: parses_end)
next
  case (Some a)
  obtain l r t b where a: "a = (l, r, t, b)" by (cases a)
  have sm: "l + 1 < 2 ^ 64" "r + 1 < 2 ^ 64" "t + 1 < 2 ^ 64" "b + 1 < 2 ^ 64"
    using assms small_ue unfolding Some a window_small.simps by blast+
  have "parses (\<lambda>br. ignoring 0 (ReadUE br) (\<lambda>l br. ignoring 0 (ReadUE br) (\<lambda>r br. ignoring 0 (ReadUE br) (\<lambda>t br.
        ignoring 0 (ReadUE br) (\<lambda>b br. Some (Inr (l, r, t, b), br))))))
      (ue_bits l @ ue_bits r @ ue_bits t @ ue_bits b) (of_nat l, of_nat r, of_nat t, of_nat b)"
    by (rule parses_nil, simp only: append_assoc, intro parses_intros sm)
  then show ?thesis by (simp add: Some a)
qed

definition avc_info :: "avc_sps \<Rightarrow> SPSInfo \<Rightarrow> bool" where
  "avc_info s info \<longleftrightarrow> ChromaFormatIDC info = of_nat (avc_chroma s) \<and>
     DisplayWidth info = of_nat (fst (avc_display s)) \<and> DisplayHeight info = of_nat (snd (avc_display s))"

lemma h264_info_avc:
  assumes "avc_wf s"
  shows "avc_info s (h264_info (of_nat (avc_chroma s)) (of_nat (as_mbs s)) (of_nat (as_map_units s)) (as_frame_only s)
    (case as_crop s of None \<Rightarrow> (0, 0, 0, 0) | Some (l, r, t, b) \<Rightarrow> (of_nat l, of_nat r, of_nat t, of_nat b)))"
proof -
  define fields where "fields = (if as_frame_only s then 1 else 2 :: nat)"
  let ?w = "(as_mbs s + 1) * 16" let ?h = "(as_map_units s + 1) * 16 * fields"
  have c: "small (avc_chroma s)" using assms by (simp add: avc_wf_def avc_chroma_def small_def)
  have sm: "small ?w" "small ?h" using assms by (simp_all add: avc_wf_def small_def fields_def)
  have wh: "(of_nat (as_mbs s) + 1) * 16 = (of_nat ?w :: u64)"
    "(if \<not> as_frame_only s then (of_nat (as_map_units s) + 1) * 16 * 2 else (of_nat (as_map_units s) + 1) * 16) = (of_nat ?h :: u64)"
    by (simp_all add: fields_def)
  obtain l r t b where cr: "(case as_crop s of None \<Rightarrow> (0, 0, 0, 0) | Some c \<Rightarrow> c) = (l, r, t, b)"
    by (metis prod_cases4)
  have crop: "(case as_crop s of None \<Rightarrow> (0, 0, 0, 0) | Some (l, r, t, b) \<Rightarrow> (of_nat l, of_nat r, of_nat t, of_nat b)) =
      (of_nat l, of_nat r, of_nat t, of_nat b :: u64)"
    using cr by (auto split: option.splits)
  have small: "l + r < 2 ^ 32" "t + b < 2 ^ 32"
    using cr assms by (auto simp: avc_wf_def small_def split: option.splits)
  have disp: "avc_display s = (?w - (l + r) * chroma_width (avc_chroma s), ?h - (t + b) * (chroma_height (avc_chroma s) * fields))"
    using cr by (auto simp: avc_display_def Let_def fields_def split: option.splits)
  have unit: "(if of_nat (avc_chroma s) = (0 :: u64) then (1, if \<not> as_frame_only s then 2 else 1)
       else if \<not> as_frame_only s then (getSubWidthC (of_nat (avc_chroma s)), getSubHeightC (of_nat (avc_chroma s)) * 2)
       else (getSubWidthC (of_nat (avc_chroma s)), getSubHeightC (of_nat (avc_chroma s)))) =
     (of_nat (chroma_width (avc_chroma s)), of_nat (chroma_height (avc_chroma s) * fields))"
    unfolding chroma_units [OF c] by (auto simp: chroma_width_def chroma_height_def fields_def)
  have u: "chroma_width n \<le> 4" "chroma_height n * fields \<le> 4" for n by (simp_all add: chroma_width_def chroma_height_def fields_def)
  show ?thesis
    unfolding avc_info_def h264_info_def crop prod.case Let_def wh unit disp of_nat_add [symmetric]
    by (simp only: SPSInfo.simps small_cropped [OF sm(1) small(1) u(1)] small_cropped [OF sm(2) small(2) u(2)] fst_conv snd_conv simp_thms)
qed

lemma parses_avc_picture:
  assumes wf: "avc_wf s"
  shows "\<exists>info. parses (h264_picture (of_nat (avc_chroma s))) (avc_picture_bits s) info \<and> avc_info s info"
proof -
  have ue: "as_refs s + 1 < 2 ^ 64" "as_mbs s + 1 < 2 ^ 64" "as_map_units s + 1 < 2 ^ 64" and win: "window_small (as_crop s)"
    using wf by (simp_all add: avc_wf_def small_def)
  have bits: "avc_picture_bits s = ue_bits (as_refs s) @ [as_gaps s] @ ue_bits (as_mbs s) @ ue_bits (as_map_units s) @ [as_frame_only s] @
     (if \<not> as_frame_only s then [as_adaptive s] else []) @ [as_direct s] @ [as_crop s \<noteq> None] @ tl (window_bits (as_crop s)) @ []"
    using window_bits_cons [of "as_crop s"] by (simp add: avc_picture_bits_def)
  show ?thesis
    unfolding h264_picture_def [abs_def] bits
    by (intro exI conjI, rule parses_ignoring_ue [OF ue(1)], rule parses_ignoring_flag, rule parses_ignoring_ue [OF ue(2)],
        rule parses_ignoring_ue [OF ue(3)], rule parses_ignoring_flag, rule parses_ignoring_opt_flag [OF refl],
        rule parses_ignoring_flag, rule parses_ignoring_flag, rule parses_then [OF parses_crop [OF win]], rule parses_end)
      (rule h264_info_avc [OF wf])
qed

lemma parses_avc:
  assumes wf: "avc_wf s" and skipped: "scaling_skipped s"
  shows "\<exists>info. parses h264_sps (avc_bits s) info \<and> avc_info s info"
proof -
  obtain info where info: "parses (h264_picture (of_nat (avc_chroma s))) (avc_picture_bits s) info" "avc_info s info"
    using parses_avc_picture [OF wf] by blast
  have ue: "as_id s + 1 < 2 ^ 64" "as_frame_num s + 1 < 2 ^ 64" and poc: "poc_wf (as_poc s)"
    using wf small_ue unfolding avc_wf_def by blast+
  have e: "int 8 = 8" by simp
  have "parses h264_sps (avc_bits s) info"
    unfolding h264_sps_def [abs_def] avc_bits_def
    by (rule parses_ignoring_field [OF e], rule parses_ignoring_field [OF e], rule parses_ignoring_field [OF e],
        rule parses_ignoring_ue [OF ue(1)], rule parses_then [OF parses_chroma [OF wf skipped]], rule parses_ignoring_ue [OF ue(2)],
        rule parses_then [OF parses_poc [OF poc]], rule info(1))
  then show ?thesis using info(2) by blast
qed

text \<open>A NAL unit: its header byte, then the escaped parameter set.\<close>

definition avc_nal :: "byte \<Rightarrow> byte list \<Rightarrow> byte list" where
  "avc_nal h rbsp = h # escape 0 rbsp"

lemma parseH264SPS_written:
  assumes wf: "avc_wf s" and skipped: "scaling_skipped s" and bits: "bits_of rbsp = avc_bits s @ rest" and h: "h AND 0x1F = 7" and c: "start_code c"
  shows "\<exists>info. parseH264SPS (c @ avc_nal h rbsp) = Some (Inr info) \<and> avc_info s info"
proof -
  obtain info where info: "parses h264_sps (avc_bits s) info" "avc_info s info" using parses_avc [OF wf skipped] by blast
  have "h \<noteq> 0" using h by auto
  then have "stripStartCode (c @ avc_nal h rbsp) = avc_nal h rbsp" using stripStartCode_strip [OF c] by (simp add: avc_nal_def)
  then show ?thesis
    using parses_run [OF info(1) bits] info(2) h by (auto simp: parseH264SPS_def Let_def avc_nal_def removeEmulation_escape)
qed

lemma h264_stap_loop_step:
  assumes "length n < 65536"
  shows "h264_stap_loop (pre @ aggregate (n # ns)) (length pre) =
    (if n = [] then h264_stap_loop ((pre @ len16 0) @ aggregate ns) (length (pre @ len16 0))
     else if hd n AND 0x1F = 7 then map_option display_size (parseH264SPS n)
     else h264_stap_loop ((pre @ len16 (length n) @ n) @ aggregate ns) (length (pre @ len16 (length n) @ n)))"
proof -
  let ?p = "pre @ aggregate (n # ns)"
  have hi: "go_at ?p (length pre) = Some (ucast (drop_bit 8 (of_nat (length n) :: u64)))"
    and lo: "go_at ?p (length pre + 1) = Some (ucast (of_nat (length n) :: u64))"
    by (simp_all add: go_at_def nth_append len16_def)
  have sl: "go_slice ?p (length pre + 2) (length pre + 2 + length n) = Some n" by (simp add: go_slice_def len16_def)
  have le: "length pre + 2 \<le> length ?p" "\<not> length pre + 2 + length n > length ?p" by simp_all
  show ?thesis
    by (subst h264_stap_loop.simps, simp only: hi lo le if_True if_False Option.bind.bind_lunit Let_def len16_val [OF assms] sl)
      (cases n; simp add: add.assoc)
qed

lemma h264_stap_loop_found:
  "\<forall>n \<in> set before. length n < 65536 \<and> (n \<noteq> [] \<longrightarrow> hd n AND 0x1F \<noteq> 7) \<Longrightarrow> nal \<noteq> [] \<Longrightarrow> hd nal AND 0x1F = 7 \<Longrightarrow> length nal < 65536 \<Longrightarrow>
   h264_stap_loop (pre @ aggregate (before @ nal # after)) (length pre) = map_option display_size (parseH264SPS nal)"
proof (induction before arbitrary: pre)
  case Nil
  then show ?case by (simp add: h264_stap_loop_step del: aggregate_simps)
next
  case (Cons n ns)
  have ih: "h264_stap_loop (q @ aggregate (ns @ nal # after)) (length q) = map_option display_size (parseH264SPS nal)" for q using Cons by simp
  show ?case using Cons.prems h264_stap_loop_step [of n pre "ns @ nal # after"] ih [of "pre @ len16 0"] ih [of "pre @ len16 (length n) @ n"]
    by (auto simp del: aggregate_simps append_assoc)
qed

text \<open>
  C18. The size of an H.264 picture, end to end: from a parameter set written field by field and escaped, alone in
  the payload, in the first fragment of an FU-A, or the first one in a STAP-A or STAP-B, \<open>ExtractH264VideoSize\<close>
  returns the size in macroblocks (two fields when interlaced) less the crop, never below zero. The set may be of
  any profile and chroma format, with no scaling matrix or with one whose eight lists are all absent; a set that
  carries scaling lists, or a 4:4:4 one with a scaling matrix, is excluded (\<open>scaling_skipped\<close>): the code misreads
  it, as \<open>scaling_list_misread\<close> and \<open>scaling_444_misread\<close> show.
\<close>

theorem h264_video_size:
  assumes wf: "avc_wf s" and skipped: "scaling_skipped s" and bits: "bits_of rbsp = avc_bits s @ rest" and h: "h AND 0x1F = 7"
    and payload: "payload = avc_nal h rbsp \<or>
      (\<exists>b0 b1. payload = b0 # b1 # escape 0 rbsp \<and> b0 AND 0x1F = 28 \<and> b1 AND 0x80 \<noteq> 0 \<and> h = (b0 AND 0xE0 OR b1 AND 0x1F)) \<or>
      (\<exists>b0 don before after. payload = b0 # don @ aggregate (before @ avc_nal h rbsp # after) \<and>
        (b0 AND 0x1F = 24 \<and> don = [] \<or> b0 AND 0x1F = 25 \<and> length don = 2) \<and> length (avc_nal h rbsp) < 65536 \<and>
        (\<forall>n \<in> set before. length n < 65536 \<and> (n \<noteq> [] \<longrightarrow> hd n AND 0x1F \<noteq> 7)))"
  shows "ExtractH264VideoSize payload =
    Some \<lparr>Width = of_nat (fst (avc_display s)), Height = of_nat (snd (avc_display s))\<rparr>"
proof -
  obtain info where p: "parseH264SPS (avc_nal h rbsp) = Some (Inr info)" "avc_info s info"
    using parseH264SPS_written [OF wf skipped bits h, of "[]"] by (auto simp: start_code_def)
  have sz: "map_option display_size (parseH264SPS (avc_nal h rbsp)) =
      Some \<lparr>Width = of_nat (fst (avc_display s)), Height = of_nat (snd (avc_display s))\<rparr>"
    using p by (simp add: display_size_def avc_info_def ucast_of_nat)
  from payload show ?thesis
  proof (elim disjE exE conjE)
    assume "payload = avc_nal h rbsp"
    then show ?thesis using sz h by (simp add: ExtractH264VideoSize_def avc_nal_def Let_def del: map_option_eq_Some)
  next
    fix b0 b1 assume "payload = b0 # b1 # escape 0 rbsp" "b0 AND 0x1F = 28" "b1 AND 0x80 \<noteq> 0" "h = (b0 AND 0xE0 OR b1 AND 0x1F)"
    then show ?thesis using sz by (simp add: ExtractH264VideoSize_def avc_nal_def Let_def del: map_option_eq_Some)
  next
    fix b0 and don :: "byte list" and before after
    assume pl: "payload = b0 # don @ aggregate (before @ avc_nal h rbsp # after)" and l: "length (avc_nal h rbsp) < 65536"
      and before: "\<forall>n \<in> set before. length n < 65536 \<and> (n \<noteq> [] \<longrightarrow> hd n AND 0x1F \<noteq> 7)"
    have loop: "h264_stap_loop payload (1 + length don) = map_option display_size (parseH264SPS (avc_nal h rbsp))"
      using h264_stap_loop_found [OF before _ _ l, of "b0 # don" after] h by (simp add: pl avc_nal_def)
    { assume "b0 AND 0x1F = 24" "don = []"
      then show ?thesis using sz loop by (simp add: ExtractH264VideoSize_def pl Let_def del: map_option_eq_Some) }
    { assume "b0 AND 0x1F = 25" "length don = 2"
      then show ?thesis using sz loop by (simp add: ExtractH264VideoSize_def pl Let_def del: map_option_eq_Some) }
  qed
qed

text \<open>
  C19. No payload, however malformed, makes either size extraction panic or run forever, and the parsers return on
  every NAL unit; with a start code in front or without, the parsers read the same parameter set.
\<close>

theorem sps_total:
  "(\<exists>sz. ExtractH265VideoSize payload = Some sz) \<and> (\<exists>sz. ExtractH264VideoSize payload = Some sz) \<and>
   (\<exists>r. parseH265SPS payload = Some r) \<and> (\<exists>r. parseH264SPS payload = Some r)"
  using ExtractH265VideoSize_total ExtractH264VideoSize_total parseH265SPS_total parseH264SPS_total by blast

section \<open>Witnesses\<close>

definition sample_hevc :: hevc_sps where
  "sample_hevc = \<lparr>hs_layer = 0, hs_tid = 1, hs_vps = 0, hs_nesting = True, hs_general = (1, 0x60000000, 0x9000, 0, 93),
     hs_sublayers = [(Some (1, 0, 0), Some 93)], hs_id = 0, hs_chroma = 1, hs_separate = False, hs_width = 320, hs_height = 184,
     hs_window = Some (0, 0, 0, 2)\<rparr>"

definition sample_hevc_rbsp :: "byte list" where
  "sample_hevc_rbsp = [66, 1, 3, 1, 96, 0, 0, 0, 144, 0, 0, 0, 0, 0, 93, 192, 0, 1, 0, 0, 0, 0, 0, 0, 0, 0, 0, 0, 93, 160, 10, 8, 11, 159, 96]"

definition sample_avc :: avc_sps where
  "sample_avc = \<lparr>as_profile = 100, as_constraints = 0, as_level = 30, as_id = 0, as_chroma = 1, as_separate = False, as_luma = 0,
     as_chroma_depth = 0, as_bypass = False, as_scaling = Some (replicate 8 None), as_frame_num = 0, as_poc = Poc1 False 1 (- 2) [3, 0], as_refs = 1, as_gaps = False,
     as_mbs = 19, as_map_units = 11, as_frame_only = True, as_adaptive = False, as_direct = True, as_crop = Some (0, 0, 0, 6)\<rparr>"

definition sample_avc_rbsp :: "byte list" where
  "sample_avc_rbsp = [100, 0, 30, 173, 0, 162, 43, 53, 2, 131, 63, 56]"

lemma sample_hevc_bits: "bits_of sample_hevc_rbsp = hevc_bits sample_hevc @ [False, False, False, False, False]"
  by code_simp

lemma sample_avc_bits: "bits_of sample_avc_rbsp = avc_bits sample_avc @ [False, False, False]"
  by code_simp

lemma length_escape_le: "length (escape z bs) \<le> 2 * length bs"
  by (induction z bs rule: escape.induct) auto

theorem h265_video_size_witness:
  "ExtractH265VideoSize (0x60 # 0x01 # aggregate [[], [0x40, 0x01, 0x0c], escape 0 sample_hevc_rbsp, [0x44, 0x01]]) =
    Some \<lparr>Width = 320, Height = 180\<rparr>"
proof -
  have wf: "hevc_wf sample_hevc" by (simp add: hevc_wf_def sample_hevc_def small_def)
  have l: "length (escape 0 sample_hevc_rbsp) < 65536" using length_escape_le [of 0 sample_hevc_rbsp] by (simp add: sample_hevc_rbsp_def)
  have "ExtractH265VideoSize (0x60 # 0x01 # aggregate ([[], [0x40, 0x01, 0x0c]] @ escape 0 sample_hevc_rbsp # [[0x44, 0x01]])) =
    Some \<lparr>Width = of_nat (fst (hevc_display sample_hevc)), Height = of_nat (snd (hevc_display sample_hevc))\<rparr>"
    by (rule h265_video_size [OF wf sample_hevc_bits refl], intro disjI2 exI conjI, rule refl, simp, rule l)
      (simp add: hevc_type_def)
  moreover have "hevc_display sample_hevc = (320, 180)" by (simp add: hevc_display_def sample_hevc_def chroma_width_def chroma_height_def)
  ultimately show ?thesis by simp
qed

theorem h264_video_size_witness:
  "ExtractH264VideoSize (0x7c # 0x87 # escape 0 sample_avc_rbsp) = Some \<lparr>Width = 320, Height = 180\<rparr>"
proof -
  have wf: "avc_wf sample_avc" by (simp add: avc_wf_def sample_avc_def small_def)
  have sk: "scaling_skipped sample_avc" by (simp add: scaling_skipped_def sample_avc_def)
  have h: "(0x67 :: byte) AND 0x1F = 7" by simp
  have "ExtractH264VideoSize (0x7c # 0x87 # escape 0 sample_avc_rbsp) =
    Some \<lparr>Width = of_nat (fst (avc_display sample_avc)), Height = of_nat (snd (avc_display sample_avc))\<rparr>"
    by (rule h264_video_size [OF wf sk sample_avc_bits h], intro disjI2 disjI1 exI conjI, rule refl) simp_all
  moreover have "avc_display sample_avc = (320, 180)"
    by (simp add: avc_display_def sample_avc_def chroma_width_def chroma_height_def avc_chroma_def avc_high_def Let_def)
  ultimately show ?thesis by simp
qed

text \<open>
  The sets that are excluded are misread: one 320 by 180 with a scaling list (the default matrix, one delta of \<open>-8\<close>)
  gives 0 by 84, and a 4:4:4 one 320 by 186 with an empty scaling matrix of twelve lists gives 42 by 16.
\<close>

definition scaling_list_avc :: avc_sps where
  "scaling_list_avc = sample_avc\<lparr>as_scaling := Some (Some [- 8] # replicate 7 None)\<rparr>"

definition scaling_444_avc :: avc_sps where
  "scaling_444_avc = sample_avc\<lparr>as_profile := 244, as_chroma := 3, as_poc := Poc2, as_scaling := Some (replicate 12 None)\<rparr>"

lemma scaling_list_misread:
  "bits_of [100, 0, 30, 173, 132, 64, 81, 21, 154, 129, 65, 159, 156] = avc_bits scaling_list_avc @ [False, False]"
  "avc_display scaling_list_avc = (320, 180)"
  "ExtractH264VideoSize (avc_nal 0x67 [100, 0, 30, 173, 132, 64, 81, 21, 154, 129, 65, 159, 156]) = Some \<lparr>Width = 0, Height = 84\<rparr>"
  by code_simp+

lemma scaling_444_misread:
  "bits_of [244, 0, 30, 145, 160, 1, 104, 20, 25, 249, 192] = avc_bits scaling_444_avc @ [False, False, False, False, False, False]"
  "avc_display scaling_444_avc = (320, 186)"
  "ExtractH264VideoSize (avc_nal 0x67 [244, 0, 30, 145, 160, 1, 104, 20, 25, 249, 192]) = Some \<lparr>Width = 42, Height = 16\<rparr>"
  by code_simp+

end
