(* ===== verification/Keyframe.thy ===== *)
theory Keyframe
  imports Vp8 Nal "HOL-Library.Char_ord"
begin

text \<open>
  Key frame detection, \<^verbatim>\<open>pkg/codec/keyframe.go\<close>. Parsing a VP9 packet is done by \<^verbatim>\<open>pion/rtp\<close>: its
  \<open>Unmarshal\<close> is the parameter \<open>vp9_unmarshal\<close>, which fails (\<open>None\<close>) or gives the two fields the code
  reads. Sizes that the code keeps in a Go \<open>int\<close> are naturals: they are sums of lengths within the payload.
\<close>

section \<open>H.264\<close>

function h264_kf_loop :: "byte list \<Rightarrow> byte \<Rightarrow> nat \<Rightarrow> bool option" where
  "h264_kf_loop payload nalu i =
    (if i < length payload then
       if i + 2 > length payload then Some False
       else do {
         hi \<leftarrow> go_at payload i;
         lo \<leftarrow> go_at payload (i + 1);
         let len = unat (push_bit 8 (ucast hi) OR ucast lo :: u16);
         let i = i + 2;
         if i + len > length payload then Some False
         else
           let offset = (if nalu = 26 then 3 else if nalu = 27 then 4 else 0) in
           if offset \<ge> len then Some False
           else do {
             b \<leftarrow> go_at payload (i + offset);
             let n = b AND 0x1F;
             if n = 7 then Some True else h264_kf_loop payload nalu (i + len) } }
     else Some False)"
  by pat_completeness auto
termination by (relation "measure (\<lambda>(payload, _, i). length payload - i)") auto

declare h264_kf_loop.simps [simp del]

definition IsH264KeyFrame :: "byte list \<Rightarrow> bool option" where
  "IsH264KeyFrame payload =
    (if length payload < 1 then Some False
     else do {
       b0 \<leftarrow> go_at payload 0;
       let nalu = b0 AND 0x1F;
       if nalu = 0 then Some False
       else if nalu \<le> 23 then Some (nalu = 7)
       else if nalu = 24 \<or> nalu = 25 \<or> nalu = 26 \<or> nalu = 27 then
         h264_kf_loop payload nalu (if nalu = 25 \<or> nalu = 26 \<or> nalu = 27 then 1 + 2 else 1)
       else if nalu = 28 \<or> nalu = 29 then
         if length payload < 2 then Some False
         else do {
           b1 \<leftarrow> go_at payload 1;
           if b1 AND 0x80 = 0 then Some False else Some (b1 AND 0x1F = 7) }
       else Some False })"

section \<open>H.265\<close>

function h265_kf_loop :: "byte list \<Rightarrow> nat \<Rightarrow> bool option" where
  "h265_kf_loop payload idx =
    (if int idx < int (length payload) - 2 then do {
       rest \<leftarrow> go_from payload idx;
       sz \<leftarrow> get_be 2 rest;
       let idx = idx + 2;
       if idx \<ge> length payload then Some False
       else do {
         b \<leftarrow> go_at payload idx;
         let naluType = drop_bit 1 (b AND 0x7E);
         if naluType = 33 \<or> naluType = 34 then Some True
         else h265_kf_loop payload (idx + unat (ucast sz :: u16)) } }
     else Some False)"
  by pat_completeness auto
termination by (relation "measure (\<lambda>(payload, idx). length payload - idx)") auto

declare h265_kf_loop.simps [simp del]

definition IsH265KeyFrame :: "byte list \<Rightarrow> bool option" where
  "IsH265KeyFrame payload =
    (if length payload < 2 then Some False
     else do {
       b0 \<leftarrow> go_at payload 0;
       let naluType = drop_bit 1 (b0 AND 0x7E);
       if naluType = 33 \<or> naluType = 34 then Some True
       else if naluType = 48 then h265_kf_loop payload 2
       else if naluType = 49 then
         if length payload < 3 then Some False
         else do {
           b2 \<leftarrow> go_at payload 2;
           let naluType = drop_bit 1 (b2 AND 0x7E);
           Some (naluType = 33 \<or> naluType = 34) }
       else Some False })"

section \<open>VP8 and VP9\<close>

definition IsVP8KeyFrame :: "byte list option \<Rightarrow> bool option" where
  "IsVP8KeyFrame payload = do {
     (err, vp8) \<leftarrow> Unmarshal zero_VP8 payload;
     Some (case err of Some _ \<Rightarrow> False | None \<Rightarrow> vp_IsKeyFrame vp8) }"

record VP9Packet =
  vp9_B :: bool
  vp9_Payload :: "byte list"

definition vp9_key :: "VP9Packet \<Rightarrow> bool option" where
  "vp9_key vp9 =
    (if \<not> vp9_B vp9 \<or> length (vp9_Payload vp9) < 1 then Some False
     else do {
       b \<leftarrow> go_at (vp9_Payload vp9) 0;
       if b AND 0xc0 \<noteq> 0x80 then Some False
       else
         let profile = drop_bit 4 b AND 0x3 in
         if profile \<noteq> 3 then Some (b AND 0xC = 0) else Some (b AND 0x6 = 0) })"

definition IsVP9KeyFrame :: "(byte list option \<Rightarrow> VP9Packet option) \<Rightarrow> VP9Packet option \<Rightarrow> byte list option \<Rightarrow> bool option" where
  "IsVP9KeyFrame vp9_unmarshal vp9 payload =
    (case vp9 of
       Some p \<Rightarrow> vp9_key p
     | None \<Rightarrow> (case vp9_unmarshal payload of None \<Rightarrow> Some False | Some p \<Rightarrow> vp9_key p))"

section \<open>AV1\<close>

text \<open>
  The length in front of an OBU: \<open>Inl\<close> is the early return of \<open>getObu\<close> (a nil OBU), \<open>Inr\<close> the offset
  after the length and the length. At most four bytes of it are read.
\<close>

function obu_length :: "byte list \<Rightarrow> nat \<Rightarrow> u64 \<Rightarrow> (nat \<times> bool + nat \<times> u64) option" where
  "obu_length data offset len =
    (if length data \<le> offset then Some (Inl (offset, offset > 0))
     else if offset \<ge> 4 then Some (Inl (offset, True))
     else do {
       l \<leftarrow> go_at data offset;
       let len = len OR push_bit (offset * 7) (ucast (l AND 0x7f));
       if l AND 0x80 = 0 then Some (Inr (offset + 1, len)) else obu_length data (offset + 1) len })"
  by pat_completeness auto
termination by (relation "measure (\<lambda>(data, offset, _). length data - offset)") auto

declare obu_length.simps [simp del]

definition getObu :: "byte list \<Rightarrow> bool \<Rightarrow> (byte list \<times> nat \<times> bool) option" where
  "getObu data last_obu =
    (if last_obu then Some (data, length data, False)
     else do {
       r \<leftarrow> obu_length data 0 0;
       case r of
         Inl (offset, truncated) \<Rightarrow> Some ([], offset, truncated)
       | Inr (offset, len) \<Rightarrow>
           if length data < offset + unat len then do {
             obu \<leftarrow> go_from data offset;
             Some (obu, length data, True) }
           else do {
             obu \<leftarrow> go_slice data offset (offset + unat len);
             Some (obu, offset + unat len, False) } })"

text \<open>The loop over the OBUs: it gives up at the latest with the OBU of index \<open>w\<close>.\<close>

function av1_loop :: "byte list \<Rightarrow> nat \<Rightarrow> nat \<Rightarrow> nat \<Rightarrow> bool option" where
  "av1_loop payload w offset i = do {
     data \<leftarrow> go_from payload offset;
     (obu, len, truncated) \<leftarrow> getObu data (w = i + 1);
     if length obu < 1 then Some False
     else do {
       b0 \<leftarrow> go_at obu 0;
       let tpe = drop_bit 3 (b0 AND 0x38);
       if i = 0 \<and> tpe \<noteq> 1 then Some False
       else if i \<noteq> 0 \<and> (tpe = 3 \<or> tpe = 6) then
         if length obu < 2 then Some False
         else do {
           b1 \<leftarrow> go_at obu 1;
           if b1 AND 0x80 \<noteq> 0 then Some False else Some (b1 AND 0x60 = 0) }
       else if truncated \<or> i \<ge> w then Some False
       else av1_loop payload w (offset + len) (i + 1) } }"
  by pat_completeness auto
termination by (relation "measure (\<lambda>(payload, w, offset, i). w - i)") auto

declare av1_loop.simps [simp del]

definition IsAV1KeyFrame :: "byte list \<Rightarrow> bool option" where
  "IsAV1KeyFrame payload =
    (if length payload < 2 then Some False
     else do {
       b0 \<leftarrow> go_at payload 0;
       if b0 AND 0x88 \<noteq> 0x08 then Some False
       else
         let w = drop_bit 4 (b0 AND 0x30) in
         av1_loop payload (unat w) 1 0 })"

section \<open>Choosing by codec\<close>

text \<open>
  \<open>strings.ToLower\<close>: only ASCII letters lower to the letters of the codec names.
\<close>

definition to_lower :: "char \<Rightarrow> char" where
  "to_lower c = (let n = of_char c :: nat in if 65 \<le> n \<and> n \<le> 90 then char_of (n + 32) else c)"

definition IsKeyFrame :: "(byte list option \<Rightarrow> VP9Packet option) \<Rightarrow> string \<Rightarrow> byte list option \<Rightarrow> bool option" where
  "IsKeyFrame vp9_unmarshal codec payload =
    (let name = map to_lower codec;
         bytes = (case payload of None \<Rightarrow> [] | Some p \<Rightarrow> p)
     in if name = ''h264'' then IsH264KeyFrame bytes
        else if name = ''h265'' then IsH265KeyFrame bytes
        else if name = ''vp8'' then IsVP8KeyFrame payload
        else if name = ''vp9'' then IsVP9KeyFrame vp9_unmarshal None payload
        else if name = ''av1'' then IsAV1KeyFrame bytes
        else Some False)"

section \<open>Every payload is decided\<close>

lemma h264_kf_loop_total: "\<exists>b. h264_kf_loop payload nalu i = Some b"
proof (induction payload nalu i rule: h264_kf_loop.induct)
  case (1 payload nalu i)
  show ?case by (subst h264_kf_loop.simps) (use 1 in \<open>auto simp: Let_def\<close>)
qed

lemma IsH264KeyFrame_total: "\<exists>b. IsH264KeyFrame payload = Some b"
  using h264_kf_loop_total [of payload] by (auto simp: IsH264KeyFrame_def Let_def go_at_def)

lemma h265_kf_loop_total: "\<exists>b. h265_kf_loop payload idx = Some b"
proof (induction payload idx rule: h265_kf_loop.induct)
  case (1 payload idx)
  show ?case
  proof (cases "int idx < int (length payload) - 2")
    case True
    then have "idx \<le> length payload" "2 \<le> length payload - idx" by linarith+
    then have r: "go_from payload idx = Some (drop idx payload)" "get_be 2 (drop idx payload) = Some (be_val (take 2 (drop idx payload)))"
      by (simp_all add: get_be_def)
    then show ?thesis using 1 [OF True r refl] True by (subst h265_kf_loop.simps) (auto simp: Let_def)
  next
    case False
    then show ?thesis by (subst h265_kf_loop.simps) auto
  qed
qed

lemma IsH265KeyFrame_total: "\<exists>b. IsH265KeyFrame payload = Some b"
  using h265_kf_loop_total [of payload 2] by (auto simp: IsH265KeyFrame_def Let_def go_at_def)

lemma IsVP8KeyFrame_total: "\<exists>b. IsVP8KeyFrame payload = Some b"
  using Unmarshal_total [of zero_VP8 payload] by (auto simp: IsVP8KeyFrame_def)

lemma IsVP9KeyFrame_total: "\<exists>b. IsVP9KeyFrame vp9_unmarshal vp9 payload = Some b"
  by (auto simp: IsVP9KeyFrame_def vp9_key_def Let_def go_at_def split: option.split)

lemma obu_length_total:
  "\<exists>r. obu_length data offset len = Some r \<and>
    (case r of Inl (o', t) \<Rightarrow> offset \<le> o' \<and> o' \<le> max offset (length data) | Inr (o', l) \<Rightarrow> offset < o' \<and> o' \<le> length data)"
proof (induction data offset len rule: obu_length.induct)
  case (1 data offset len)
  show ?case
  proof (cases "length data \<le> offset \<or> offset \<ge> 4")
    case True
    then show ?thesis by (subst obu_length.simps) auto
  next
    case False
    then obtain l where l: "go_at data offset = Some l" by simp
    let ?len = "len OR push_bit (offset * 7) (ucast (l AND 0x7f))"
    show ?thesis
    proof (cases "l AND 0x80 = 0")
      case True
      then show ?thesis using False l by (subst obu_length.simps) (auto simp: Let_def)
    next
      case more: False
      have "obu_length data offset len = obu_length data (offset + 1) ?len"
        using False more l by (subst obu_length.simps) (simp add: Let_def)
      moreover obtain r where "obu_length data (offset + 1) ?len = Some r"
          "case r of Inl (o', t) \<Rightarrow> offset + 1 \<le> o' \<and> o' \<le> max (offset + 1) (length data) | Inr (o', l) \<Rightarrow> offset + 1 < o' \<and> o' \<le> length data"
        using 1 [OF _ _ l refl more] False by blast
      ultimately show ?thesis using False by (cases r) auto
    qed
  qed
qed

lemma getObu_total: "\<exists>obu n t. getObu data l = Some (obu, n, t) \<and> n \<le> length data"
proof (cases l)
  case False
  obtain r where r: "obu_length data 0 0 = Some r"
    "case r of Inl (o', t) \<Rightarrow> o' \<le> length data | Inr (o', l) \<Rightarrow> o' \<le> length data"
  proof -
    from obu_length_total [of data 0 0] obtain r where "obu_length data 0 0 = Some r"
      "case r of Inl (o', t) \<Rightarrow> 0 \<le> o' \<and> o' \<le> max 0 (length data) | Inr (o', l) \<Rightarrow> 0 < o' \<and> o' \<le> length data" by blast
    then show thesis by (intro that [of r]) (cases r; auto)+
  qed
  show ?thesis
  proof (cases r)
    case (Inl a)
    then show ?thesis using r False by (cases a) (auto simp: getObu_def)
  next
    case (Inr a)
    then obtain off len where a: "r = Inr (off, len)" by (cases a) auto
    then have off: "off \<le> length data" using r(2) by simp
    show ?thesis using r(1) False off by (cases "length data < off + unat len") (auto simp: getObu_def a)
  qed
qed (auto simp: getObu_def)

lemma av1_loop_total: "offset \<le> length payload \<Longrightarrow> \<exists>b. av1_loop payload w offset i = Some b"
proof (induction payload w offset i rule: av1_loop.induct)
  case (1 payload w offset i)
  obtain obu n t where g: "getObu (drop offset payload) (w = i + 1) = Some (obu, n, t)" "n \<le> length payload - offset"
    using getObu_total [of "drop offset payload" "w = i + 1"] by auto
  show ?case
  proof (cases "length obu < 1 \<or> (i = 0 \<and> drop_bit 3 (hd obu AND 0x38) \<noteq> 1) \<or> (i \<noteq> 0 \<and> drop_bit 3 (hd obu AND 0x38) \<in> {3, 6}) \<or> t \<or> i \<ge> w")
    case True
    then show ?thesis using g(1) 1(2)
      by (subst av1_loop.simps) (cases "length obu < 2"; auto simp: Let_def hd_conv_nth go_at_def)
  next
    case False
    then have "av1_loop payload w offset i = av1_loop payload w (offset + n) (i + 1)"
      using g(1) 1(2) by (subst av1_loop.simps) (auto simp: Let_def hd_conv_nth go_at_def)
    moreover have "offset + n \<le> length payload" using g(2) 1(2) by linarith
    ultimately have eq: "av1_loop payload w offset i = av1_loop payload w (offset + n) (i + 1)" "offset + n \<le> length payload" .
    have "\<exists>b. av1_loop payload w (offset + n) (i + 1) = Some b"
      using 1(1) [of "drop offset payload" "(obu, n, t)" obu "(n, t)" n t "hd obu" "drop_bit 3 (hd obu AND 0x38)"] g 1(2) False eq(2)
      by (auto simp: go_at_def hd_conv_nth)
    then show ?thesis using eq(1) by simp
  qed
qed

lemma IsAV1KeyFrame_total: "\<exists>b. IsAV1KeyFrame payload = Some b"
  using av1_loop_total [of 1 payload] by (auto simp: IsAV1KeyFrame_def Let_def go_at_def)

lemma IsKeyFrame_total: "\<exists>b. IsKeyFrame vp9_unmarshal codec payload = Some b"
  unfolding IsKeyFrame_def Let_def
  using IsH264KeyFrame_total IsH265KeyFrame_total IsVP8KeyFrame_total IsVP9KeyFrame_total IsAV1KeyFrame_total by auto

section \<open>Aggregation packets\<close>

text \<open>The bytes between the size of a unit and its NAL unit: none, or the DOND and the timestamp offset of an MTAP.\<close>

definition unit_offset :: "byte \<Rightarrow> nat" where
  "unit_offset nalu = (if nalu = 26 then 3 else if nalu = 27 then 4 else 0)"

lemma h264_kf_loop_step:
  assumes "length u < 65536"
  shows "h264_kf_loop (pre @ len16 (length u) @ u @ rest) nalu (length pre) =
    (if length u \<le> unit_offset nalu then Some False
     else if u ! unit_offset nalu AND 0x1F = 7 then Some True
     else h264_kf_loop ((pre @ len16 (length u) @ u) @ rest) nalu (length (pre @ len16 (length u) @ u)))"
proof -
  let ?p = "pre @ len16 (length u) @ u @ rest" and ?k = "unit_offset nalu"
  have hi: "go_at ?p (length pre) = Some (ucast (drop_bit 8 (of_nat (length u) :: u64)))"
    and lo: "go_at ?p (length pre + 1) = Some (ucast (of_nat (length u) :: u64))"
    by (simp_all add: go_at_def nth_append len16_def)
  have le: "length pre < length ?p" "\<not> length pre + 2 > length ?p" "\<not> length pre + 2 + length u > length ?p" by simp_all
  have o: "(if nalu = 26 then 3 else if nalu = 27 then 4 else 0 :: nat) = ?k" by (simp add: unit_offset_def)
  have b: "?p ! Suc (Suc (length pre + ?k)) = u ! ?k" if "\<not> length u \<le> ?k"
    using that by (simp add: nth_append len16_def)
  have p: "(pre @ len16 (length u) @ u) @ rest = ?p" "length (pre @ len16 (length u) @ u) = length pre + 2 + length u" by simp_all
  show ?thesis unfolding p
    by (subst h264_kf_loop.simps, simp only: hi lo le if_True if_False Option.bind.bind_lunit Let_def len16_val(2) [OF assms(1)] o)
      (cases "length u \<le> ?k"; simp add: b del: append_assoc)
qed

lemma h264_kf_loop_aggregate:
  "\<forall>u \<in> set units. length u < 65536 \<Longrightarrow>
   h264_kf_loop (pre @ aggregate units) nalu (length pre) =
     Some (\<exists>u \<in> set (takeWhile (\<lambda>u. unit_offset nalu < length u) units). u ! unit_offset nalu AND 0x1F = 7)"
proof (induction units arbitrary: pre)
  case Nil
  then show ?case by (subst h264_kf_loop.simps) simp
next
  case (Cons u us)
  then have l: "length u < 65536" by simp
  have "h264_kf_loop (pre @ aggregate (u # us)) nalu (length pre) = h264_kf_loop (pre @ len16 (length u) @ u @ aggregate us) nalu (length pre)"
    by simp
  then show ?case
    using h264_kf_loop_step [OF l, of pre "aggregate us" nalu] Cons.IH [of "pre @ len16 (length u) @ u"] Cons.prems
    by (auto simp del: aggregate_simps append_assoc)
qed

text \<open>A STAP holds NAL units; an MTAP puts a DOND and a timestamp offset, \<open>ext\<close>, in front of each.\<close>

lemma IsH264KeyFrame_stap:
  assumes "\<forall>n \<in> set nals. length n < 65536" "h AND 0x1F = 24 \<and> don = [] \<or> h AND 0x1F = 25 \<and> length don = 2"
  shows "IsH264KeyFrame (h # don @ aggregate nals) = Some (\<exists>n \<in> set (takeWhile (\<lambda>n. n \<noteq> []) nals). hd n AND 0x1F = 7)"
proof -
  have k: "unit_offset 24 = 0" "unit_offset 25 = 0" by (simp_all add: unit_offset_def)
  have hd: "(\<exists>n \<in> set (takeWhile (\<lambda>n. n \<noteq> []) nals). n ! 0 AND 0x1F = 7) \<longleftrightarrow>
      (\<exists>n \<in> set (takeWhile (\<lambda>n. n \<noteq> []) nals). hd n AND 0x1F = (7 :: byte))"
    by (rule bex_cong [OF refl]) (auto dest!: set_takeWhileD simp: hd_conv_nth)
  show ?thesis
    using assms(2) h264_kf_loop_aggregate [OF assms(1), of "[h]" 24] h264_kf_loop_aggregate [OF assms(1), of "h # don" 25] hd
    by (auto simp: IsH264KeyFrame_def Let_def numeral_3_eq_3 k)
qed

lemma IsH264KeyFrame_mtap:
  assumes "h AND 0x1F = 26 \<and> k = 3 \<or> h AND 0x1F = 27 \<and> k = 4" "length don = 2"
  shows "IsH264KeyFrame (h # don @ units) = h264_kf_loop ((h # don) @ units) (h AND 0x1F) (length (h # don))"
    and "unit_offset (h AND 0x1F) = k"
  using assms by (auto simp: IsH264KeyFrame_def Let_def unit_offset_def numeral_3_eq_3)

lemma takeWhile_units:
  assumes "\<forall>(ext, n) \<in> set units. length ext = k"
  shows "(\<exists>u \<in> set (takeWhile (\<lambda>u. k < length u) (map (\<lambda>(ext, n). ext @ n) units)). P (u ! k)) \<longleftrightarrow>
    (\<exists>(ext, n) \<in> set (takeWhile (\<lambda>(ext, n). n \<noteq> []) units). P (hd n))"
  using assms
proof (induction units)
  case (Cons u us)
  obtain ext n where u: "u = (ext, n)" by (cases u)
  have "(ext @ n) ! k = hd n" if "n \<noteq> []" using that Cons.prems by (simp add: u nth_append hd_conv_nth)
  then show ?case using Cons.IH Cons.prems by (cases "n = []") (auto simp: u)
qed simp

lemma hevc_type_mask: "drop_bit 1 (b AND 0x7E) = drop_bit 1 b AND (0x3F :: byte)"
proof -
  have m: "(0x7E :: byte) = push_bit 1 (mask 6)" "(0x3F :: byte) = mask 6" by (simp_all add: mask_eq_exp_minus_1)
  show ?thesis unfolding m by (rule bit_word_eqI) (auto simp: bit_drop_bit_eq bit_and_iff bit_push_bit_iff bit_mask_iff simp del: push_bit_Suc)
qed

lemma h265_kf_loop_step:
  assumes "length n < 65536" "n \<noteq> []"
  shows "h265_kf_loop (pre @ aggregate (n # ns)) (length pre) =
    (if hevc_type n = 33 \<or> hevc_type n = 34 then Some True
     else h265_kf_loop ((pre @ len16 (length n) @ n) @ aggregate ns) (length (pre @ len16 (length n) @ n)))"
proof -
  let ?p = "pre @ aggregate (n # ns)"
  have dr: "go_from ?p (length pre) = Some (len16 (length n) @ n @ aggregate ns)" by simp
  have "get_be 2 (len16 (length n) @ n @ aggregate ns) = Some (be_val (len16 (length n)))" by (simp add: get_be_def)
  moreover have "unat (ucast (be_val (len16 (length n))) :: u16) = length n"
  proof -
    have "(ucast (be_val [x, y]) :: u16) = push_bit 8 (ucast x) OR ucast y" for x y
      unfolding be_val_def by (rule bit_word_eqI) (auto simp: bit_simps)
    then show ?thesis using len16_val(2) [OF assms(1)] by (simp add: len16_def)
  qed
  ultimately obtain sz where sz: "get_be 2 (len16 (length n) @ n @ aggregate ns) = Some sz" "unat (ucast sz :: u16) = length n" by blast
  have b: "go_at ?p (length pre + 2) = Some (hd n)"
    using assms(2) by (cases n) (simp_all add: go_at_def nth_append len16_def)
  have c: "int (length pre) < int (length ?p) - 2" "\<not> length pre + 2 \<ge> length ?p" using assms(2) by (cases n; simp)+
  show ?thesis
    by (subst h265_kf_loop.simps, simp only: c dr sz b if_True if_False Option.bind.bind_lunit Let_def hevc_type_mask hevc_type_def)
      (simp add: add.assoc)
qed

lemma h265_kf_loop_aggregate:
  "\<forall>n \<in> set nals. length n < 65536 \<and> n \<noteq> [] \<Longrightarrow>
   h265_kf_loop (pre @ aggregate nals) (length pre) = Some (\<exists>n \<in> set nals. hevc_type n = 33 \<or> hevc_type n = 34)"
proof (induction nals arbitrary: pre)
  case Nil
  then show ?case by (subst h265_kf_loop.simps) simp
next
  case (Cons n ns)
  then have l: "length n < 65536" "n \<noteq> []" by simp_all
  show ?case
    using h265_kf_loop_step [OF l, of pre ns] Cons.IH [of "pre @ len16 (length n) @ n"] Cons.prems
    by (auto simp del: aggregate_simps append_assoc)
qed

text \<open>
  C20. H.264: a single NAL unit, a STAP-A or STAP-B of any NAL units, an MTAP16 or MTAP24, and a fragmentation unit
  are key frames exactly when they hold (or start) a sequence parameter set, except that in an aggregation packet an
  empty NAL unit ends the search. The sizes in an MTAP are taken to count the DOND and the timestamp offset (three or
  four bytes, \<open>ext\<close>) in front of each NAL unit; where they count the NAL unit alone, as RFC 6184 has it, a parameter
  set of more than that many bytes is still found when it comes first (the units after the first are not:
  \<open>mtap_second_unit_missed\<close>).
\<close>

theorem h264_key_frame:
  assumes "\<forall>n \<in> set nals. length n < 65536" "\<forall>(ext, n) \<in> set units. length ext = k \<and> k + length n < 65536"
  shows "(h AND 0x1F \<in> {1..23} \<longrightarrow> IsH264KeyFrame (h # payload) = Some (h AND 0x1F = 7)) \<and>
    (h AND 0x1F = 24 \<and> don = [] \<or> h AND 0x1F = 25 \<and> length don = 2 \<longrightarrow>
      IsH264KeyFrame (h # don @ aggregate nals) = Some (\<exists>n \<in> set (takeWhile (\<lambda>n. n \<noteq> []) nals). hd n AND 0x1F = 7)) \<and>
    ((h AND 0x1F = 26 \<and> k = 3 \<or> h AND 0x1F = 27 \<and> k = 4) \<and> length don = 2 \<longrightarrow>
      IsH264KeyFrame (h # don @ aggregate (map (\<lambda>(ext, n). ext @ n) units)) =
        Some (\<exists>(ext, n) \<in> set (takeWhile (\<lambda>(ext, n). n \<noteq> []) units). hd n AND 0x1F = 7) \<and>
      (\<forall>ext n rest. length ext = k \<and> k < length n \<and> length n < 65536 \<and> hd n AND 0x1F = 7 \<longrightarrow>
        IsH264KeyFrame (h # don @ len16 (length n) @ ext @ n @ rest) = Some True)) \<and>
    (h AND 0x1F \<in> {28, 29} \<longrightarrow> IsH264KeyFrame (h # fu # payload) = Some (fu AND 0x80 \<noteq> 0 \<and> fu AND 0x1F = 7))"
proof (intro conjI impI allI)
  show "IsH264KeyFrame (h # payload) = Some (h AND 0x1F = 7)" if "h AND 0x1F \<in> {1..23}"
    using that by (auto simp: IsH264KeyFrame_def Let_def word_le_nat_alt)
  show "IsH264KeyFrame (h # don @ aggregate nals) = Some (\<exists>n \<in> set (takeWhile (\<lambda>n. n \<noteq> []) nals). hd n AND 0x1F = 7)"
    if "h AND 0x1F = 24 \<and> don = [] \<or> h AND 0x1F = 25 \<and> length don = 2"
    by (rule IsH264KeyFrame_stap [OF assms(1) that])
  show "IsH264KeyFrame (h # fu # payload) = Some (fu AND 0x80 \<noteq> 0 \<and> fu AND 0x1F = 7)" if "h AND 0x1F \<in> {28, 29}"
    using that by (auto simp: IsH264KeyFrame_def Let_def)
  assume m: "(h AND 0x1F = 26 \<and> k = 3 \<or> h AND 0x1F = 27 \<and> k = 4) \<and> length don = 2"
  note M = IsH264KeyFrame_mtap [OF conjunct1 [OF m] conjunct2 [OF m]]
  have "\<forall>u \<in> set (map (\<lambda>(ext, n). ext @ n) units). length u < 65536" "\<forall>(ext, n) \<in> set units. length ext = k"
    using assms(2) by auto
  then show "IsH264KeyFrame (h # don @ aggregate (map (\<lambda>(ext, n). ext @ n) units)) =
      Some (\<exists>(ext, n) \<in> set (takeWhile (\<lambda>(ext, n). n \<noteq> []) units). hd n AND 0x1F = 7)"
    unfolding M(1) by (subst h264_kf_loop_aggregate) (simp_all only: M(2) takeWhile_units [where P = "\<lambda>b. b AND 0x1F = 7"])
  fix ext n rest :: "byte list"
  assume n: "length ext = k \<and> k < length n \<and> length n < 65536 \<and> hd n AND 0x1F = 7"
  let ?u = "take (length n) (ext @ n)"
  have u: "ext @ n @ rest = ?u @ drop (length n) (ext @ n) @ rest" by (metis append_assoc append_take_drop_id)
  have l: "length ?u = length n" by simp
  have "?u ! k = hd n" using n by (cases n) (auto simp: nth_append)
  then show "IsH264KeyFrame (h # don @ len16 (length n) @ ext @ n @ rest) = Some True"
    unfolding M(1) u using h264_kf_loop_step [of ?u "h # don" "drop (length n) (ext @ n) @ rest" "h AND 0x1F"] n
    by (simp only: l M(2)) simp
qed

text \<open>A parameter set in the second unit of an MTAP16 sized as RFC 6184 has it.\<close>

lemma mtap_second_unit_missed:
  "IsH264KeyFrame ([0x7a, 0, 0] @ (len16 5 @ [0, 0, 0] @ [0x65, 1, 2, 3, 4]) @ (len16 5 @ [0, 0, 0] @ [0x67, 1, 2, 3, 4])) = Some False"
  by code_simp

lemma IsH265KeyFrame_eq:
  "IsH265KeyFrame (h # x # payload) =
    (if hevc_type [h] \<in> {33, 34} then Some True
     else if hevc_type [h] = 48 then h265_kf_loop (h # x # payload) 2
     else if hevc_type [h] = 49 then Some (payload \<noteq> [] \<and> hevc_type payload \<in> {33, 34})
     else Some False)"
  by (cases payload) (simp_all add: IsH265KeyFrame_def Let_def hevc_type_def hevc_type_mask del: drop_bit_and One_nat_def)

lemma shifted_type:
  assumes "drop_bit 1 (fu :: byte) AND 0x3F = v"
  shows "fu AND 0x3F = push_bit 1 v AND 0x3F \<or> fu AND 0x3F = (push_bit 1 v OR 1) AND 0x3F"
proof -
  have m: "(0x3F :: byte) = mask 6" by (simp add: mask_eq_exp_minus_1)
  have "fu AND 0x3F = (push_bit 1 v OR (fu AND 1)) AND 0x3F"
  proof (rule bit_word_eqI)
    fix k assume "k < LENGTH(8)"
    then show "bit (fu AND 0x3F) k = bit ((push_bit 1 v OR (fu AND 1)) AND 0x3F) k"
      unfolding m assms [unfolded m, symmetric]
      by (cases k) (auto simp: bit_and_iff bit_or_iff bit_push_bit_iff bit_drop_bit_eq bit_mask_iff bit_1_iff simp del: push_bit_Suc drop_bit_and bit_0)
  qed
  moreover have "fu AND 1 = 0 \<or> fu AND 1 = 1" by (auto simp: and_one_eq mod_2_eq_odd)
  ultimately show ?thesis by auto
qed

text \<open>
  C21. H.265: a single NAL unit and an aggregation packet of non-empty NAL units are key frames exactly when they
  hold a sequence or picture parameter set. In a fragmentation unit the type is taken from the wrong bits:
  the first fragment of a parameter set is never a key frame, and only NAL unit types 2 to 5 are
  ever taken for one.
\<close>

theorem h265_key_frame:
  assumes "\<forall>n \<in> set nals. length n < 65536 \<and> n \<noteq> []"
  shows "(hevc_type (h # x # payload) \<notin> {48, 49} \<longrightarrow>
      IsH265KeyFrame (h # x # payload) = Some (hevc_type (h # x # payload) \<in> {33, 34})) \<and>
    (hevc_type [h] = 48 \<longrightarrow> IsH265KeyFrame (h # x # aggregate nals) = Some (\<exists>n \<in> set nals. hevc_type n \<in> {33, 34})) \<and>
    (hevc_type [h] = 49 \<longrightarrow> (\<exists>b. IsH265KeyFrame (h # x # fu # payload) = Some b \<and>
      (fu AND 0x3F \<in> {33, 34} \<longrightarrow> \<not> b) \<and> (b \<longrightarrow> fu AND 0x3F \<in> {2, 3, 4, 5})))"
proof (intro conjI)
  have t: "hevc_type (h # x # payload) = hevc_type [h]" by (simp add: hevc_type_def)
  show "hevc_type (h # x # payload) \<notin> {48, 49} \<longrightarrow>
      IsH265KeyFrame (h # x # payload) = Some (hevc_type (h # x # payload) \<in> {33, 34})"
    unfolding IsH265KeyFrame_eq t by simp
  show "hevc_type [h] = 48 \<longrightarrow> IsH265KeyFrame (h # x # aggregate nals) = Some (\<exists>n \<in> set nals. hevc_type n \<in> {33, 34})"
  proof -
    have "h265_kf_loop (h # x # aggregate nals) 2 = Some (\<exists>n \<in> set nals. hevc_type n = 33 \<or> hevc_type n = 34)"
      using h265_kf_loop_aggregate [OF assms, of "[h, x]"] by (simp add: numeral_2_eq_2)
    then show ?thesis by (simp add: IsH265KeyFrame_eq)
  qed
  have fu: "fu AND 0x3F \<in> {2, 3, 4, 5}" if "hevc_type (fu # payload) \<in> {33, 34}"
    using that shifted_type [of fu 33] shifted_type [of fu 34] by (auto simp: hevc_type_def)
  show "hevc_type [h] = 49 \<longrightarrow> (\<exists>b. IsH265KeyFrame (h # x # fu # payload) = Some b \<and>
      (fu AND 0x3F \<in> {33, 34} \<longrightarrow> \<not> b) \<and> (b \<longrightarrow> fu AND 0x3F \<in> {2, 3, 4, 5}))"
    using fu by (auto simp: IsH265KeyFrame_eq)
qed

section \<open>AV1\<close>

text \<open>The length of an OBU, seven bits a byte, least significant first.\<close>

function leb128 :: "u64 \<Rightarrow> byte list" where
  "leb128 v = (if v < 128 then [ucast v] else (ucast (v AND 0x7f) OR 0x80) # leb128 (drop_bit 7 v))"
  by pat_completeness auto
termination
proof (relation "measure unat")
  fix v :: u64 assume "\<not> v < 128"
  then have "128 \<le> unat v" by (simp add: word_less_nat_alt)
  then show "(drop_bit 7 v, v) \<in> measure unat" using unat_less_exp [of v] by (simp add: unsigned_drop_bit_eq drop_bit_nat_def take_bit_nat_eq_self)
qed simp

declare leb128.simps [simp del]

lemma leb_split: "push_bit k (v AND 0x7f) OR push_bit (7 + k) (drop_bit 7 v) = push_bit k (v :: u64)"
proof -
  have m: "(0x7f :: u64) = mask 7" by (simp add: mask_eq_exp_minus_1)
  show ?thesis
  proof (rule bit_word_eqI)
    fix n assume "n < LENGTH(64)"
    moreover have "7 + k \<le> n \<Longrightarrow> 7 + (n - (7 + k)) = n - k" by simp
    ultimately show "bit (push_bit k (v AND 0x7f) OR push_bit (7 + k) (drop_bit 7 v)) n = bit (push_bit k v) n"
      unfolding m by (cases "7 + k \<le> n") (auto simp: bit_simps)
  qed
qed

lemma byte_7f:
  "ucast (ucast (v :: u64) AND 0x7f :: byte) = (v AND 0x7f :: u64)"
  "ucast ((ucast (v AND 0x7f) OR 0x80) AND 0x7f :: byte) = (v AND 0x7f :: u64)"
  "(ucast (v AND 0x7f) OR 0x80 :: byte) AND 0x80 \<noteq> 0"
  "v < 128 \<Longrightarrow> (ucast v :: byte) AND 0x80 = 0" "v < 128 \<Longrightarrow> v AND 0x7f = v"
proof -
  have m: "(0x7f :: 'a::len word) = mask 7" by (simp add: mask_eq_exp_minus_1)
  show "ucast (ucast (v :: u64) AND 0x7f :: byte) = (v AND 0x7f :: u64)"
    unfolding m by (rule bit_word_eqI) (auto simp: bit_simps)
  show "ucast ((ucast (v AND 0x7f) OR 0x80) AND 0x7f :: byte) = (v AND 0x7f :: u64)"
    unfolding m by (rule bit_word_eqI) (auto simp: bit_simps bit_flags)
  have "bit ((ucast (v AND 0x7f) OR 0x80 :: byte)) 7" by (simp add: bit_or_iff)
  then show "(ucast (v AND 0x7f) OR 0x80 :: byte) AND 0x80 \<noteq> 0" using byte_tests(1) by (metis word_neq_0_conv)
  { assume v: "v < 128"
    then have "v < 2 ^ 7" by simp
    note small = bit_less_exp [OF this]
    have "\<not> bit (ucast v :: byte) 7" using small [of 7] by (auto simp: bit_simps)
    then show "(ucast v :: byte) AND 0x80 = 0" using byte_tests(1) [of "ucast v"] by (metis word_neq_0_conv)
    show "v AND 0x7f = v" unfolding m by (rule bit_word_eqI) (use small in \<open>auto simp: bit_simps\<close>) }
qed

lemma obu_length_leb128:
  "v < 2 ^ (7 * (4 - length pre)) \<Longrightarrow> length pre < 4 \<Longrightarrow>
   obu_length (pre @ leb128 v @ rest) (length pre) acc = Some (Inr (length pre + length (leb128 v), acc OR push_bit (7 * length pre) v))"
proof (induction v arbitrary: pre acc rule: leb128.induct)
  case (1 v)
  show ?case
  proof (cases "v < 128")
    case True
    then show ?thesis using 1(3)
      by (subst obu_length.simps) (simp add: leb128.simps Let_def nth_append byte_7f mult.commute)
  next
    case False
    let ?b = "ucast (v AND 0x7f) OR 0x80 :: byte"
    have leb: "leb128 v = ?b # leb128 (drop_bit 7 v)" using False by (subst leb128.simps) simp
    have l3: "length pre < 3"
    proof (rule ccontr)
      assume "\<not> length pre < 3"
      then have "length pre = 3" using 1(3) by simp
      then show False using 1(2) False by simp
    qed
    have small: "drop_bit 7 v < 2 ^ (7 * (4 - length (pre @ [?b])))"
    proof (rule bits_less_exp)
      fix k assume "bit (drop_bit 7 v) k"
      then have "7 + k < 7 * (4 - length pre)" using bit_less_exp [OF 1(2), of "7 + k"] by (simp add: bit_drop_bit_eq)
      then show "k < 7 * (4 - length (pre @ [?b]))" by simp
    qed (use l3 in simp)
    have "obu_length (pre @ leb128 v @ rest) (length pre) acc =
        obu_length ((pre @ [?b]) @ leb128 (drop_bit 7 v) @ rest) (length (pre @ [?b])) (acc OR push_bit (7 * length pre) (v AND 0x7f))"
      unfolding leb using l3 by (subst obu_length.simps) (simp add: Let_def nth_append byte_7f mult.commute)
    also have "\<dots> = Some (Inr (length (pre @ [?b]) + length (leb128 (drop_bit 7 v)),
        (acc OR push_bit (7 * length pre) (v AND 0x7f)) OR push_bit (7 * length (pre @ [?b])) (drop_bit 7 v)))"
      using l3 by (intro 1(1) False small) simp
    finally show ?thesis using leb_split [of "7 * length pre" v] by (simp add: leb or.assoc)
  qed
qed

lemma getObu_last: "getObu data True = Some (data, length data, False)"
  by (simp add: getObu_def)

lemma getObu_sized:
  assumes "length o1 < 2 ^ 28"
  shows "getObu (leb128 (of_nat (length o1)) @ o1 @ rest) False =
    Some (o1, length (leb128 (of_nat (length o1))) + length o1, False)"
proof -
  have un: "unat (of_nat (length o1) :: u64) = length o1" using assms by (simp add: unsigned_of_nat take_bit_nat_eq_self)
  then have "(of_nat (length o1) :: u64) < 2 ^ 28" using assms by (simp add: word_less_nat_alt)
  then have "obu_length (leb128 (of_nat (length o1)) @ o1 @ rest) 0 0 =
      Some (Inr (length (leb128 (of_nat (length o1))), of_nat (length o1)))"
    using obu_length_leb128 [of "of_nat (length o1)" "[]" "o1 @ rest" 0] by simp
  then show ?thesis by (simp add: getObu_def un)
qed

definition obu_type :: "byte list \<Rightarrow> byte" where
  "obu_type obu = drop_bit 3 (hd obu AND 0x38)"

definition is_frame :: "byte list \<Rightarrow> bool" where
  "is_frame obu \<longleftrightarrow> obu_type obu = 3 \<or> obu_type obu = 6"

text \<open>What the loop decides of the OBU it takes for the first frame, in the bytes it looks at.\<close>

definition key_frame :: "byte list \<Rightarrow> bool" where
  "key_frame obu \<longleftrightarrow> 2 \<le> length obu \<and> obu ! 1 AND 0x80 = 0 \<and> obu ! 1 AND 0x60 = 0"

fun obu_elements :: "byte list list \<Rightarrow> byte list" where
  "obu_elements [] = []"
| "obu_elements [ob] = ob"
| "obu_elements (ob # obs) = leb128 (of_nat (length ob)) @ ob @ obu_elements obs"

definition first_frame_key :: "byte list list \<Rightarrow> bool" where
  "first_frame_key obs = (case filter is_frame obs of [] \<Rightarrow> False | f # _ \<Rightarrow> key_frame f)"

lemma av1_loop_rest:
  "\<forall>ob \<in> set obs. ob \<noteq> [] \<and> length ob < 2 ^ 28 \<Longrightarrow> 0 < i \<Longrightarrow> w = i + length obs \<Longrightarrow>
   av1_loop (pre @ obu_elements obs) w (length pre) i = Some (first_frame_key obs)"
proof (induction obs arbitrary: pre i rule: obu_elements.induct)
  case 1
  then show ?case by (subst av1_loop.simps) (simp add: getObu_def first_frame_key_def, subst obu_length.simps, simp)
next
  case (2 ob)
  have end_of: "av1_loop (pre @ ob) w (length (pre @ ob)) (i + 1) = Some False"
    using 2 by (subst av1_loop.simps) (simp add: getObu_def, subst obu_length.simps, simp)
  show ?case
    using 2 end_of
    by (subst av1_loop.simps)
      (auto simp: getObu_last Let_def go_at_def hd_conv_nth first_frame_key_def is_frame_def obu_type_def key_frame_def simp del: drop_bit_and)
next
  case (3 ob ob2 obs)
  let ?l = "leb128 (of_nat (length ob)) @ ob"
  have ih: "av1_loop ((pre @ ?l) @ obu_elements (ob2 # obs)) w (length (pre @ ?l)) (i + 1) = Some (first_frame_key (ob2 # obs))"
    using 3(2-4) by (intro 3(1)) auto
  have g: "getObu (leb128 (of_nat (length ob)) @ ob @ obu_elements (ob2 # obs)) (w = i + 1) =
      Some (ob, length ?l, False)"
    using getObu_sized [of ob "obu_elements (ob2 # obs)"] 3(2,4) by simp
  show ?case
    using 3(2-4) ih g
    by (subst av1_loop.simps)
      (auto simp: Let_def go_at_def hd_conv_nth first_frame_key_def is_frame_def obu_type_def key_frame_def add.assoc simp del: drop_bit_and)
qed

lemma IsAV1KeyFrame_elements:
  assumes "\<forall>ob \<in> set (first # obs). ob \<noteq> [] \<and> length ob < 2 ^ 28" "length obs \<le> 2"
    "h AND 0x88 = 0x08" "drop_bit 4 (h AND 0x30) = of_nat (length (first # obs))"
  shows "IsAV1KeyFrame (h # obu_elements (first # obs)) = Some (obu_type first = 1 \<and> first_frame_key obs)"
proof -
  have f: "first \<noteq> []" "length first < 2 ^ 28" using assms(1) by auto
  have w: "unat (drop_bit 4 (h AND 0x30)) = Suc (length obs)"
    unfolding assms(4) using assms(2) by (simp add: unsigned_of_nat take_bit_nat_eq_self del: of_nat_Suc)
  have l2: "\<not> length (h # obu_elements (first # obs)) < 2" using f(1) by (cases obs) (auto simp: Suc_le_eq)
  have "av1_loop (h # obu_elements (first # obs)) (Suc (length obs)) 1 0 = Some (obu_type first = 1 \<and> first_frame_key obs)"
  proof (cases obs)
    case Nil
    have end_of: "av1_loop (h # first) 1 (Suc (length first)) 1 = Some False"
      by (subst av1_loop.simps) (simp add: getObu_def, subst obu_length.simps, simp)
    then show ?thesis
      using f Nil by (subst av1_loop.simps)
        (auto simp: getObu_last Let_def go_at_def hd_conv_nth first_frame_key_def obu_type_def simp del: drop_bit_and)
  next
    case (Cons ob obs')
    let ?l = "leb128 (of_nat (length first)) @ first"
    have rest: "av1_loop (([h] @ ?l) @ obu_elements obs) (Suc (length obs)) (length ([h] @ ?l)) 1 = Some (first_frame_key obs)"
      using assms(1) by (intro av1_loop_rest) simp_all
    have g: "getObu (leb128 (of_nat (length first)) @ first @ obu_elements obs) (Suc (length obs) = 0 + 1) = Some (first, length ?l, False)"
      using getObu_sized [OF f(2), of "obu_elements obs"] Cons by simp
    show ?thesis
      using f Cons rest g
      by (subst av1_loop.simps) (auto simp: Let_def go_at_def hd_conv_nth obu_type_def simp del: drop_bit_and)
  qed
  then show ?thesis using l2 assms(3) w by (simp add: IsAV1KeyFrame_def Let_def del: drop_bit_and)
qed

lemma IsAV1KeyFrame_uncounted:
  assumes "h AND 0x30 = 0"
  shows "IsAV1KeyFrame (h # payload) = Some False"
proof -
  obtain obu n t where g: "getObu payload False = Some (obu, n, t)" using getObu_total by blast
  have "av1_loop (h # payload) 0 1 0 = Some False"
    by (subst av1_loop.simps) (auto simp: g Let_def go_at_def simp del: drop_bit_and)
  then show ?thesis using assms by (simp add: IsAV1KeyFrame_def Let_def del: drop_bit_and)
qed

text \<open>
  OBUs as the AV1 bitstream writes them: a header byte with the type (four bits), the extension flag and the size
  flag, the extension byte, the size, and the payload. Types 9 to 14 are reserved.
\<close>

record av1_obu =
  ob_type :: nat
  ob_ext :: "byte option"
  ob_sized :: bool
  ob_payload :: "byte list"

definition obu_header :: "av1_obu \<Rightarrow> byte" where
  "obu_header ob = push_bit 3 (of_nat (ob_type ob)) OR (if ob_ext ob \<noteq> None then 4 else 0) OR (if ob_sized ob then 2 else 0)"

definition obu_bytes :: "av1_obu \<Rightarrow> byte list" where
  "obu_bytes ob = obu_header ob # (case ob_ext ob of None \<Rightarrow> [] | Some e \<Rightarrow> [e]) @
     (if ob_sized ob then leb128 (of_nat (length (ob_payload ob))) else []) @ ob_payload ob"

definition obu_assigned :: "av1_obu \<Rightarrow> bool" where
  "obu_assigned ob \<longleftrightarrow> ob_type ob \<le> 8 \<or> ob_type ob = 15"

text \<open>
  A frame header or a frame starts with the bit \<open>show_existing_frame\<close>, the two bits of \<open>frame_type\<close>, zero
  for \<open>KEY_FRAME\<close>, and the bit \<open>show_frame\<close>. With \<open>reduced_still_picture_header\<close>, the fifth bit of the sequence
  header, it has none of them: every frame is a key frame.
\<close>

definition reduced_still :: "av1_obu \<Rightarrow> bool" where
  "reduced_still sequence \<longleftrightarrow> ob_payload sequence \<noteq> [] \<and> bit (hd (ob_payload sequence)) 3"

definition holds_frame :: "av1_obu \<Rightarrow> bool" where
  "holds_frame ob \<longleftrightarrow> ob_type ob = 3 \<or> ob_type ob = 6"

definition codes_key_frame :: "av1_obu \<Rightarrow> av1_obu \<Rightarrow> bool" where
  "codes_key_frame sequence frame \<longleftrightarrow> reduced_still sequence \<or>
     (case ob_payload frame of
        [] \<Rightarrow> False
      | p # _ \<Rightarrow> let show_existing_frame = bit p 7; frame_type = (of_bool (bit p 6) * 2 + of_bool (bit p 5) :: nat)
                in \<not> show_existing_frame \<and> frame_type = 0)"

lemma byte_frame_bits: "b AND 0x80 = 0 \<and> b AND 0x60 = (0 :: byte) \<longleftrightarrow> \<not> bit b 7 \<and> \<not> bit b 6 \<and> \<not> bit b 5"
proof -
  have e: "(0x60 :: byte) = push_bit 5 1 OR push_bit 6 1" by simp
  have "b AND 0x60 = 0 \<longleftrightarrow> \<not> bit b 6 \<and> \<not> bit b 5"
  proof
    assume "b AND 0x60 = 0"
    then have "\<not> bit (b AND 0x60) 6" "\<not> bit (b AND 0x60) 5" by simp_all
    then show "\<not> bit b 6 \<and> \<not> bit b 5" unfolding e by (simp add: bit_simps)
  next
    assume nb: "\<not> bit b 6 \<and> \<not> bit b 5"
    show "b AND 0x60 = 0" unfolding e
      by (rule bit_word_eqI) (use nb in \<open>auto simp: bit_simps simp del: push_bit_of_1\<close>)
  qed
  moreover have "b AND 0x80 = 0 \<longleftrightarrow> \<not> bit b 7" using byte_tests(1) [of b] by (metis word_neq_0_conv)
  ultimately show ?thesis by simp
qed

lemma obu_type_bytes:
  assumes "obu_assigned ob"
  shows "obu_type (obu_bytes ob) = 1 \<longleftrightarrow> ob_type ob = 1" "is_frame (obu_bytes ob) \<longleftrightarrow> holds_frame ob"
proof -
  have "ob_type ob \<in> {0, 1, 2, 3, 4, 5, 6, 7, 8, 15}" using assms by (auto simp: obu_assigned_def)
  then show "obu_type (obu_bytes ob) = 1 \<longleftrightarrow> ob_type ob = 1" "is_frame (obu_bytes ob) \<longleftrightarrow> holds_frame ob"
    by (auto simp: obu_bytes_def obu_header_def is_frame_def obu_type_def holds_frame_def)
qed

lemma key_frame_bytes:
  assumes "ob_ext ob = None" "\<not> ob_sized ob" "\<not> reduced_still sequence"
  shows "key_frame (obu_bytes ob) \<longleftrightarrow> codes_key_frame sequence ob"
  using byte_frame_bits
  by (cases "ob_payload ob") (auto simp: obu_bytes_def assms key_frame_def codes_key_frame_def Let_def)

text \<open>
  C22. AV1: a packet that starts a coded video sequence (its first byte) with one to three OBU elements, sized as the
  RTP payload format prescribes, is a key frame exactly when the first is a sequence header and the first frame
  or frame header after it codes a key frame: \<open>show_existing_frame\<close> is 0 and \<open>frame_type\<close> is \<open>KEY_FRAME\<close>, whether
  or not \<open>show_frame\<close> says it is shown. This holds for OBUs of the types AV1 assigns when the frames have neither an
  extension header nor a size field, and the sequence is not of reduced still pictures: the code always
  takes the second byte of the OBU for the frame header (\<open>av1_extension_misread\<close>, \<open>av1_size_misread\<close>). Without an
  element count the answer is always no.
\<close>

theorem av1_key_frame:
  assumes "\<forall>ob \<in> set (first # obs). obu_assigned ob \<and> length (obu_bytes ob) < 2 ^ 28" "length obs \<le> 2"
    "\<forall>ob \<in> set obs. holds_frame ob \<longrightarrow> ob_ext ob = None \<and> \<not> ob_sized ob" "\<not> (ob_type first = 1 \<and> reduced_still first)"
    "h AND 0x88 = 0x08" "drop_bit 4 (h AND 0x30) = of_nat (length (first # obs))"
  shows "IsAV1KeyFrame (h # obu_elements (map obu_bytes (first # obs))) =
      Some (ob_type first = 1 \<and> (case List.find holds_frame obs of None \<Rightarrow> False | Some frame \<Rightarrow> codes_key_frame first frame)) \<and>
    (h' AND 0x30 = 0 \<longrightarrow> IsAV1KeyFrame (h' # payload) = Some False)"
proof -
  have ob: "\<forall>ob \<in> set (obu_bytes first # map obu_bytes obs). ob \<noteq> [] \<and> length ob < 2 ^ 28"
    using assms(1) by (auto simp: obu_bytes_def)
  have "first_frame_key (map obu_bytes obs) = (case List.find holds_frame obs of None \<Rightarrow> False | Some frame \<Rightarrow> codes_key_frame first frame)"
    if "ob_type first = 1"
    using assms(1,3,4) that by (induction obs) (auto simp: first_frame_key_def obu_type_bytes key_frame_bytes)
  then show ?thesis
    using IsAV1KeyFrame_elements [OF ob _ assms(5)] assms(1,2,6) IsAV1KeyFrame_uncounted [of h' payload]
    by (cases "ob_type first = 1") (simp_all add: obu_type_bytes)
qed

text \<open>
  An inter frame (\<open>frame_type\<close> 1) is taken for a key frame when its OBU has an extension header (here of
  temporal and spatial layer 0), or a size field.
\<close>

definition sample_sequence :: av1_obu where
  "sample_sequence = \<lparr>ob_type = 1, ob_ext = None, ob_sized = False, ob_payload = [0]\<rparr>"

lemma av1_extension_misread:
  "let frame = \<lparr>ob_type = 6, ob_ext = Some 0, ob_sized = False, ob_payload = [0x30, 0]\<rparr>
   in IsAV1KeyFrame (0x28 # obu_elements [obu_bytes sample_sequence, obu_bytes frame]) = Some True \<and> \<not> codes_key_frame sample_sequence frame"
  by code_simp

lemma av1_size_misread:
  "let frame = \<lparr>ob_type = 6, ob_ext = None, ob_sized = True, ob_payload = [0x30, 0]\<rparr>
   in IsAV1KeyFrame (0x28 # obu_elements [obu_bytes sample_sequence, obu_bytes frame]) = Some True \<and> \<not> codes_key_frame sample_sequence frame"
  by code_simp

section \<open>All codecs\<close>

text \<open>
  Whatever the codec name, the payload and the answer of the VP9 parser, key frame detection returns: no
  index out of range, no endless loop, and the answer is no for unknown codecs and for payloads that do not
  parse.
\<close>

theorem key_frame_total:
  "(\<exists>b. IsKeyFrame vp9_unmarshal codec payload = Some b) \<and>
   (map to_lower codec \<notin> {''h264'', ''h265'', ''vp8'', ''vp9'', ''av1''} \<longrightarrow> IsKeyFrame vp9_unmarshal codec payload = Some False) \<and>
   (map to_lower codec \<noteq> ''vp9'' \<and> (payload = None \<or> payload = Some []) \<longrightarrow> IsKeyFrame vp9_unmarshal codec payload = Some False) \<and>
   (map to_lower codec = ''vp9'' \<and> vp9_unmarshal payload = None \<longrightarrow> IsKeyFrame vp9_unmarshal codec payload = Some False)"
  using IsKeyFrame_total [of vp9_unmarshal codec payload]
  by (auto simp: IsKeyFrame_def Let_def IsH264KeyFrame_def IsH265KeyFrame_def IsAV1KeyFrame_def IsVP8KeyFrame_def IsVP9KeyFrame_def Unmarshal_def)

section \<open>Witnesses\<close>

theorem h264_key_frame_witness:
  "IsH264KeyFrame (0x78 # [] @ aggregate [[0x65, 1], [0x67]]) = Some True \<and>
   IsH264KeyFrame (0x7a # [0, 0] @ aggregate [[0, 7, 7] @ [0x65, 1], [1, 0, 0] @ [0x67]]) = Some True"
  using h264_key_frame [of "[[0x65, 1], [0x67]]" "[]" 0 "0x78" "[]" "[]" 0]
    h264_key_frame [of "[]" "[([0, 7, 7], [0x65, 1]), ([1, 0, 0], [0x67])]" 3 "0x7a" "[]" "[0, 0]" 0] by simp

theorem h265_key_frame_witness:
  "IsH265KeyFrame (0x60 # 1 # aggregate [[0x40, 1], [0x42]]) = Some True \<and>
   (\<exists>b. IsH265KeyFrame [0x62, 1, 0xA1, 7] = Some b \<and> \<not> b)"
  using h265_key_frame [of "[[0x40, 1], [0x42]]" "0x60" 1 "[]" 0] h265_key_frame [of "[]" "0x62" 1 "[7]" "0xA1"]
  by (simp add: hevc_type_def)

theorem av1_key_frame_witness:
  "IsAV1KeyFrame (0x28 # obu_elements [obu_bytes sample_sequence,
     obu_bytes \<lparr>ob_type = 6, ob_ext = None, ob_sized = False, ob_payload = [0x10, 0]\<rparr>]) = Some True"
  using av1_key_frame [of sample_sequence "[\<lparr>ob_type = 6, ob_ext = None, ob_sized = False, ob_payload = [0x10, 0]\<rparr>]" "0x28" 0 "[]"]
  by (simp add: sample_sequence_def obu_assigned_def holds_frame_def reduced_still_def codes_key_frame_def obu_bytes_def)

theorem key_frame_total_witness:
  "IsKeyFrame (\<lambda>_. None) ''VP9'' (Some [1, 2]) = Some False \<and> IsKeyFrame (\<lambda>_. None) ''opus'' None = Some False"
proof -
  have "map to_lower ''VP9'' = ''vp9''" "map to_lower ''opus'' = ''opus''" by code_simp+
  then show ?thesis
    using key_frame_total [of "\<lambda>_. None" "''VP9''" "Some [1, 2]"] key_frame_total [of "\<lambda>_. None" "''opus''" None] by simp
qed

end
