(* ===== verification/Go_Float.thy ===== *)
theory Go_Float
  imports "HOL-Library.Log_Nat" "HOL-Library.Signed_Division" Go_Time
begin

text \<open>
  Go's \<open>float64\<close>. A float is the rational it denotes; each operation
  of the code is the exact one followed by \<open>fl\<close>, the rounding to the nearest rational with a 53-bit
  significand, ties to even. Underflow, overflow and the non-numbers are outside the model: no value
  the components compute comes near them.
\<close>

section \<open>Rounding to the nearest float64\<close>

definition round_even :: "rat \<Rightarrow> int" where
  "round_even x = (let f = \<lfloor>x\<rfloor>; d = x - of_int f in
     if d < 1 / 2 then f else if 1 / 2 < d then f + 1 else if even f then f else f + 1)"

text \<open>The exponent of the leading bit of a positive rational.\<close>

definition ilog2 :: "rat \<Rightarrow> int" where
  "ilog2 x = (let (n, d) = quotient_of x; k = bitlen n - bitlen d in if 2 powi k \<le> x then k else k - 1)"

definition fl_pos :: "rat \<Rightarrow> rat" where
  "fl_pos x = (let e = ilog2 x - 52 in of_int (round_even (x / 2 powi e)) * 2 powi e)"

definition fl :: "rat \<Rightarrow> rat" where
  "fl x = (if x = 0 then 0 else if 0 < x then fl_pos x else - fl_pos (- x))"

text \<open>\<open>Duration.Seconds\<close> of a number of nanoseconds.\<close>

definition seconds :: "int \<Rightarrow> rat" where
  "seconds d = fl (of_int (d sdiv 1000000000) + fl (of_int (d smod 1000000000) / 1000000000))"

section \<open>Rounding is exact on small integers and monotone\<close>

lemma ilog2_bounds:
  assumes "0 < x"
  shows "2 powi ilog2 x \<le> x" "x < 2 powi (ilog2 x + 1)"
proof -
  obtain n d where q: "quotient_of x = (n, d)" by (cases "quotient_of x")
  have d: "0 < d" using quotient_of_denom_pos [OF q] .
  have x: "x = of_int n / of_int d" using quotient_of_div [OF q] .
  have n: "0 < n" using assms d unfolding x by (simp add: zero_less_divide_iff)
  define a where "a = bitlen n"
  define b where "b = bitlen d"
  have ab: "1 \<le> a" "1 \<le> b" using n d by (simp_all add: a_def b_def bitlen_alt_def)
  have p: "(2::rat) powi (k - 1) = of_int (2 ^ nat (k - 1))" "(2::rat) powi k = of_int (2 ^ nat k)" if "1 \<le> k" for k
    using that by (simp_all add: power_int_nonneg_exp)
  have "(of_int (2 ^ nat (a - 1)) :: rat) \<le> of_int n" "(of_int n :: rat) < of_int (2 ^ nat a)"
    "(of_int (2 ^ nat (b - 1)) :: rat) \<le> of_int d" "(of_int d :: rat) < of_int (2 ^ nat b)"
    using bitlen_bounds [OF n] bitlen_bounds [OF d] unfolding a_def b_def of_int_le_iff of_int_less_iff by blast+
  then have N: "(2::rat) powi (a - 1) \<le> of_int n" "of_int n < (2::rat) powi a"
    and D: "(2::rat) powi (b - 1) \<le> of_int d" "of_int d < (2::rat) powi b"
    using ab by (simp_all only: p)
  have dp: "(0::rat) < of_int d" using d by simp
  have lo: "2 powi (a - b - 1) < x"
  proof -
    have "2 powi (a - b - 1) * of_int d < (2::rat) powi (a - b - 1) * 2 powi b" using D by simp
    also have "\<dots> = 2 powi (a - 1)" by (simp add: power_int_add [symmetric])
    also have "\<dots> \<le> of_int n" using N by simp
    finally show ?thesis using dp by (simp add: x pos_less_divide_eq)
  qed
  have hi: "x < 2 powi (a - b + 1)"
  proof -
    have "of_int n < (2::rat) powi a" using N by simp
    also have "\<dots> = (2::rat) powi (a - b + 1) * 2 powi (b - 1)" by (simp add: power_int_add [symmetric])
    also have "\<dots> \<le> 2 powi (a - b + 1) * of_int d" using D by simp
    finally show ?thesis using dp by (simp add: x pos_divide_less_eq)
  qed
  have i: "ilog2 x = (if 2 powi (a - b) \<le> x then a - b else a - b - 1)"
    by (simp add: ilog2_def q a_def b_def)
  show "2 powi ilog2 x \<le> x" "x < 2 powi (ilog2 x + 1)" using lo hi by (auto simp: i)
qed

lemma round_even_of_int [simp]: "round_even (of_int n) = n"
  by (simp add: round_even_def)

lemma round_even_cases: "round_even x = \<lfloor>x\<rfloor> \<and> x \<le> of_int \<lfloor>x\<rfloor> + 1 / 2 \<or> round_even x = \<lfloor>x\<rfloor> + 1 \<and> of_int \<lfloor>x\<rfloor> + 1 / 2 \<le> x"
  by (auto simp: round_even_def Let_def)

lemma round_even_mono: "x \<le> y \<Longrightarrow> round_even x \<le> round_even y"
proof -
  assume xy: "x \<le> y"
  then have f: "\<lfloor>x\<rfloor> \<le> \<lfloor>y\<rfloor>" by (rule floor_mono)
  show ?thesis
  proof (cases "\<lfloor>x\<rfloor> = \<lfloor>y\<rfloor>")
    case True
    then show ?thesis using xy by (auto simp: round_even_def Let_def)
  next
    case False
    then show ?thesis using f round_even_cases [of x] round_even_cases [of y] by linarith
  qed
qed

lemma round_even_bounds:
  assumes "of_int a \<le> x" "x \<le> of_int b"
  shows "a \<le> round_even x" "round_even x \<le> b"
  using round_even_mono [OF assms(1)] round_even_mono [OF assms(2)] by simp_all

lemma fl_pos_bounds:
  assumes "0 < x"
  shows "2 powi ilog2 x \<le> fl_pos x" "fl_pos x \<le> 2 powi (ilog2 x + 1)"
proof -
  let ?e = "ilog2 x - 52"
  have s: "2 powi ilog2 x = 2 powi 52 * (2::rat) powi ?e" "2 powi (ilog2 x + 1) = 2 powi 53 * (2::rat) powi ?e"
    by (simp_all add: power_int_add [symmetric] add.commute del: power_int_numeral)
  have p: "(0::rat) < 2 powi ?e" by simp
  have "of_int (2 ^ 52) \<le> x / 2 powi ?e" "x / 2 powi ?e \<le> of_int (2 ^ 53)"
    using ilog2_bounds [OF assms] p unfolding s by (simp_all add: pos_le_divide_eq pos_divide_le_eq)
  from round_even_bounds [OF this] have "2 ^ 52 \<le> round_even (x / 2 powi ?e)" "round_even (x / 2 powi ?e) \<le> 2 ^ 53" .
  then have r: "(2::rat) powi 52 \<le> of_int (round_even (x / 2 powi ?e))" "of_int (round_even (x / 2 powi ?e)) \<le> (2::rat) powi 53"
    by simp_all
  show "2 powi ilog2 x \<le> fl_pos x" "fl_pos x \<le> 2 powi (ilog2 x + 1)"
    using mult_right_mono [OF r(1), of "2 powi ?e"] mult_right_mono [OF r(2), of "2 powi ?e"] p
    unfolding fl_pos_def Let_def s by simp_all
qed

lemma powi2_less: "(2::rat) powi m < 2 powi n \<Longrightarrow> m < n"
  by (rule ccontr) (use power_int_increasing [of n m "2::rat"] in simp)

lemma ilog2_mono: "0 < x \<Longrightarrow> x \<le> y \<Longrightarrow> ilog2 x \<le> ilog2 y"
proof -
  assume x: "0 < x" and xy: "x \<le> y"
  then have y: "0 < y" by simp
  have "(2::rat) powi ilog2 x < 2 powi (ilog2 y + 1)"
    using ilog2_bounds(1) [OF x] ilog2_bounds(2) [OF y] xy by linarith
  from powi2_less [OF this] show ?thesis by simp
qed

lemma fl_pos_mono: "0 < x \<Longrightarrow> x \<le> y \<Longrightarrow> fl_pos x \<le> fl_pos y"
proof -
  assume x: "0 < x" and xy: "x \<le> y"
  then have y: "0 < y" by simp
  show ?thesis
  proof (cases "ilog2 x = ilog2 y")
    case True
    let ?e = "ilog2 y - 52"
    have "round_even (x / 2 powi ?e) \<le> round_even (y / 2 powi ?e)"
      by (rule round_even_mono) (simp add: divide_right_mono xy)
    then show ?thesis by (simp add: fl_pos_def True Let_def)
  next
    case False
    then have "ilog2 x + 1 \<le> ilog2 y" using ilog2_mono [OF x xy] by simp
    then have "(2::rat) powi (ilog2 x + 1) \<le> 2 powi ilog2 y" by (rule power_int_increasing) simp_all
    then show ?thesis using fl_pos_bounds(2) [OF x] fl_pos_bounds(1) [OF y] by linarith
  qed
qed

lemma fl_0 [simp]: "fl 0 = 0" by (simp add: fl_def)

lemma fl_minus [simp]: "fl (- x) = - fl x" by (auto simp: fl_def)

lemma fl_pos_pos: "0 < x \<Longrightarrow> 0 < fl_pos x"
  by (rule less_le_trans [OF _ fl_pos_bounds(1)]) simp_all

lemma fl_nonneg: "0 \<le> x \<Longrightarrow> 0 \<le> fl x"
  using fl_pos_pos [of x] by (auto simp: fl_def)

lemma fl_mono: "x \<le> y \<Longrightarrow> fl x \<le> fl y"
proof -
  assume xy: "x \<le> y"
  consider "0 < x" | "y < 0" | "x \<le> 0" "0 \<le> y" using xy by linarith
  then show ?thesis
  proof cases
    case 1 then show ?thesis using fl_pos_mono [OF 1 xy] xy by (simp add: fl_def)
  next
    case 2 then show ?thesis using fl_pos_mono [of "- y" "- x"] xy by (simp add: fl_def)
  next
    case 3
    then show ?thesis using fl_nonneg [of "- x"] fl_nonneg [of y] by simp
  qed
qed

lemma fl_of_pos_int:
  assumes "0 < n" "n < 2 ^ 53"
  shows "fl_pos (of_int n) = of_int n"
proof -
  let ?x = "of_int n :: rat" and ?e = "ilog2 (of_int n) - 52"
  have x: "0 < ?x" using assms by simp
  have "(2::rat) powi ilog2 ?x < 2 powi 53"
    by (rule le_less_trans [OF ilog2_bounds(1) [OF x]]) (use assms(2) in simp)
  from powi2_less [OF this] have "ilog2 ?x < 53" .
  define k where "k = nat (52 - ilog2 ?x)"
  with \<open>ilog2 ?x < 53\<close> have e: "?e = - int k" by simp
  have "?x / 2 powi ?e = of_int (n * 2 ^ k)"
    by (simp add: e power_int_minus divide_inverse)
  then show ?thesis by (simp add: fl_pos_def e power_int_minus del: of_int_mult) simp
qed

lemma fl_of_int: "\<bar>n\<bar> < 2 ^ 53 \<Longrightarrow> fl (of_int n) = of_int n"
  using fl_of_pos_int [of n] fl_of_pos_int [of "- n"] by (auto simp: fl_def)

text \<open>Scaling an integer by a factor between 0 and 1 stays between 0 and the integer.\<close>

lemma fl_scale:
  assumes "0 \<le> f" "f \<le> 1" "\<bar>n\<bar> < 2 ^ 53"
  shows "0 \<le> n \<Longrightarrow> 0 \<le> float_to_int64 (fl (f * fl (of_int n))) \<and> float_to_int64 (fl (f * fl (of_int n))) \<le> n"
    and "n \<le> 0 \<Longrightarrow> n \<le> float_to_int64 (fl (f * fl (of_int n))) \<and> float_to_int64 (fl (f * fl (of_int n))) \<le> 0"
proof -
  have fn: "fl (of_int n) = of_int n" using assms by (intro fl_of_int)
  { assume n: "0 \<le> n"
    have m: "0 \<le> f * of_int n" "f * of_int n \<le> of_int n" using assms n by (simp_all add: mult_left_le_one_le)
    from fl_mono [OF m(2)] show "0 \<le> float_to_int64 (fl (f * fl (of_int n))) \<and> float_to_int64 (fl (f * fl (of_int n))) \<le> n"
      using fl_nonneg [OF m(1)] assms(3) unfolding fn by (intro float_to_int64_nonneg) auto }
  { assume n: "n \<le> 0"
    have m: "of_int n \<le> f * of_int n" "0 \<le> f * - of_int n" using assms n mult_left_le_one_le [of "- of_int n" f]
      by (simp_all add: mult_nonneg_nonpos del: of_int_minus)
    from fl_mono [OF m(1)] have lo: "of_int n \<le> fl (f * of_int n)" unfolding fn .
    have hi: "fl (f * of_int n) \<le> 0" using fl_nonneg [OF m(2)] fl_minus [of "f * of_int n"] by simp
    show "n \<le> float_to_int64 (fl (f * fl (of_int n))) \<and> float_to_int64 (fl (f * fl (of_int n))) \<le> 0"
      unfolding fn using float_to_int64_nonpos [OF hi lo] assms(3) by auto }
qed

end
