(* ===== verification/Owd.thy ===== *)
theory Owd
  imports Go_Float
begin

text \<open>
  The one-way delay estimator, \<^verbatim>\<open>pkg/latency/owd_estimator.go\<close>. Delays, clock readings and durations are
  nanoseconds at the width of \<open>int64\<close>; the two readings \<open>time.Now\<close> and \<open>time.Since\<close> make are the arguments
  \<open>now\<close> and \<open>since\<close>; the zero \<open>time.Time\<close> is \<open>None\<close>. Floats are rounded to \<open>float64\<close> at every operation.
  A reset wait of 0, for which the code divides a float by zero, is outside the model.
\<close>

section \<open>State\<close>

record OWDEstimatorParams =
  PropagationDelayFallFactor :: rat
  PropagationDelayRiseFactor :: rat
  PropagationDelaySpikeAdaptationFactor :: rat
  PropagationDelayDeltaThresholdMin :: int
  PropagationDelayDeltaThresholdMaxFactor :: int
  PropagationDelayDeltaHighResetNumReports :: int
  PropagationDelayDeltaHighResetWait :: int
  PropagationDelayDeltaLongTermAdaptationThreshold :: int

definition OWDEstimatorParamsDefault :: OWDEstimatorParams where
  "OWDEstimatorParamsDefault = \<lparr>
     PropagationDelayFallFactor = fl (9 / 10), PropagationDelayRiseFactor = fl (1 / 10),
     PropagationDelaySpikeAdaptationFactor = fl (1 / 2),
     PropagationDelayDeltaThresholdMin = 10 * 1000000, PropagationDelayDeltaThresholdMaxFactor = 2,
     PropagationDelayDeltaHighResetNumReports = 2, PropagationDelayDeltaHighResetWait = 10 * 1000000000,
     PropagationDelayDeltaLongTermAdaptationThreshold = 50 * 1000000\<rparr>"

record OWDEstimator =
  owd_params :: OWDEstimatorParams
  initialized :: bool
  initialAdjustmentDone :: bool
  lastSenderClockTimeNs :: int
  lastPropagationDelayNs :: int
  lastDeltaPropagationDelayNs :: int
  estimatedPropagationDelayNs :: int
  longTermDeltaPropagationDelayNs :: int
  propagationDelayDeltaHighCount :: int
  propagationDelayDeltaHighStartTime :: "int option"
  propagationDelaySpikeNs :: int

definition NewOWDEstimator :: "OWDEstimatorParams \<Rightarrow> OWDEstimator" where
  "NewOWDEstimator p = \<lparr>owd_params = p, initialized = False, initialAdjustmentDone = False,
     lastSenderClockTimeNs = 0, lastPropagationDelayNs = 0, lastDeltaPropagationDelayNs = 0,
     estimatedPropagationDelayNs = 0, longTermDeltaPropagationDelayNs = 0, propagationDelayDeltaHighCount = 0,
     propagationDelayDeltaHighStartTime = None, propagationDelaySpikeNs = 0\<rparr>"

definition owd_MarshalLogObject :: "OWDEstimator option \<Rightarrow> log_fields" where
  "owd_MarshalLogObject eo = (case eo of
     None \<Rightarrow> []
   | Some e \<Rightarrow> [(''lastSenderClockTimeNs'', LTime (Some (lastSenderClockTimeNs e))),
       (''lastPropagationDelayNs'', LDuration (lastPropagationDelayNs e)),
       (''lastDeltaPropagationDelayNs'', LDuration (lastDeltaPropagationDelayNs e)),
       (''estimatedPropagationDelayNs'', LDuration (estimatedPropagationDelayNs e)),
       (''longTermDeltaPropagationDelayNs'', LDuration (longTermDeltaPropagationDelayNs e)),
       (''propagationDelayDeltaHighCount'', LInt (propagationDelayDeltaHighCount e)),
       (''propagationDelayDeltaHighStartTime'', LTime (propagationDelayDeltaHighStartTime e)),
       (''propagationDelaySpikeNs'', LDuration (propagationDelaySpikeNs e))])"

section \<open>An update\<close>

definition resetDelta :: "OWDEstimator \<Rightarrow> OWDEstimator" where
  "resetDelta e = e\<lparr>propagationDelayDeltaHighCount := 0, propagationDelayDeltaHighStartTime := None,
     propagationDelaySpikeNs := 0\<rparr>"

definition initPropagationDelay :: "int \<Rightarrow> OWDEstimator \<Rightarrow> OWDEstimator" where
  "initPropagationDelay pd e =
     resetDelta (e\<lparr>estimatedPropagationDelayNs := pd, longTermDeltaPropagationDelayNs := 0\<rparr>)"

text \<open>The conversion \<open>int64(factor * float64(d))\<close>.\<close>

definition scaled :: "rat \<Rightarrow> int \<Rightarrow> int" where
  "scaled factor d = float_to_int64 (fl (factor * fl (of_int d)))"

definition spike_adapted :: "OWDEstimator \<Rightarrow> int" where
  "spike_adapted e =
    (if propagationDelaySpikeNs e = 0 then lastPropagationDelayNs e
     else wrap64 (propagationDelaySpikeNs e + scaled (PropagationDelaySpikeAdaptationFactor (owd_params e))
       (wrap64 (lastPropagationDelayNs e - propagationDelaySpikeNs e))))"

text \<open>A report whose delta is high: the estimate moves only when the high deltas have persisted.\<close>

definition high_delta :: "int \<Rightarrow> int \<Rightarrow> OWDEstimator \<Rightarrow> bool \<times> OWDEstimator" where
  "high_delta now since e =
    (let e = e\<lparr>propagationDelayDeltaHighCount := wrap64 (propagationDelayDeltaHighCount e + 1)\<rparr>;
         start = (case propagationDelayDeltaHighStartTime e of None \<Rightarrow> now | Some t \<Rightarrow> t);
         e = e\<lparr>propagationDelayDeltaHighStartTime := Some start\<rparr>;
         e = e\<lparr>propagationDelaySpikeNs := spike_adapted e\<rparr>
     in if propagationDelayDeltaHighCount e \<ge> PropagationDelayDeltaHighResetNumReports (owd_params e) \<and>
           time_sub since start \<ge> PropagationDelayDeltaHighResetWait (owd_params e)
        then (True, initPropagationDelay (propagationDelaySpikeNs e) e)
        else (False, e))"

definition adapt_estimate :: "OWDEstimator \<Rightarrow> OWDEstimator" where
  "adapt_estimate e =
    (let factor = (if lastPropagationDelayNs e > estimatedPropagationDelayNs e
           then PropagationDelayRiseFactor (owd_params e) else PropagationDelayFallFactor (owd_params e))
     in e\<lparr>estimatedPropagationDelayNs := wrap64 (estimatedPropagationDelayNs e +
          scaled factor (wrap64 (lastPropagationDelayNs e - estimatedPropagationDelayNs e)))\<rparr>)"

definition is_high :: "OWDEstimator \<Rightarrow> bool" where
  "is_high e \<longleftrightarrow> longTermDeltaPropagationDelayNs e \<noteq> 0 \<and>
     lastDeltaPropagationDelayNs e >
       wrap64 (longTermDeltaPropagationDelayNs e * PropagationDelayDeltaThresholdMaxFactor (owd_params e))"

definition path_change :: "int \<Rightarrow> int \<Rightarrow> OWDEstimator \<Rightarrow> bool \<times> OWDEstimator" where
  "path_change now since e =
    (if lastDeltaPropagationDelayNs e > PropagationDelayDeltaThresholdMin (owd_params e) then
       if is_high e then high_delta now since e else (False, resetDelta e)
     else (False, adapt_estimate (resetDelta e)))"

definition adapt_longTerm :: "int \<Rightarrow> OWDEstimator \<Rightarrow> OWDEstimator" where
  "adapt_longTerm sender e =
    (let e = (if lastDeltaPropagationDelayNs e < PropagationDelayDeltaLongTermAdaptationThreshold (owd_params e) then
           if longTermDeltaPropagationDelayNs e = 0
           then e\<lparr>longTermDeltaPropagationDelayNs := lastDeltaPropagationDelayNs e\<rparr>
           else
             let sinceLast = wrap64 (sender - lastSenderClockTimeNs e);
                 adaptationFactor = min 1 (fl (fl (of_int sinceLast) /
                   fl (of_int (PropagationDelayDeltaHighResetWait (owd_params e)))))
             in e\<lparr>longTermDeltaPropagationDelayNs := wrap64 (longTermDeltaPropagationDelayNs e +
                  scaled adaptationFactor (wrap64 (lastDeltaPropagationDelayNs e - longTermDeltaPropagationDelayNs e)))\<rparr>
         else e)
     in if longTermDeltaPropagationDelayNs e < 0 then e\<lparr>longTermDeltaPropagationDelayNs := 0\<rparr> else e)"

definition Update :: "int \<Rightarrow> int \<Rightarrow> int \<Rightarrow> int \<Rightarrow> OWDEstimator \<Rightarrow> int \<times> bool \<times> OWDEstimator" where
  "Update now since sender receiver e =
    (let e = e\<lparr>lastPropagationDelayNs := wrap64 (receiver - sender)\<rparr> in
     if \<not> initialized e then
       let e = initPropagationDelay (lastPropagationDelayNs e)
             (e\<lparr>initialized := True, lastSenderClockTimeNs := sender\<rparr>)
       in (estimatedPropagationDelayNs e, True, e)
     else
       let e = e\<lparr>lastDeltaPropagationDelayNs := wrap64 (lastPropagationDelayNs e - estimatedPropagationDelayNs e)\<rparr>;
           (stepChange, e) = path_change now since e;
           e = (adapt_longTerm sender e)\<lparr>lastSenderClockTimeNs := sender\<rparr>
       in (estimatedPropagationDelayNs e, stepChange, e))"

definition InitialAdjustment :: "int \<Rightarrow> OWDEstimator \<Rightarrow> int \<times> OWDEstimator" where
  "InitialAdjustment adjustmentNs e =
    (if initialAdjustmentDone e then (estimatedPropagationDelayNs e, e)
     else
       let e = e\<lparr>initialAdjustmentDone := True\<rparr>;
           e = (if adjustmentNs < 0 \<and> wrap64 (- adjustmentNs) < estimatedPropagationDelayNs e
             then e\<lparr>estimatedPropagationDelayNs := wrap64 (estimatedPropagationDelayNs e + adjustmentNs)\<rparr> else e)
       in (estimatedPropagationDelayNs e, e))"

definition EstimatedPropagationDelay :: "OWDEstimator \<Rightarrow> int" where
  "EstimatedPropagationDelay e = estimatedPropagationDelayNs e"


section \<open>Moving towards a sample\<close>

text \<open>Delays of less than \<open>2 ^ 52\<close> nanoseconds, 52 days: their differences are exact as floats.\<close>

abbreviation delay_ok :: "int \<Rightarrow> bool" where
  "delay_ok d \<equiv> \<bar>d\<bar> < 4503599627370496"

lemma move_towards:
  assumes f: "0 \<le> f" "f \<le> 1" and ok: "delay_ok a" "delay_ok b"
  shows "min a b \<le> wrap64 (a + scaled f (wrap64 (b - a))) \<and> wrap64 (a + scaled f (wrap64 (b - a))) \<le> max a b"
proof -
  have d: "wrap64 (b - a) = b - a" using ok by (intro wrap64_id) linarith+
  have s: "\<bar>b - a\<bar> < 2 ^ 53" using ok by simp
  note sc = fl_scale [OF f s, folded scaled_def]
  have "min a b \<le> a + scaled f (b - a) \<and> a + scaled f (b - a) \<le> max a b"
    using sc by (cases "0 \<le> b - a") auto
  moreover from this have "wrap64 (a + scaled f (b - a)) = a + scaled f (b - a)"
    using ok by (intro wrap64_id) linarith+
  ultimately show ?thesis by (simp add: d)
qed

lemma move_within:
  assumes "0 \<le> f" "f \<le> 1" "delay_ok lo" "delay_ok hi" "lo \<le> a" "a \<le> hi" "lo \<le> b" "b \<le> hi"
  shows "lo \<le> wrap64 (a + scaled f (wrap64 (b - a)))" "wrap64 (a + scaled f (wrap64 (b - a))) \<le> hi"
  using move_towards [of f a b] assms by linarith+

definition factors_ok :: "OWDEstimatorParams \<Rightarrow> bool" where
  "factors_ok p \<longleftrightarrow> 0 \<le> PropagationDelayFallFactor p \<and> PropagationDelayFallFactor p \<le> 1 \<and>
     0 \<le> PropagationDelayRiseFactor p \<and> PropagationDelayRiseFactor p \<le> 1 \<and>
     0 \<le> PropagationDelaySpikeAdaptationFactor p \<and> PropagationDelaySpikeAdaptationFactor p \<le> 1"

lemma fl_unit: "0 \<le> x \<Longrightarrow> x \<le> 1 \<Longrightarrow> 0 \<le> fl x \<and> fl x \<le> 1"
  using fl_nonneg [of x] fl_mono [of x 1] fl_of_int [of 1] by simp

lemma default_factors_ok: "factors_ok OWDEstimatorParamsDefault"
  by (simp add: factors_ok_def OWDEstimatorParamsDefault_def fl_unit)

section \<open>The estimate stays among the observed delays\<close>

lemma reset_fields [simp]:
  "estimatedPropagationDelayNs (resetDelta e) = estimatedPropagationDelayNs e"
  "longTermDeltaPropagationDelayNs (resetDelta e) = longTermDeltaPropagationDelayNs e"
  "lastPropagationDelayNs (resetDelta e) = lastPropagationDelayNs e"
  "lastDeltaPropagationDelayNs (resetDelta e) = lastDeltaPropagationDelayNs e"
  "propagationDelaySpikeNs (resetDelta e) = 0" "propagationDelayDeltaHighCount (resetDelta e) = 0"
  "propagationDelayDeltaHighStartTime (resetDelta e) = None"
  "owd_params (resetDelta e) = owd_params e" "initialized (resetDelta e) = initialized e"
  "initialAdjustmentDone (resetDelta e) = initialAdjustmentDone e"
  by (simp_all add: resetDelta_def)

lemma init_fields [simp]:
  "estimatedPropagationDelayNs (initPropagationDelay pd e) = pd"
  "longTermDeltaPropagationDelayNs (initPropagationDelay pd e) = 0"
  "lastDeltaPropagationDelayNs (initPropagationDelay pd e) = lastDeltaPropagationDelayNs e"
  "propagationDelaySpikeNs (initPropagationDelay pd e) = 0" "propagationDelayDeltaHighCount (initPropagationDelay pd e) = 0"
  "propagationDelayDeltaHighStartTime (initPropagationDelay pd e) = None"
  "owd_params (initPropagationDelay pd e) = owd_params e" "initialized (initPropagationDelay pd e) = initialized e"
  by (simp_all add: initPropagationDelay_def)

lemma longTerm_fields [simp]:
  "estimatedPropagationDelayNs (adapt_longTerm s e) = estimatedPropagationDelayNs e"
  "propagationDelaySpikeNs (adapt_longTerm s e) = propagationDelaySpikeNs e"
  "propagationDelayDeltaHighCount (adapt_longTerm s e) = propagationDelayDeltaHighCount e"
  "propagationDelayDeltaHighStartTime (adapt_longTerm s e) = propagationDelayDeltaHighStartTime e"
  "owd_params (adapt_longTerm s e) = owd_params e" "initialized (adapt_longTerm s e) = initialized e"
  "0 \<le> longTermDeltaPropagationDelayNs (adapt_longTerm s e)"
  by (simp_all add: adapt_longTerm_def Let_def)

definition owd_inv :: "OWDEstimatorParams \<Rightarrow> int \<Rightarrow> int \<Rightarrow> OWDEstimator \<Rightarrow> bool" where
  "owd_inv p lo hi e \<longleftrightarrow> owd_params e = p \<and> 0 \<le> longTermDeltaPropagationDelayNs e \<and>
     (if initialized e then lo \<le> estimatedPropagationDelayNs e \<and> estimatedPropagationDelayNs e \<le> hi \<and>
        (propagationDelaySpikeNs e = 0 \<or> lo \<le> propagationDelaySpikeNs e \<and> propagationDelaySpikeNs e \<le> hi)
      else estimatedPropagationDelayNs e = 0)"

lemma spike_within:
  assumes "factors_ok (owd_params e)" "delay_ok lo" "delay_ok hi"
    and "lo \<le> lastPropagationDelayNs e" "lastPropagationDelayNs e \<le> hi"
    and "propagationDelaySpikeNs e = 0 \<or> lo \<le> propagationDelaySpikeNs e \<and> propagationDelaySpikeNs e \<le> hi"
  shows "lo \<le> spike_adapted e \<and> spike_adapted e \<le> hi"
  using assms move_within [of "PropagationDelaySpikeAdaptationFactor (owd_params e)" lo hi "propagationDelaySpikeNs e" "lastPropagationDelayNs e"]
  by (auto simp: spike_adapted_def factors_ok_def)

lemma path_change_within:
  assumes p: "factors_ok (owd_params e)" and r: "delay_ok lo" "delay_ok hi"
    and l: "lo \<le> lastPropagationDelayNs e" "lastPropagationDelayNs e \<le> hi" and i: "owd_inv (owd_params e) lo hi e" "initialized e"
  shows "owd_inv (owd_params e) lo hi (snd (path_change now since e)) \<and> initialized (snd (path_change now since e))"
proof -
  have e: "lo \<le> estimatedPropagationDelayNs e" "estimatedPropagationDelayNs e \<le> hi" using i by (simp_all add: owd_inv_def)
  have "owd_inv (owd_params e) lo hi (adapt_estimate (resetDelta e))"
    using i p move_within [OF _ _ r e l] by (auto simp: adapt_estimate_def Let_def owd_inv_def factors_ok_def)
  moreover have "owd_inv (owd_params e) lo hi (snd (high_delta now since e))"
  proof -
    define g where "g = e\<lparr>propagationDelayDeltaHighCount := wrap64 (propagationDelayDeltaHighCount e + 1),
       propagationDelayDeltaHighStartTime := Some (case propagationDelayDeltaHighStartTime e of None \<Rightarrow> now | Some t \<Rightarrow> t)\<rparr>"
    have "lo \<le> spike_adapted g \<and> spike_adapted g \<le> hi"
      by (rule spike_within) (use p r l i in \<open>auto simp: g_def owd_inv_def\<close>)
    then show ?thesis using i by (auto simp: high_delta_def Let_def owd_inv_def g_def)
  qed
  moreover have "owd_inv (owd_params e) lo hi (resetDelta e)" using i by (simp add: owd_inv_def)
  ultimately show ?thesis
    using i by (auto simp: path_change_def high_delta_def adapt_estimate_def Let_def)
qed

lemma longTerm_inv: "owd_inv p lo hi e \<Longrightarrow> initialized e \<Longrightarrow> owd_inv p lo hi ((adapt_longTerm s e)\<lparr>lastSenderClockTimeNs := s\<rparr>)"
  by (simp add: owd_inv_def)

lemma Update_inv [inv_intros]:
  assumes p: "factors_ok p" and r: "delay_ok lo" "delay_ok hi"
    and l: "lo \<le> receiver - sender" "receiver - sender \<le> hi" and i: "owd_inv p lo hi e"
  shows "owd_inv p lo hi (snd (snd (Update now since sender receiver e)))"
proof -
  have d: "wrap64 (receiver - sender) = receiver - sender" using r l by (intro wrap64_id) linarith+
  show ?thesis
  proof (cases "initialized e")
    case False
    then show ?thesis using i l by (simp add: Update_def d owd_inv_def)
  next
    case True
    define g where "g = e\<lparr>lastPropagationDelayNs := receiver - sender,
      lastDeltaPropagationDelayNs := wrap64 (receiver - sender - estimatedPropagationDelayNs e)\<rparr>"
    have g: "owd_params g = p" "initialized g" "owd_inv p lo hi g" using i True by (simp_all add: g_def owd_inv_def)
    have "owd_inv p lo hi (snd (path_change now since g)) \<and> initialized (snd (path_change now since g))"
      using path_change_within [of g lo hi now since] g p r l by (simp add: g_def)
    then have "owd_inv p lo hi ((adapt_longTerm sender (snd (path_change now since g)))\<lparr>lastSenderClockTimeNs := sender\<rparr>)"
      by (intro longTerm_inv) simp_all
    then show ?thesis by (simp add: Update_def d True Let_def split_beta g_def)
  qed
qed

text \<open>
  The least the estimate can be after an initial adjustment by \<open>a\<close> from \<open>lo\<close> or more: a negative adjustment moves it down
  by that much at most, and only to a positive value.
\<close>

definition lowered :: "int \<Rightarrow> int \<Rightarrow> int" where
  "lowered a lo = (if a < 0 then min lo (max 1 (lo + a)) else lo)"

lemma lowered_le: "lowered a lo \<le> lo"
  by (simp add: lowered_def)

lemma lowered_ok: "delay_ok lo \<Longrightarrow> delay_ok (lowered a lo)"
  by (auto simp: lowered_def)

lemma owd_inv_mono: "owd_inv p lo hi e \<Longrightarrow> lo' \<le> lo \<Longrightarrow> owd_inv p lo' hi e"
  by (auto simp: owd_inv_def)

lemma Adjustment_lowers:
  assumes "delay_ok lo" "delay_ok hi" "- 9223372036854775808 < a" "owd_inv p lo hi e"
  shows "owd_inv p (lowered a lo) hi (snd (InitialAdjustment a e)) \<and> initialAdjustmentDone (snd (InitialAdjustment a e))"
proof (cases "\<not> initialAdjustmentDone e \<and> a < 0 \<and> wrap64 (- a) < estimatedPropagationDelayNs e")
  case True
  then have n: "wrap64 (- a) = - a" using assms(3) by (intro wrap64_id) linarith+
  then have i: "initialized e" using True assms(4) by (auto simp: owd_inv_def split: if_splits)
  then have "wrap64 (estimatedPropagationDelayNs e + a) = estimatedPropagationDelayNs e + a"
    using True assms n by (intro wrap64_id) (auto simp: owd_inv_def)
  then show ?thesis using True n i assms by (auto simp: InitialAdjustment_def Let_def owd_inv_def lowered_def)
next
  case False
  then show ?thesis using owd_inv_mono [OF assms(4) lowered_le [of a lo]]
    by (auto simp: InitialAdjustment_def Let_def owd_inv_def)
qed

datatype owd_call = UpdateCall int int int int | AdjustCall int

fun owd_exec :: "owd_call \<Rightarrow> OWDEstimator \<Rightarrow> OWDEstimator" where
  "owd_exec (UpdateCall now since sender receiver) e = snd (snd (Update now since sender receiver e))"
| "owd_exec (AdjustCall a) e = snd (InitialAdjustment a e)"

text \<open>Delays between \<open>lo\<close> and \<open>hi\<close>; adjustments only once the initial one is \<open>over\<close>, when they do nothing.\<close>

fun owd_ok :: "bool \<Rightarrow> int \<Rightarrow> int \<Rightarrow> owd_call \<Rightarrow> bool" where
  "owd_ok over lo hi (UpdateCall now since sender receiver) \<longleftrightarrow> lo \<le> receiver - sender \<and> receiver - sender \<le> hi"
| "owd_ok over lo hi (AdjustCall a) \<longleftrightarrow> over"

lemma Update_done [simp]: "initialAdjustmentDone (snd (snd (Update now since sender receiver e))) = initialAdjustmentDone e"
  by (simp add: Update_def Let_def path_change_def high_delta_def adapt_estimate_def adapt_longTerm_def initPropagationDelay_def resetDelta_def split_beta)

interpretation owd: component
  "\<lambda>e. factors_ok p \<and> delay_ok lo \<and> delay_ok hi \<and> owd_inv p lo hi e \<and> (over \<longrightarrow> initialAdjustmentDone e)" "owd_ok over lo hi" owd_exec
  for p lo hi over
proof unfold_locales
  fix e c
  assume "factors_ok p \<and> delay_ok lo \<and> delay_ok hi \<and> owd_inv p lo hi e \<and> (over \<longrightarrow> initialAdjustmentDone e)" "owd_ok over lo hi c"
  then show "factors_ok p \<and> delay_ok lo \<and> delay_ok hi \<and> owd_inv p lo hi (owd_exec c e) \<and> (over \<longrightarrow> initialAdjustmentDone (owd_exec c e))"
    by (cases c) (simp_all add: Update_inv InitialAdjustment_def)
qed

text \<open>The delays reported by a run of calls, and the adjustment that counts: the first.\<close>

fun delays :: "owd_call list \<Rightarrow> int list" where
  "delays [] = []"
| "delays (UpdateCall now since sender receiver # cs) = (receiver - sender) # delays cs"
| "delays (AdjustCall a # cs) = delays cs"

fun first_adjustment :: "owd_call list \<Rightarrow> int" where
  "first_adjustment [] = 0"
| "first_adjustment (UpdateCall now since sender receiver # cs) = first_adjustment cs"
| "first_adjustment (AdjustCall a # cs) = a"

lemma owd_run_adjusted:
  assumes "\<forall>d \<in> set (delays cs). lo \<le> d \<and> d \<le> hi" "initialAdjustmentDone e" "factors_ok p" "delay_ok lo" "delay_ok hi" "owd_inv p lo hi e"
  shows "owd_inv p lo hi (fold owd_exec cs e)"
proof -
  have "list_all (owd_ok True lo hi) cs" using assms(1) by (induction cs rule: delays.induct) auto
  then show ?thesis using owd.run_inv [of p lo hi e True cs] assms by blast
qed

lemma owd_run_lowered:
  assumes "factors_ok p" "delay_ok lo" "delay_ok hi"
  shows "\<forall>d \<in> set (delays cs). lo \<le> d \<and> d \<le> hi \<Longrightarrow> - 9223372036854775808 < first_adjustment cs \<Longrightarrow> owd_inv p lo hi e \<Longrightarrow>
    owd_inv p (lowered (first_adjustment cs) lo) hi (fold owd_exec cs e)"
proof (induction cs arbitrary: e rule: delays.induct)
  case 1
  then show ?case by (simp add: lowered_def)
next
  case (2 now since sender receiver cs)
  then show ?case using Update_inv [OF assms, of receiver sender e now since] by simp
next
  case (3 a cs)
  have a: "owd_inv p (lowered a lo) hi (snd (InitialAdjustment a e))" "initialAdjustmentDone (snd (InitialAdjustment a e))"
    using Adjustment_lowers [OF assms(2,3) _ 3(4)] 3(3) by simp_all
  have "\<forall>d \<in> set (delays cs). lowered a lo \<le> d \<and> d \<le> hi" using 3(2) lowered_le [of a lo] by force
  from owd_run_adjusted [OF this a(2) assms(1) lowered_ok [OF assms(2)] assms(3) a(1)] show ?case by simp
qed

section \<open>A rise of the delay that persists\<close>

text \<open>Reports (their two clock readings and the sender's time) that all see the delay \<open>d\<close>, and what they return.\<close>

fun owd_reports :: "int \<Rightarrow> (int \<times> int \<times> int) list \<Rightarrow> OWDEstimator \<Rightarrow> (int \<times> bool) list" where
  "owd_reports d [] e = []"
| "owd_reports d ((now, since, sender) # rs) e =
    (let (est, step, e) = Update now since sender (sender + d) e in (est, step) # owd_reports d rs e)"

definition persisted :: "OWDEstimatorParams \<Rightarrow> int \<Rightarrow> nat \<Rightarrow> int \<Rightarrow> bool" where
  "persisted p t0 n since \<longleftrightarrow> PropagationDelayDeltaHighResetNumReports p \<le> int n \<and>
     PropagationDelayDeltaHighResetWait p \<le> time_sub since t0"

text \<open>\<open>k\<close> reports have seen the high delay \<open>d\<close>, the first at \<open>t0\<close>; none yet when \<open>k = 0\<close>.\<close>

definition rising :: "int \<Rightarrow> int \<Rightarrow> int \<Rightarrow> nat \<Rightarrow> int \<Rightarrow> OWDEstimator \<Rightarrow> bool" where
  "rising d est lt k t0 e \<longleftrightarrow> initialized e \<and> estimatedPropagationDelayNs e = est \<and> longTermDeltaPropagationDelayNs e = lt \<and>
     propagationDelayDeltaHighCount e = int k \<and> propagationDelayDeltaHighStartTime e = (if k = 0 then None else Some t0) \<and>
     propagationDelaySpikeNs e = (if k = 0 then 0 else d)"

definition raised :: "OWDEstimatorParams \<Rightarrow> int \<Rightarrow> int \<Rightarrow> bool" where
  "raised p est d \<longleftrightarrow> delay_ok est \<and> delay_ok d \<and> PropagationDelayDeltaThresholdMin p < d - est \<and>
     PropagationDelayDeltaLongTermAdaptationThreshold p \<le> d - est"

lemma scaled_0 [simp]: "scaled f 0 = 0"
  by (simp add: scaled_def float_to_int64_def)

lemma longTerm_frozen:
  "PropagationDelayDeltaLongTermAdaptationThreshold (owd_params e) \<le> lastDeltaPropagationDelayNs e \<Longrightarrow>
   0 \<le> longTermDeltaPropagationDelayNs e \<Longrightarrow> adapt_longTerm s e = e"
  by (simp add: adapt_longTerm_def)

lemma Update_raised:
  assumes "raised (owd_params e) est d" "initialized e" "estimatedPropagationDelayNs e = est"
  defines "g \<equiv> e\<lparr>lastPropagationDelayNs := d, lastDeltaPropagationDelayNs := d - est\<rparr>"
  shows "Update now since sender (sender + d) e =
    (let (step, e') = (if is_high g then high_delta now since g else (False, resetDelta g));
         e' = (adapt_longTerm sender e')\<lparr>lastSenderClockTimeNs := sender\<rparr>
     in (estimatedPropagationDelayNs e', step, e'))"
proof -
  have "wrap64 (sender + d - sender) = d" "wrap64 (d - est) = d - est"
    using assms(1) by (auto simp: raised_def intro!: wrap64_id)
  then show ?thesis
    using assms by (simp add: Update_def path_change_def raised_def g_def Let_def split_beta)
qed

lemma rising_step:
  assumes up: "raised (owd_params e) est d" and lt: "0 < lt" "wrap64 (lt * PropagationDelayDeltaThresholdMaxFactor (owd_params e)) < d - est"
    and r: "rising d est lt k t0 e" and k: "int k < 2 ^ 63 - 1" and t: "k = 0 \<Longrightarrow> t0 = now"
  shows "if persisted (owd_params e) t0 (Suc k) since
    then \<exists>e'. Update now since sender (sender + d) e = (d, True, e')
    else \<exists>e'. Update now since sender (sender + d) e = (est, False, e') \<and> rising d est lt (Suc k) t0 e' \<and> owd_params e' = owd_params e"
proof -
  define g where "g = e\<lparr>lastPropagationDelayNs := d, lastDeltaPropagationDelayNs := d - est\<rparr>"
  have e: "initialized e" "estimatedPropagationDelayNs e = est" using r by (simp_all add: rising_def)
  have dd: "delay_ok d" "0 \<le> lt" using up lt by (simp_all add: raised_def)
  have h: "is_high g" using r lt by (simp add: is_high_def g_def rising_def)
  have w: "wrap64 (int k + 1) = int (Suc k)" using k by (subst wrap64_id) simp_all
  have st: "(case propagationDelayDeltaHighStartTime e of None \<Rightarrow> now | Some t \<Rightarrow> t) = t0" "propagationDelayDeltaHighCount e = int k"
    using r t by (auto simp: rising_def)
  define m where "m = g\<lparr>propagationDelayDeltaHighCount := int (Suc k), propagationDelayDeltaHighStartTime := Some t0\<rparr>"
  have dw: "wrap64 d = d" "wrap64 0 = 0" using dd by (auto intro!: wrap64_id)
  have sp: "spike_adapted m = d" using r dw by (simp add: spike_adapted_def m_def g_def rising_def)
  define m' where "m' = m\<lparr>propagationDelaySpikeNs := d\<rparr>"
  have hd: "high_delta now since g = (if persisted (owd_params e) t0 (Suc k) since then (True, initPropagationDelay d m') else (False, m'))"
    using sp w by (simp add: high_delta_def Let_def st g_def m_def m'_def persisted_def)
  have fr: "adapt_longTerm sender m' = m'" "adapt_longTerm sender (initPropagationDelay d m') = initPropagationDelay d m'"
    using up dd r by (auto intro!: longTerm_frozen simp: raised_def m'_def m_def g_def rising_def)
  have est: "estimatedPropagationDelayNs m' = est" using e by (simp add: m'_def m_def g_def)
  have U: "Update now since sender (sender + d) e = (if persisted (owd_params e) t0 (Suc k) since
      then (d, True, (initPropagationDelay d m')\<lparr>lastSenderClockTimeNs := sender\<rparr>)
      else (est, False, m'\<lparr>lastSenderClockTimeNs := sender\<rparr>))"
    unfolding Update_raised [OF up e, of now since sender, folded g_def] if_P [OF h] hd
    by (simp add: fr est)
  show ?thesis using r unfolding U by (simp add: rising_def m'_def m_def g_def)
qed

lemma rising_run:
  assumes lt: "0 < lt"
  shows "raised p est d \<Longrightarrow> owd_params e = p \<Longrightarrow> wrap64 (lt * PropagationDelayDeltaThresholdMaxFactor p) < d - est \<Longrightarrow>
    rising d est lt k t0 e \<Longrightarrow> int k + int (length rs) < 2 ^ 63 - 1 \<Longrightarrow> k = 0 \<longrightarrow> t0 = fst (hd (rs @ [r])) \<Longrightarrow>
    (\<And>i. i < length rs \<Longrightarrow> \<not> persisted p t0 (Suc (k + i)) (fst (snd (rs ! i)))) \<Longrightarrow>
    persisted p t0 (Suc (k + length rs)) (fst (snd r)) \<Longrightarrow>
    owd_reports d (rs @ [r]) e = replicate (length rs) (est, False) @ [(d, True)]"
proof (induction rs arbitrary: e k)
  case Nil
  obtain now since sender where r: "r = (now, since, sender)" by (cases r)
  have "raised (owd_params e) est d" "wrap64 (lt * PropagationDelayDeltaThresholdMaxFactor (owd_params e)) < d - est"
    using Nil by simp_all
  from rising_step [OF this(1) lt this(2) Nil.prems(4), of now since sender] Nil.prems
  obtain e' where "Update now since sender (sender + d) e = (d, True, e')" by (auto simp: r)
  then show ?case by (simp add: r)
next
  case (Cons q rs)
  obtain now since sender where q: "q = (now, since, sender)" by (cases q)
  have np: "\<not> persisted p t0 (Suc k) since" using Cons.prems(7) [of 0] by (simp add: q)
  have "raised (owd_params e) est d" "wrap64 (lt * PropagationDelayDeltaThresholdMaxFactor (owd_params e)) < d - est"
    using Cons.prems by simp_all
  from rising_step [OF this(1) lt this(2) Cons.prems(4), of now since sender] Cons.prems np
  obtain e' where U: "Update now since sender (sender + d) e = (est, False, e')" "rising d est lt (Suc k) t0 e'" "owd_params e' = p"
    by (auto simp: q)
  have "owd_reports d (rs @ [r]) e' = replicate (length rs) (est, False) @ [(d, True)]"
  proof (rule Cons.IH [OF Cons.prems(1) U(3) Cons.prems(3) U(2)])
    show "int (Suc k) + int (length rs) < 2 ^ 63 - 1" "Suc k = 0 \<longrightarrow> t0 = fst (hd (rs @ [r]))" using Cons.prems(5) by simp_all
    show "\<not> persisted p t0 (Suc (Suc k + i)) (fst (snd (rs ! i)))" if "i < length rs" for i
      using Cons.prems(7) [of "Suc i"] that by simp
    show "persisted p t0 (Suc (Suc k + length rs)) (fst (snd r))" using Cons.prems(8) by simp
  qed
  then show ?case by (simp add: q U)
qed

text \<open>Without a long-term delta no rise is high: nothing moves, however long it lasts.\<close>

lemma stuck_step:
  assumes "raised (owd_params e) est d" "initialized e" "estimatedPropagationDelayNs e = est" "longTermDeltaPropagationDelayNs e = 0"
  shows "\<exists>e'. Update now since sender (sender + d) e = (est, False, e') \<and> initialized e' \<and>
     estimatedPropagationDelayNs e' = est \<and> longTermDeltaPropagationDelayNs e' = 0 \<and> owd_params e' = owd_params e"
proof -
  let ?g = "resetDelta (e\<lparr>lastPropagationDelayNs := d, lastDeltaPropagationDelayNs := d - est\<rparr>)"
  have "adapt_longTerm sender ?g = ?g" using assms by (intro longTerm_frozen) (simp_all add: raised_def)
  then show ?thesis
    unfolding Update_raised [OF assms(1-3)] using assms by (simp add: is_high_def Let_def)
qed

lemma stuck_run:
  "raised (owd_params e) est d \<Longrightarrow> initialized e \<Longrightarrow> estimatedPropagationDelayNs e = est \<Longrightarrow> longTermDeltaPropagationDelayNs e = 0 \<Longrightarrow>
   owd_reports d rs e = replicate (length rs) (est, False)"
proof (induction rs arbitrary: e)
  case (Cons q rs)
  obtain now since sender where q: "q = (now, since, sender)" by (cases q)
  from stuck_step [OF Cons.prems, of now since sender] obtain e' where
    "Update now since sender (sender + d) e = (est, False, e')" "initialized e'" "estimatedPropagationDelayNs e' = est"
    "longTermDeltaPropagationDelayNs e' = 0" "owd_params e' = owd_params e" by blast
  then show ?case using Cons by (simp add: q)
qed simp


section \<open>Properties\<close>

lemma owd_exec_initialized: "initialized e \<Longrightarrow> initialized (owd_exec c e)"
  by (cases c) (auto simp: Update_def InitialAdjustment_def Let_def path_change_def high_delta_def adapt_estimate_def split_beta)

lemma owd_run_initialized: "initialized e \<Longrightarrow> initialized (fold owd_exec cs e)"
  by (induction cs arbitrary: e) (simp_all add: owd_exec_initialized)

text \<open>
  C23. From the first report on, and whatever reports arrive and whenever they do, the estimate is never above the greatest
  of the delays reported (sender to receiver clock differences of less than 52 days), through rises, falls and step
  changes, and never below the least of them, less the initial adjustment: only the first call of
  \<open>InitialAdjustment\<close> counts, only when it is negative, and it never takes a positive estimate to 0 or below. Without one
  the estimate stays between the least and the greatest delay.
\<close>

theorem owd_estimate_range:
  assumes "factors_ok p" "cs = UpdateCall now since sender receiver # calls" "\<forall>d \<in> set (delays cs). delay_ok d"
    "- 9223372036854775808 < first_adjustment cs"
  shows "lowered (first_adjustment cs) (Min (set (delays cs))) \<le> EstimatedPropagationDelay (fold owd_exec cs (NewOWDEstimator p)) \<and>
    EstimatedPropagationDelay (fold owd_exec cs (NewOWDEstimator p)) \<le> Max (set (delays cs)) \<and>
    (0 \<le> first_adjustment cs \<longrightarrow> Min (set (delays cs)) \<le> EstimatedPropagationDelay (fold owd_exec cs (NewOWDEstimator p)))"
proof -
  let ?e = "fold owd_exec cs (NewOWDEstimator p)" and ?lo = "Min (set (delays cs))" and ?hi = "Max (set (delays cs))"
  have ne: "set (delays cs) \<noteq> {}" by (simp add: assms(2))
  have ok: "delay_ok ?lo" "delay_ok ?hi" using assms(3) Min_in [OF _ ne] Max_in [OF _ ne] by blast+
  have "\<forall>d \<in> set (delays cs). ?lo \<le> d \<and> d \<le> ?hi" by simp
  from owd_run_lowered [OF assms(1) ok this assms(4), of "NewOWDEstimator p"]
  have "owd_inv p (lowered (first_adjustment cs) ?lo) ?hi ?e" by (simp add: owd_inv_def NewOWDEstimator_def)
  moreover have "initialized ?e" unfolding assms(2)
    by (simp, rule owd_run_initialized) (simp add: Update_def NewOWDEstimator_def Let_def)
  ultimately show ?thesis by (auto simp: owd_inv_def EstimatedPropagationDelay_def lowered_def)
qed

theorem owd_estimate_range_witness:
  "70 \<le> EstimatedPropagationDelay (fold owd_exec [UpdateCall 0 0 100 200, AdjustCall (- 30), UpdateCall 5 5 300 420] (NewOWDEstimator OWDEstimatorParamsDefault)) \<and>
   EstimatedPropagationDelay (fold owd_exec [UpdateCall 0 0 100 200, AdjustCall (- 30), UpdateCall 5 5 300 420] (NewOWDEstimator OWDEstimatorParamsDefault)) \<le> 120"
  using owd_estimate_range [OF default_factors_ok refl, of 0 0 100 200 "[AdjustCall (- 30), UpdateCall 5 5 300 420]"]
  by (simp add: lowered_def)

text \<open>
  C24. When the delay rises from the estimate by more than both thresholds and stays there, no report moves the
  estimate until enough of them have come and the reset wait has passed since the first: that report reports a step
  change to exactly the new delay. This needs a long-term delta that is not 0 and less than the rise (by its factor);
  when it is 0 the rise is never taken up, however many reports confirm it and however long it lasts.
\<close>

theorem owd_path_change:
  assumes "raised (owd_params e) (estimatedPropagationDelayNs e) d" "initialized e"
  shows "(propagationDelayDeltaHighCount e = 0 \<and> propagationDelayDeltaHighStartTime e = None \<and> propagationDelaySpikeNs e = 0 \<and>
      0 < longTermDeltaPropagationDelayNs e \<and>
      wrap64 (longTermDeltaPropagationDelayNs e * PropagationDelayDeltaThresholdMaxFactor (owd_params e)) < d - estimatedPropagationDelayNs e \<and>
      int (length rs) < 2 ^ 63 - 1 \<and>
      (\<forall>i < length rs. \<not> persisted (owd_params e) (fst (hd (rs @ [r]))) (Suc i) (fst (snd (rs ! i)))) \<and>
      persisted (owd_params e) (fst (hd (rs @ [r]))) (Suc (length rs)) (fst (snd r)) \<longrightarrow>
      owd_reports d (rs @ [r]) e = replicate (length rs) (estimatedPropagationDelayNs e, False) @ [(d, True)]) \<and>
    (longTermDeltaPropagationDelayNs e = 0 \<longrightarrow>
      owd_reports d rs e = replicate (length rs) (estimatedPropagationDelayNs e, False))" (is "(?A \<longrightarrow> ?B) \<and> (?C \<longrightarrow> ?D)")
proof
  show "?C \<longrightarrow> ?D" using stuck_run [OF assms refl] by simp
  show "?A \<longrightarrow> ?B"
  proof
    assume a: ?A
    then have "rising d (estimatedPropagationDelayNs e) (longTermDeltaPropagationDelayNs e) 0 (fst (hd (rs @ [r]))) e"
      using assms(2) by (simp add: rising_def)
    from rising_run [OF _ assms(1) refl _ this] a show ?B by auto
  qed
qed

definition owd_example :: OWDEstimator where
  "owd_example = (NewOWDEstimator OWDEstimatorParamsDefault)\<lparr>initialized := True,
     estimatedPropagationDelayNs := 20000000, longTermDeltaPropagationDelayNs := 1000000\<rparr>"

theorem owd_path_change_witness:
  "owd_reports 100000000 [(5, 6, 10), (2000000005, 2000000006, 2000000000), (10000000004, 10000000005, 10000000000)] owd_example =
     [(20000000, False), (20000000, False), (100000000, True)] \<and>
   owd_reports 100000000 [(5, 6, 10), (10000000004, 10000000005, 10000000000)] (owd_example\<lparr>longTermDeltaPropagationDelayNs := 0\<rparr>) =
     [(20000000, False), (20000000, False)]"
proof
  have r: "raised (owd_params owd_example) (estimatedPropagationDelayNs owd_example) 100000000" "initialized owd_example"
    by (simp_all add: raised_def owd_example_def NewOWDEstimator_def OWDEstimatorParamsDefault_def)
  show "owd_reports 100000000 [(5, 6, 10), (2000000005, 2000000006, 2000000000), (10000000004, 10000000005, 10000000000)] owd_example =
     [(20000000, False), (20000000, False), (100000000, True)]"
    using owd_path_change [OF r, THEN conjunct1, of "[(5, 6, 10), (2000000005, 2000000006, 2000000000)]" "(10000000004, 10000000005, 10000000000)"]
    by (simp add: owd_example_def NewOWDEstimator_def OWDEstimatorParamsDefault_def persisted_def time_sub_def wrap64_id
      less_Suc_eq all_conj_distrib numeral_2_eq_2)
  have "raised (owd_params (owd_example\<lparr>longTermDeltaPropagationDelayNs := 0\<rparr>)) (estimatedPropagationDelayNs (owd_example\<lparr>longTermDeltaPropagationDelayNs := 0\<rparr>)) 100000000"
    "initialized (owd_example\<lparr>longTermDeltaPropagationDelayNs := 0\<rparr>)"
    by (simp_all add: raised_def owd_example_def NewOWDEstimator_def OWDEstimatorParamsDefault_def)
  from owd_path_change [OF this, THEN conjunct2, of "[(5, 6, 10), (10000000004, 10000000005, 10000000000)]"]
  show "owd_reports 100000000 [(5, 6, 10), (10000000004, 10000000005, 10000000000)] (owd_example\<lparr>longTermDeltaPropagationDelayNs := 0\<rparr>) =
     [(20000000, False), (20000000, False)]"
    by (simp add: owd_example_def NewOWDEstimator_def)
qed

end
