(* ===== verification/Pacer.thy ===== *)
theory Pacer
  imports Go_Float
begin

text \<open>
  The parts every pacer shares, \<^verbatim>\<open>pkg/pacer\<close>: packets and their sizes (\<^verbatim>\<open>pacer.go\<close>), sending one
  (\<^verbatim>\<open>base.go\<close>, \<^verbatim>\<open>packet_time.go\<close>), the pacer without a queue (\<^verbatim>\<open>pass_through.go\<close>) and the factory
  (\<^verbatim>\<open>factory.go\<close>).

  The RTP header and what the code calls on it belong to pion/rtp and are parameters: \<open>setExt h id payload\<close> is
  \<open>Header.SetExtension\<close> (the header afterwards and its error), \<open>headerSize\<close> is \<open>MarshalSize\<close> and \<open>absSendTime t\<close>
  is \<open>NewAbsSendTimeExtension(t).Marshal()\<close>. A packet carries its own \<open>Writer\<close>, so the writer is a field of it.
  What sending does outside the packet is a list of effects in the order of the code. Log lines are left out.
\<close>

section \<open>Packets\<close>

record ExtensionData =
  ext_ID :: byte
  ext_Payload :: "byte list"

text \<open>\<open>pooled\<close> says that both the pool and the buffer to hand back are there.\<close>

record ('h, 'e) Packet =
  Header :: 'h
  Extensions :: "ExtensionData list"
  Payload :: "byte list"
  AbsSendTimeExtID :: byte
  Writer :: "'h \<Rightarrow> byte list \<Rightarrow> 'e + int"
  pooled :: bool
  pktSize :: int

definition getPktSize :: "('h \<Rightarrow> nat) \<Rightarrow> ('h, 'e) Packet \<Rightarrow> int \<times> ('h, 'e) Packet" where
  "getPktSize headerSize p =
    (let p = (if pktSize p = 0 then
           p\<lparr>pktSize := foldl (\<lambda>s ext. s + (int (length (ext_Payload ext)) + 1))
              (int (length (Payload p)) + int (headerSize (Header p))) (Extensions p)\<rparr>
         else p)
     in (pktSize p, p))"

section \<open>Sending a packet\<close>

text \<open>The base time of a \<open>PacketTime\<close> and the reading its \<open>Get\<close> makes on the monotonic clock.\<close>

definition packetTime_Get :: "int \<Rightarrow> int \<Rightarrow> int" where
  "packetTime_Get baseTime now = baseTime + time_sub now baseTime"

definition set_extension ::
  "('h \<Rightarrow> byte \<Rightarrow> byte list \<Rightarrow> 'h \<times> 'e option) \<Rightarrow> 'h \<Rightarrow> ExtensionData \<Rightarrow> 'h" where
  "set_extension setExt h ext =
    (if ext_ID ext = 0 \<or> length (ext_Payload ext) = 0 then h else fst (setExt h (ext_ID ext) (ext_Payload ext)))"

definition writeRTPHeaderExtensions ::
  "('h \<Rightarrow> byte \<Rightarrow> byte list \<Rightarrow> 'h \<times> 'e option) \<Rightarrow> (int \<Rightarrow> 'e + byte list) \<Rightarrow> int \<Rightarrow> int \<Rightarrow> ('h, 'e) Packet \<Rightarrow>
   ('e + int) \<times> ('h, 'e) Packet" where
  "writeRTPHeaderExtensions setExt absSendTime baseTime now p =
    (let p = p\<lparr>Header := foldl (set_extension setExt) (Header p) (Extensions p)\<rparr>;
         sendingAt = packetTime_Get baseTime now
     in if AbsSendTimeExtID p \<noteq> 0 then
          case absSendTime sendingAt of
            Inl err \<Rightarrow> (Inl err, p)
          | Inr b \<Rightarrow>
              let (h, err) = setExt (Header p) (AbsSendTimeExtID p) b;
                  p = p\<lparr>Header := h\<rparr>
              in (case err of Some err \<Rightarrow> (Inl err, p) | None \<Rightarrow> (Inr sendingAt, p))
        else (Inr sendingAt, p))"

datatype 'h effect = Written 'h "byte list" | ReturnedToPool

definition SendPacket ::
  "('h \<Rightarrow> byte \<Rightarrow> byte list \<Rightarrow> 'h \<times> 'e option) \<Rightarrow> (int \<Rightarrow> 'e + byte list) \<Rightarrow> int \<Rightarrow> int \<Rightarrow> ('h, 'e) Packet \<Rightarrow>
   ('e + int) \<times> ('h, 'e) Packet \<times> 'h effect list" where
  "SendPacket setExt absSendTime baseTime now p =
    (let finish = (if pooled p then [ReturnedToPool] else []);
         (res, p) = writeRTPHeaderExtensions setExt absSendTime baseTime now p
     in case res of
          Inl err \<Rightarrow> (Inl err, p, finish)
        | Inr _ \<Rightarrow> (Writer p (Header p) (Payload p), p, Written (Header p) (Payload p) # finish))"

text \<open>What the pacers share besides the logger is the base time; \<open>now\<close> is the clock when it is made.\<close>

record PacketTime =
  pt_baseTime :: int

definition NewPacketTime :: "int \<Rightarrow> PacketTime" where
  "NewPacketTime now = \<lparr>pt_baseTime = now\<rparr>"

record Base =
  packetTime :: PacketTime

definition NewBase :: "int \<Rightarrow> Base" where
  "NewBase now = \<lparr>packetTime = NewPacketTime now\<rparr>"

text \<open>A pacer that keeps no interval or bit rate ignores them.\<close>

definition Base_SetInterval :: "int \<Rightarrow> Base \<Rightarrow> Base" where
  "Base_SetInterval intvl b = b"

definition Base_SetBitrate :: "int \<Rightarrow> Base \<Rightarrow> Base" where
  "Base_SetBitrate bitrate b = b"

text \<open>A pacer without a queue sends what it is given.\<close>

type_synonym PassThrough = Base

definition NewPassThrough :: "int \<Rightarrow> PassThrough" where
  "NewPassThrough now = NewBase now"

definition PassThrough_Start :: "PassThrough \<Rightarrow> PassThrough" where
  "PassThrough_Start p = p"

definition PassThrough_Stop :: "PassThrough \<Rightarrow> PassThrough" where
  "PassThrough_Stop p = p"

definition PassThrough_Enqueue where
  "PassThrough_Enqueue = SendPacket"

section \<open>The factory\<close>

text \<open>The Go type is an \<open>int\<close>, so other values can be passed.\<close>

definition PassThroughPacer :: int where "PassThroughPacer = 0"
definition NoQueuePacer :: int where "NoQueuePacer = 1"
definition LeakyBucketPacer :: int where "LeakyBucketPacer = 2"

record pacerFactoryParams =
  SendInterval :: int
  Bitrate :: int
  MaxLatency :: int
  PacerType :: int

definition defaultPacerParams :: pacerFactoryParams where
  "defaultPacerParams = \<lparr>SendInterval = 5 * 1000000, Bitrate = 5000000, MaxLatency = 2 * 1000000000, PacerType = 0\<rparr>"

definition WithSendInterval :: "int \<Rightarrow> pacerFactoryParams \<Rightarrow> pacerFactoryParams" where
  "WithSendInterval sendInterval params = params\<lparr>SendInterval := sendInterval\<rparr>"

definition WithBitrate :: "int \<Rightarrow> pacerFactoryParams \<Rightarrow> pacerFactoryParams" where
  "WithBitrate bitrate params = params\<lparr>Bitrate := bitrate\<rparr>"

definition WithMaxLatency :: "int \<Rightarrow> pacerFactoryParams \<Rightarrow> pacerFactoryParams" where
  "WithMaxLatency maxLatency params = params\<lparr>MaxLatency := maxLatency\<rparr>"

definition NewPacerFactory :: "int \<Rightarrow> (pacerFactoryParams \<Rightarrow> pacerFactoryParams) list \<Rightarrow> pacerFactoryParams" where
  "NewPacerFactory pacerType opts = fold (\<lambda>opt. opt) opts (defaultPacerParams\<lparr>PacerType := pacerType\<rparr>)"

text \<open>A leaky bucket starts with the interval, bit rate and latency of the factory.\<close>

datatype pacer = IsPassThrough | IsNoQueue | IsLeakyBucket int int int

datatype pacer_error = UnknownPacerType int

definition NewPacer :: "pacerFactoryParams \<Rightarrow> pacer_error + pacer" where
  "NewPacer params =
    (if PacerType params = PassThroughPacer then Inr IsPassThrough
     else if PacerType params = NoQueuePacer then Inr IsNoQueue
     else if PacerType params = LeakyBucketPacer then
       Inr (IsLeakyBucket (SendInterval params) (Bitrate params) (MaxLatency params))
     else Inl (UnknownPacerType (PacerType params)))"


section \<open>Properties\<close>

text \<open>What the header holds after the extensions of a packet are set one after the other.\<close>

fun extended :: "(byte \<Rightarrow> byte list option) \<Rightarrow> ExtensionData list \<Rightarrow> (byte \<Rightarrow> byte list option)" where
  "extended m [] = m"
| "extended m (ext # exts) =
    extended (if ext_ID ext = 0 \<or> ext_Payload ext = [] then m else m(ext_ID ext \<mapsto> ext_Payload ext)) exts"

lemma set_extensions:
  assumes "\<And>h i b. i \<noteq> 0 \<Longrightarrow> getExt (fst (setExt h i b)) = (getExt h)(i \<mapsto> b)"
  shows "getExt (foldl (set_extension setExt) h exts) = extended (getExt h) exts"
  by (induction exts arbitrary: h) (simp_all add: set_extension_def assms)

text \<open>
  With a header whose \<open>SetExtension\<close> stores the payload under its id, sending a packet calls its writer once, with
  its payload and a header that holds every extension of the packet with an id and a payload and, when it has an id for it,
  the send time; the result is the writer's. Only when the send time cannot be set is nothing written and that error
  returned. A pooled buffer is returned exactly once, after the write, whatever happened.
\<close>

theorem send_packet:
  assumes setExt: "\<And>h i b. i \<noteq> 0 \<Longrightarrow> getExt (fst (setExt h i b)) = (getExt h)(i \<mapsto> b)"
  shows "\<exists>h. case SendPacket setExt absSendTime baseTime now p of (res, p', effects) \<Rightarrow>
    p' = p\<lparr>Header := h\<rparr> \<and>
    (let finish = (if pooled p then [ReturnedToPool] else []);
         sent = (res = Writer p h (Payload p) \<and> effects = Written h (Payload p) # finish)
     in if AbsSendTimeExtID p = 0 then sent \<and> getExt h = extended (getExt (Header p)) (Extensions p)
        else (case absSendTime (baseTime + time_sub now baseTime) of
            Inl err \<Rightarrow> res = Inl err \<and> effects = finish
          | Inr b \<Rightarrow> getExt h = (extended (getExt (Header p)) (Extensions p))(AbsSendTimeExtID p \<mapsto> b) \<and>
              (case snd (setExt (foldl (set_extension setExt) (Header p) (Extensions p)) (AbsSendTimeExtID p) b) of
                 Some err \<Rightarrow> res = Inl err \<and> effects = finish
               | None \<Rightarrow> sent)))"
  using set_extensions [of getExt setExt, OF setExt]
  by (auto simp: SendPacket_def writeRTPHeaderExtensions_def packetTime_Get_def Let_def setExt split: sum.splits option.splits prod.splits)
    (metis fst_conv setExt)+

definition example_setExt :: "(byte \<Rightarrow> byte list option) \<Rightarrow> byte \<Rightarrow> byte list \<Rightarrow> (byte \<Rightarrow> byte list option) \<times> unit option" where
  "example_setExt h i b = (h(i \<mapsto> b), None)"

definition example_sent :: "((byte \<Rightarrow> byte list option), unit) Packet" where
  "example_sent = \<lparr>Header = Map.empty, Extensions = [\<lparr>ext_ID = 1, ext_Payload = [2]\<rparr>], Payload = [9],
     AbsSendTimeExtID = 3, Writer = (\<lambda>_ b. Inr (int (length b))), pooled = True, pktSize = 0\<rparr>"

theorem send_packet_witness:
  "\<exists>h. case SendPacket example_setExt (\<lambda>_. Inr [7]) 0 5 example_sent of (res, p', effects) \<Rightarrow>
     res = Inr 1 \<and> effects = [Written h [9], ReturnedToPool] \<and> h = [1 \<mapsto> [2], 3 \<mapsto> [7]]"
  using send_packet [where getExt = "\<lambda>h. h" and setExt = example_setExt and absSendTime = "\<lambda>_. Inr [7]" and baseTime = 0 and now = 5 and p = example_sent]
  by (auto simp: example_setExt_def example_sent_def set_extension_def)

end
