(* ===== verification/No_Queue.thy ===== *)
theory No_Queue
  imports Pacer "HOL-Library.Multiset"
begin

text \<open>
  The pacer that sends from a goroutine of its own as fast as it can, \<^verbatim>\<open>pkg/pacer/no_queue.go\<close>.

  Callers and workers interleave: a step is a whole call of a client (all of it is under the lock) or one
  step of a worker, up to its next receive, lock region or send. Calling \<open>Start\<close> again starts another worker, so a
  state has a list of them. A channel operation that panics in Go is \<open>None\<close>. What is sent is the label of the step;
  the call it stands for is \<open>SendPacket\<close> of the packet.
\<close>

section \<open>A channel of capacity one\<close>

record chan =
  chan_len :: nat
  chan_closed :: bool

definition chan_close :: "chan \<Rightarrow> chan option" where
  "chan_close c = (if chan_closed c then None else Some (c\<lparr>chan_closed := True\<rparr>))"

text \<open>A \<open>select\<close> with a send and a \<open>default\<close> case; sending on a closed channel panics.\<close>

definition chan_offer :: "chan \<Rightarrow> chan option" where
  "chan_offer c = (if chan_closed c then None else if chan_len c < 1 then Some (c\<lparr>chan_len := chan_len c + 1\<rparr>) else Some c)"

text \<open>A receive; \<open>None\<close> when it blocks.\<close>

definition chan_recv :: "chan \<Rightarrow> chan option" where
  "chan_recv c = (if 0 < chan_len c then Some (c\<lparr>chan_len := chan_len c - 1\<rparr>) else if chan_closed c then Some c else None)"

section \<open>State and steps\<close>

datatype 'p worker = Waiting | Locking | Sending 'p | Returned

record 'p NoQueue =
  packets :: "'p list"
  wake :: chan
  isStopped :: bool
  workers :: "'p worker list"

definition NewNoQueue :: "'p NoQueue" where
  "NewNoQueue = \<lparr>packets = [], wake = \<lparr>chan_len = 0, chan_closed = False\<rparr>, isStopped = False, workers = []\<rparr>"

definition Start :: "'p NoQueue \<Rightarrow> 'p NoQueue" where
  "Start n = (if isStopped n then n else n\<lparr>workers := workers n @ [Waiting]\<rparr>)"

definition Stop :: "'p NoQueue \<Rightarrow> 'p NoQueue option" where
  "Stop n = (if isStopped n then Some n
     else do { c \<leftarrow> chan_close (wake n); Some (n\<lparr>wake := c, isStopped := True\<rparr>) })"

definition Enqueue :: "'p \<Rightarrow> 'p NoQueue \<Rightarrow> 'p NoQueue option" where
  "Enqueue p n =
    (let n = n\<lparr>packets := packets n @ [p]\<rparr> in
     if length (packets n) = 1 \<and> \<not> isStopped n
     then do { c \<leftarrow> chan_offer (wake n); Some (n\<lparr>wake := c\<rparr>) }
     else Some n)"

text \<open>One step of a worker in state \<open>w\<close>: the packet it sends, if any, its next state and the pacer; \<open>None\<close> when it cannot move.\<close>

definition sendWorker :: "'p worker \<Rightarrow> 'p NoQueue \<Rightarrow> ('p option \<times> 'p worker \<times> 'p NoQueue) option" where
  "sendWorker w n =
    (case w of
       Waiting \<Rightarrow> do { c \<leftarrow> chan_recv (wake n); Some (None, Locking, n\<lparr>wake := c\<rparr>) }
     | Locking \<Rightarrow>
         if isStopped n then Some (None, Returned, n)
         else (case packets n of
             [] \<Rightarrow> Some (None, Waiting, n)
           | p # ps \<Rightarrow> Some (None, Sending p, n\<lparr>packets := ps\<rparr>))
     | Sending p \<Rightarrow> Some (Some p, Locking, n)
     | Returned \<Rightarrow> None)"

datatype 'p event = Started | Stopped | Enqueued 'p | Moved | Sent 'p

inductive work :: "'p NoQueue \<Rightarrow> 'p event \<Rightarrow> 'p NoQueue \<Rightarrow> bool" where
  work: "i < length (workers n) \<Longrightarrow> sendWorker (workers n ! i) n = Some (sent, w, n') \<Longrightarrow>
    work n (case sent of None \<Rightarrow> Moved | Some p \<Rightarrow> Sent p) (n'\<lparr>workers := (workers n)[i := w]\<rparr>)"

inductive step :: "'p NoQueue \<Rightarrow> 'p event \<Rightarrow> 'p NoQueue \<Rightarrow> bool" where
  start: "step n Started (Start n)"
| stop: "Stop n = Some n' \<Longrightarrow> step n Stopped n'"
| enqueue: "Enqueue p n = Some n' \<Longrightarrow> step n (Enqueued p) n'"
| working: "work n ev n' \<Longrightarrow> step n ev n'"

inductive runs :: "'p event list \<Rightarrow> 'p NoQueue \<Rightarrow> bool" where
  new: "runs [] NewNoQueue"
| step: "runs evs n \<Longrightarrow> step n ev n' \<Longrightarrow> runs (evs @ [ev]) n'"

text \<open>The workers alone: how often they move and what they send.\<close>

inductive works :: "'p NoQueue \<Rightarrow> nat \<Rightarrow> 'p event list \<Rightarrow> 'p NoQueue \<Rightarrow> bool" where
  rest: "works n 0 [] n"
| move: "work n ev n' \<Longrightarrow> works n' k evs n'' \<Longrightarrow> works n (Suc k) (ev # evs) n''"

section \<open>What went in, what came out\<close>

fun enqueued_of :: "'p event \<Rightarrow> 'p list" where
  "enqueued_of (Enqueued p) = [p]"
| "enqueued_of _ = []"

fun sent_of :: "'p event \<Rightarrow> 'p list" where
  "sent_of (Sent p) = [p]"
| "sent_of _ = []"

abbreviation enqueued :: "'p event list \<Rightarrow> 'p list" where
  "enqueued evs \<equiv> concat (map enqueued_of evs)"

abbreviation sents :: "'p event list \<Rightarrow> 'p list" where
  "sents evs \<equiv> concat (map sent_of evs)"

fun in_hand :: "'p worker \<Rightarrow> 'p list" where
  "in_hand (Sending p) = [p]"
| "in_hand _ = []"

abbreviation in_hands :: "'p NoQueue \<Rightarrow> 'p list" where
  "in_hands n \<equiv> concat (map in_hand (workers n))"

inductive_cases work_cases: "work n ev n'"

lemma in_hands_split: "i < length ws \<Longrightarrow>
  concat (map in_hand ws) = concat (map in_hand (take i ws)) @ in_hand (ws ! i) @ concat (map in_hand (drop (Suc i) ws))"
  by (metis concat.simps(2) concat_append id_take_nth_drop list.simps(9) map_append)

lemma in_hands_update: "i < length ws \<Longrightarrow>
  concat (map in_hand (ws[i := w])) = concat (map in_hand (take i ws)) @ in_hand w @ concat (map in_hand (drop (Suc i) ws))"
  by (simp add: upd_conv_take_nth_drop)

lemma sendWorker_cases:
  assumes "sendWorker w n = Some (sent, w', n')"
  obtains (wake) c where "w = Waiting" "sent = None" "w' = Locking" "chan_recv (wake n) = Some c" "n' = n\<lparr>wake := c\<rparr>"
    | (return) "w = Locking" "isStopped n" "sent = None" "w' = Returned" "n' = n"
    | (empty) "w = Locking" "\<not> isStopped n" "packets n = []" "sent = None" "w' = Waiting" "n' = n"
    | (pop) p ps where "w = Locking" "\<not> isStopped n" "packets n = p # ps" "sent = None" "w' = Sending p" "n' = n\<lparr>packets := ps\<rparr>"
    | (send) p where "w = Sending p" "sent = Some p" "w' = Locking" "n' = n"
  using assms by (auto simp: sendWorker_def split: worker.splits if_splits list.splits bind_splits)


section \<open>Invariants of the reachable states\<close>

text \<open>No packet is lost or doubled; with one worker they leave in the order they came in.\<close>

definition conserves :: "'p event list \<Rightarrow> 'p NoQueue \<Rightarrow> bool" where
  "conserves evs n \<longleftrightarrow> mset (sents evs) + mset (in_hands n) + mset (packets n) = mset (enqueued evs) \<and>
     (length (workers n) \<le> 1 \<longrightarrow> sents evs @ in_hands n @ packets n = enqueued evs)"

text \<open>The channel is closed exactly when the pacer is stopped, workers return only then, and a queue that is not empty
  has woken a worker or left a token for one.\<close>

definition awake :: "'p NoQueue \<Rightarrow> bool" where
  "awake n \<longleftrightarrow> chan_closed (wake n) = isStopped n \<and> (\<not> isStopped n \<longrightarrow> Returned \<notin> set (workers n) \<and>
     (packets n \<noteq> [] \<longrightarrow> 0 < chan_len (wake n) \<or> (\<exists>w \<in> set (workers n). w \<noteq> Waiting)))"

lemma workE:
  assumes "work n ev n'"
  obtains i sent w m where "i < length (workers n)" "sendWorker (workers n ! i) n = Some (sent, w, m)"
    "ev = (case sent of None \<Rightarrow> Moved | Some p \<Rightarrow> Sent p)" "n' = m\<lparr>workers := (workers n)[i := w]\<rparr>"
  using assms by (auto elim!: work_cases)

lemma work_keeps_length: "work n ev n' \<Longrightarrow> length (workers n') = length (workers n)"
  by (auto elim!: work_cases)

lemma work_conserves:
  assumes "conserves evs n" "work n ev n'"
  shows "conserves (evs @ [ev]) n'"
proof -
  obtain i sent w' m where 1: "i < length (workers n)" "sendWorker (workers n ! i) n = Some (sent, w', m)"
    "ev = (case sent of None \<Rightarrow> Moved | Some p \<Rightarrow> Sent p)" "n' = m\<lparr>workers := (workers n)[i := w']\<rparr>"
    using assms(2) by (rule workE)
  define A where "A = concat (map in_hand (take i (workers n)))"
  define B where "B = concat (map in_hand (drop (Suc i) (workers n)))"
  note i = in_hands_split [OF 1(1), folded A_def B_def] in_hands_update [OF 1(1), of w', folded A_def B_def]
  have one: "length (workers n) \<le> Suc 0 \<longrightarrow> A = [] \<and> B = []"
  proof
    assume "length (workers n) \<le> Suc 0"
    then have "i = 0" "length (workers n) = 1" using 1(1) by linarith+
    then show "A = [] \<and> B = []" by (simp add: A_def B_def)
  qed
  from 1(2) show ?thesis
  proof (cases rule: sendWorker_cases)
    case wake then show ?thesis using assms(1) 1 i one by (auto simp: conserves_def)
  next
    case return then show ?thesis using assms(1) 1 i one by (auto simp: conserves_def)
  next
    case empty then show ?thesis using assms(1) 1 i one by (auto simp: conserves_def)
  next
    case pop then show ?thesis using assms(1) 1 i one by (auto simp: conserves_def)
  next
    case send then show ?thesis using assms(1) 1 i one by (auto simp: conserves_def)
  qed
qed

lemma client_fields:
  "workers (Start n) = (if isStopped n then workers n else workers n @ [Waiting])" "packets (Start n) = packets n"
  "Stop n = Some n' \<Longrightarrow> workers n' = workers n \<and> packets n' = packets n \<and> isStopped n'"
  "Enqueue p n = Some n' \<Longrightarrow> workers n' = workers n \<and> packets n' = packets n @ [p] \<and> isStopped n' = isStopped n"
  by (auto simp: Start_def Stop_def Enqueue_def Let_def split: if_splits bind_splits)

lemma step_conserves:
  assumes "conserves evs n" "step n ev n'"
  shows "conserves (evs @ [ev]) n'"
  using assms(2)
proof cases
  case start then show ?thesis using assms(1) by (auto simp: conserves_def client_fields)
next
  case stop then show ?thesis using assms(1) client_fields(3) [OF stop(2)] by (simp add: conserves_def)
next
  case (enqueue p) then show ?thesis using assms(1) client_fields(4) [OF enqueue(2)] by (auto simp: conserves_def)
next
  case working then show ?thesis using work_conserves assms(1) by blast
qed

lemma runs_conserves: "runs evs n \<Longrightarrow> conserves evs n"
  by (induction rule: runs.induct) (simp add: conserves_def NewNoQueue_def, rule step_conserves)

lemma work_awake:
  assumes "awake n" "work n ev n'"
  shows "awake n'"
proof -
  obtain i sent w' m where 1: "i < length (workers n)" "sendWorker (workers n ! i) n = Some (sent, w', m)"
    "ev = (case sent of None \<Rightarrow> Moved | Some p \<Rightarrow> Sent p)" "n' = m\<lparr>workers := (workers n)[i := w']\<rparr>"
    using assms(2) by (rule workE)
  have w': "w' \<in> set ((workers n)[i := w'])" using 1(1) by (simp add: set_update_memI)
  have sub: "set ((workers n)[i := w']) \<subseteq> insert w' (set (workers n))" by (rule set_update_subset_insert)
  from 1(2) show ?thesis
  proof (cases rule: sendWorker_cases)
    case (wake c)
    then have "chan_closed c = chan_closed (No_Queue.wake n)" by (auto simp: chan_recv_def split: if_splits)
    then show ?thesis using assms(1) 1 wake w' sub by (auto simp: awake_def)
  next
    case return then show ?thesis using assms(1) 1 by (auto simp: awake_def)
  next
    case empty then show ?thesis using assms(1) 1 w' sub by (auto simp: awake_def)
  next
    case pop then show ?thesis using assms(1) 1 w' sub by (auto simp: awake_def)
  next
    case send then show ?thesis using assms(1) 1 w' sub by (auto simp: awake_def)
  qed
qed

lemma step_awake:
  assumes "awake n" "step n ev n'"
  shows "awake n'"
  using assms(2)
proof cases
  case start then show ?thesis using assms(1) by (auto simp: awake_def Start_def)
next
  case stop
  then show ?thesis using assms(1)
    by (auto simp: awake_def Stop_def chan_close_def split: if_splits bind_splits)
next
  case (enqueue p)
  then show ?thesis using assms(1)
    by (auto simp: awake_def Enqueue_def chan_offer_def Let_def split: if_splits bind_splits)
next
  case working then show ?thesis using work_awake assms(1) by blast
qed

lemma runs_awake: "runs evs n \<Longrightarrow> awake n"
  by (induction rule: runs.induct) (simp add: awake_def NewNoQueue_def, rule step_awake)

section \<open>Progress\<close>

lemma sendWorker_blocked:
  "sendWorker w n = None \<longleftrightarrow> w = Returned \<or> w = Waiting \<and> chan_len (wake n) = 0 \<and> \<not> chan_closed (wake n)"
  by (auto simp: sendWorker_def chan_recv_def split: worker.splits if_splits list.splits bind_splits)

lemma blocked_iff:
  "(\<nexists>ev n'. work n ev n') \<longleftrightarrow> (\<forall>w \<in> set (workers n). sendWorker w n = None)"
proof -
  have "\<exists>ev n'. work n ev n'" if "w \<in> set (workers n)" "sendWorker w n \<noteq> None" for w
  proof -
    from \<open>w \<in> set (workers n)\<close> obtain i where i: "i < length (workers n)" "workers n ! i = w" by (meson in_set_conv_nth)
    obtain sent w' m where "sendWorker (workers n ! i) n = Some (sent, w', m)"
      using \<open>sendWorker w n \<noteq> None\<close> i by auto
    from work.work [OF i(1) this] show ?thesis by blast
  qed
  then show ?thesis by (fastforce elim!: work_cases)
qed

text \<open>How many more steps the workers can take at most, when running and when stopped.\<close>

fun running_weight :: "'p worker \<Rightarrow> nat" where
  "running_weight Locking = 1" | "running_weight (Sending p) = 2" | "running_weight _ = 0"

fun stopped_weight :: "'p worker \<Rightarrow> nat" where
  "stopped_weight Waiting = 2" | "stopped_weight Locking = 1" | "stopped_weight (Sending p) = 2" | "stopped_weight Returned = 0"

definition steps_left :: "'p NoQueue \<Rightarrow> nat" where
  "steps_left n =
    (if isStopped n then sum_list (map stopped_weight (workers n))
     else 2 * length (packets n) + 2 * chan_len (wake n) + sum_list (map running_weight (workers n)))"

lemma sum_list_update_nat:
  fixes f :: "'a \<Rightarrow> nat"
  assumes "i < length ws"
  shows "sum_list (map f (ws[i := w])) + f (ws ! i) = sum_list (map f ws) + f w"
  using assms by (induction ws arbitrary: i) (auto split: nat.split)

lemma work_steps_left:
  assumes "awake n" "work n ev n'"
  shows "steps_left n' < steps_left n \<and> isStopped n' = isStopped n"
proof -
  obtain i sent w' m where 1: "i < length (workers n)" "sendWorker (workers n ! i) n = Some (sent, w', m)"
    "ev = (case sent of None \<Rightarrow> Moved | Some p \<Rightarrow> Sent p)" "n' = m\<lparr>workers := (workers n)[i := w']\<rparr>"
    using assms(2) by (rule workE)
  note u = sum_list_update_nat [OF 1(1), of running_weight w'] sum_list_update_nat [OF 1(1), of stopped_weight w']
  from 1(2) show ?thesis
  proof (cases rule: sendWorker_cases)
    case (wake c)
    then show ?thesis using u assms(1) 1 by (auto simp: steps_left_def chan_recv_def awake_def split: if_splits)
  next
    case return then show ?thesis using u 1 by (auto simp: steps_left_def)
  next
    case empty then show ?thesis using u 1 by (auto simp: steps_left_def)
  next
    case pop then show ?thesis using u 1 by (auto simp: steps_left_def)
  next
    case send then show ?thesis using u 1 by (auto simp: steps_left_def)
  qed
qed

lemma works_facts:
  "works n k evs n' \<Longrightarrow> awake n \<Longrightarrow>
   k + steps_left n' \<le> steps_left n \<and> isStopped n' = isStopped n \<and> awake n' \<and> length (workers n') = length (workers n)"
proof (induction rule: works.induct)
  case (move n ev n' k evs n'')
  then show ?case
    using work_steps_left [OF move.prems move.hyps(1)] work_awake [OF move.prems move.hyps(1)] work_keeps_length [OF move.hyps(1)]
    by auto
qed simp

lemma works_runs: "works n k evs n' \<Longrightarrow> runs evs0 n \<Longrightarrow> runs (evs0 @ evs) n'"
proof (induction arbitrary: evs0 rule: works.induct)
  case (move n ev n' k evs n'')
  have "runs ((evs0 @ [ev]) @ evs) n''" by (rule move.IH) (use move in \<open>blast intro: runs.step step.working\<close>)
  then show ?case by simp
qed simp

lemma works_can_finish: "awake n \<Longrightarrow> \<exists>k evs n'. works n k evs n' \<and> (\<nexists>ev n''. work n' ev n'')"
proof (induction "steps_left n" arbitrary: n rule: less_induct)
  case less
  show ?case
  proof (cases "\<nexists>ev n''. work n ev n''")
    case True then show ?thesis using works.rest by blast
  next
    case False
    then obtain ev n1 where w: "work n ev n1" by blast
    from less.hyps [OF _ work_awake [OF less.prems w]] work_steps_left [OF less.prems w] show ?thesis
      using works.move [OF w] by blast
  qed
qed

lemma works_sends_only: "works n k evs n' \<Longrightarrow> enqueued evs = []"
  by (induction rule: works.induct) (auto elim!: work_cases split: option.splits)


lemma work_stopped_packets: "work n ev n' \<Longrightarrow> isStopped n \<Longrightarrow> packets n' = packets n \<and> isStopped n'"
  by (erule workE, erule sendWorker_cases) auto

lemma works_stopped_packets: "works n k evs n' \<Longrightarrow> isStopped n \<Longrightarrow> packets n' = packets n"
  by (induction rule: works.induct) (auto dest: work_stopped_packets)

lemma workers_started: "runs evs n \<Longrightarrow> length (workers n) \<le> count (mset evs) Started"
proof (induction rule: runs.induct)
  case (step evs n ev n')
  from step.hyps(2) show ?case
  proof cases
    case start then show ?thesis using step.IH by (auto simp: client_fields)
  next
    case stop then show ?thesis using step.IH client_fields(3) [OF stop(2)] by simp
  next
    case (enqueue p) then show ?thesis using step.IH client_fields(4) [OF enqueue(2)] by simp
  next
    case working then show ?thesis using step.IH work_keeps_length [OF working] by simp
  qed
qed (simp add: NewNoQueue_def)

lemma blocked_running:
  assumes "awake n" "\<nexists>ev n'. work n ev n'" "\<not> isStopped n" "workers n \<noteq> []"
  shows "packets n = [] \<and> in_hands n = []"
proof -
  have aw: "\<not> chan_closed (wake n)" "Returned \<notin> set (workers n)"
    "packets n \<noteq> [] \<longrightarrow> 0 < chan_len (wake n) \<or> (\<exists>w \<in> set (workers n). w \<noteq> Waiting)"
    using assms(1,3) by (simp_all add: awake_def)
  have "\<forall>w \<in> set (workers n). w = Returned \<or> w = Waiting \<and> chan_len (wake n) = 0 \<and> \<not> chan_closed (wake n)"
    using assms(2) unfolding blocked_iff sendWorker_blocked .
  then have w: "\<And>w. w \<in> set (workers n) \<Longrightarrow> w = Waiting \<and> chan_len (wake n) = 0" using aw(2) by metis
  obtain w0 where "w0 \<in> set (workers n)" using assms(4) by (cases "workers n") auto
  then have "chan_len (wake n) = 0" using w by blast
  then have "packets n = []" using aw(3) w by auto
  moreover have "\<And>w. w \<in> set (workers n) \<Longrightarrow> in_hand w = []" using w by (metis in_hand.simps(2))
  then have "in_hands n = []" by simp
  ultimately show ?thesis ..
qed

lemma blocked_stopped:
  assumes "awake n" "\<nexists>ev n'. work n ev n'" "isStopped n"
  shows "set (workers n) \<subseteq> {Returned} \<and> in_hands n = []"
proof -
  have "\<forall>w \<in> set (workers n). w = Returned"
    using assms unfolding blocked_iff sendWorker_blocked awake_def by blast
  then show ?thesis by auto
qed

section \<open>Properties\<close>

text \<open>
  C25. Whatever calls of \<open>Start\<close>, \<open>Stop\<close> and \<open>Enqueue\<close> are made, in every interleaving with the workers: no call
  panics (\<open>Stop\<close> never closes the channel twice, \<open>Enqueue\<close> never sends on a closed one), no packet is lost or sent
  twice, and a pacer started once sends in the order of the \<open>Enqueue\<close> calls: what was sent, what a worker has in hand
  and what is queued are, in this order, what was enqueued.
\<close>

theorem noqueue_fifo:
  assumes "runs evs n"
  shows "Stop n \<noteq> None \<and> Enqueue p n \<noteq> None \<and>
    mset (sents evs) + mset (in_hands n) + mset (packets n) = mset (enqueued evs) \<and>
    (count (mset evs) Started \<le> 1 \<longrightarrow> sents evs @ in_hands n @ packets n = enqueued evs)"
  using runs_conserves [OF assms] runs_awake [OF assms] workers_started [OF assms]
  by (auto simp: conserves_def awake_def Stop_def Enqueue_def chan_close_def chan_offer_def Let_def)

text \<open>
  C26. No wake-up is lost: left alone, the workers of a running pacer take at most \<open>steps_left\<close> steps, and they
  come to rest only when the queue is empty, everything that was queued or in hand having been sent, in order when there is
  one worker. After \<open>Stop\<close> they take at most two steps each and end with every worker returned, having sent nothing but
  the packets that were in hand; the queue stays as it was.
\<close>

theorem noqueue_drains:
  assumes "runs evs n" "workers n \<noteq> []"
  shows "(\<exists>k out n'. works n k out n' \<and> (\<nexists>ev n''. work n' ev n'')) \<and>
    (\<forall>k out n'. works n k out n' \<longrightarrow> k \<le> steps_left n \<and> ((\<nexists>ev n''. work n' ev n'') \<longrightarrow>
      (if isStopped n
       then set (workers n') \<subseteq> {Returned} \<and> packets n' = packets n \<and> mset (sents out) = mset (in_hands n)
       else packets n' = [] \<and> mset (sents out) = mset (in_hands n @ packets n) \<and>
         (length (workers n) = 1 \<longrightarrow> sents out = in_hands n @ packets n))))"
proof (intro conjI allI impI)
  note aw = runs_awake [OF assms(1)]
  show "\<exists>k out n'. works n k out n' \<and> (\<nexists>ev n''. work n' ev n'')" using works_can_finish [OF aw] .
  fix k out n' assume w: "works n k out n'"
  note f = works_facts [OF w aw]
  show "k \<le> steps_left n" using f by simp
  assume b: "\<nexists>ev n''. work n' ev n''"
  note c = runs_conserves [OF assms(1)] runs_conserves [OF works_runs [OF w assms(1)]]
  have e: "enqueued out = []" using w by (rule works_sends_only)
  have sent: "mset (sents out) + mset (in_hands n') + mset (packets n') = mset (in_hands n) + mset (packets n)"
    using c e by (simp add: conserves_def) (metis (no_types, lifting) add.assoc add_left_cancel)
  show "if isStopped n
       then set (workers n') \<subseteq> {Returned} \<and> packets n' = packets n \<and> mset (sents out) = mset (in_hands n)
       else packets n' = [] \<and> mset (sents out) = mset (in_hands n @ packets n) \<and>
         (length (workers n) = 1 \<longrightarrow> sents out = in_hands n @ packets n)"
  proof (cases "isStopped n")
    case True
    have z: "set (workers n') \<subseteq> {Returned}" "in_hands n' = []" using f True blocked_stopped [OF _ b] by simp_all
    have "mset (sents out) = mset (in_hands n)" using sent works_stopped_packets [OF w True] by (simp only: z(2)) simp
    then show ?thesis using True z(1) works_stopped_packets [OF w True] by simp
  next
    case False
    have "workers n' \<noteq> []" using f assms(2) by auto
    then have z: "packets n' = []" "in_hands n' = []" using f blocked_running [OF _ b] False by simp_all
    have "sents out = in_hands n @ packets n" if "length (workers n) = 1"
      using c e z that f by (simp add: conserves_def) (metis append.assoc same_append_eq)
    then show ?thesis using False sent z by simp
  qed
qed

text \<open>A pacer started, given two packets, whose worker has woken up.\<close>

lemma noqueue_example:
  "runs [Started, Enqueued (7 :: nat), Enqueued 8, Moved]
     \<lparr>packets = [7, 8], wake = \<lparr>chan_len = 0, chan_closed = False\<rparr>, isStopped = False, workers = [Locking]\<rparr>"
proof -
  let ?s1 = "\<lparr>packets = [], wake = \<lparr>chan_len = 0, chan_closed = False\<rparr>, isStopped = False, workers = [Waiting]\<rparr> :: nat NoQueue"
  let ?s2 = "?s1\<lparr>packets := [7], wake := \<lparr>chan_len = 1, chan_closed = False\<rparr>\<rparr>"
  let ?s3 = "?s2\<lparr>packets := [7, 8]\<rparr>"
  have "step NewNoQueue Started ?s1" using step.start [of "NewNoQueue :: nat NoQueue"] by (simp add: Start_def NewNoQueue_def)
  from runs.step [OF runs.new this] have 1: "runs [Started] ?s1" by simp
  have "step ?s1 (Enqueued 7) ?s2" by (rule step.enqueue) (simp add: Enqueue_def chan_offer_def)
  from runs.step [OF 1 this] have 2: "runs [Started, Enqueued 7] ?s2" by simp
  have "step ?s2 (Enqueued 8) ?s3" by (rule step.enqueue) (simp add: Enqueue_def chan_offer_def)
  from runs.step [OF 2 this] have 3: "runs [Started, Enqueued 7, Enqueued 8] ?s3" by simp
  have "work ?s3 Moved (?s3\<lparr>wake := \<lparr>chan_len = 0, chan_closed = False\<rparr>, workers := [Locking]\<rparr>)"
    using work.work [of 0 ?s3 None Locking "?s3\<lparr>wake := \<lparr>chan_len = 0, chan_closed = False\<rparr>\<rparr>"]
    by (simp add: sendWorker_def chan_recv_def)
  from runs.step [OF 3 step.working [OF this]] show ?thesis by simp
qed

theorem noqueue_fifo_witness:
  "let n = \<lparr>packets = [7, 8 :: nat], wake = \<lparr>chan_len = 0, chan_closed = False\<rparr>, isStopped = False, workers = [Locking]\<rparr> in
   Stop n \<noteq> None \<and> Enqueue 9 n \<noteq> None \<and> in_hands n @ packets n = enqueued [Started, Enqueued 7, Enqueued 8, Moved]"
  using noqueue_fifo [OF noqueue_example, of 9] unfolding Let_def by simp

theorem noqueue_drains_witness:
  "\<exists>k out n'. works \<lparr>packets = [7, 8 :: nat], wake = \<lparr>chan_len = 0, chan_closed = False\<rparr>, isStopped = False, workers = [Locking]\<rparr> k out n' \<and>
     k \<le> 5 \<and> packets n' = [] \<and> sents out = [7, 8]"
proof -
  let ?n = "\<lparr>packets = [7, 8 :: nat], wake = \<lparr>chan_len = 0, chan_closed = False\<rparr>, isStopped = False, workers = [Locking]\<rparr>"
  note d = noqueue_drains [OF noqueue_example]
  from d obtain k out n' where w: "works ?n k out n'" "\<nexists>ev n''. work n' ev n''" by auto
  with d have "k \<le> steps_left ?n \<and> packets n' = [] \<and> sents out = [7, 8]" by fastforce
  with w(1) show ?thesis by (auto simp: steps_left_def)
qed

end
