(* ===== verification/Leaky_Bucket.thy ===== *)
theory Leaky_Bucket
  imports Pacer "HOL-Library.Multiset"
begin

text \<open>
  The leaky-bucket pacer, \<^verbatim>\<open>pkg/pacer/leaky_bucket.go\<close>. The \<open>int\<close>s of sizes and budgets wrap at 64 bits and the
  arithmetic on seconds is rounded to \<open>float64\<close>; clock readings are arguments of the steps that make them.

  The shared state is the queue, its size in bytes, the bit rate and the stop flag. Clients and the worker interleave:
  a step is an atomic access of the flag or one lock region, with what follows it up to the next one. A client between
  the check of the flag and the lock of \<open>Enqueue\<close> is in \<open>entering\<close>, with the packet it brings. One worker runs, as
  after one call of \<open>Start\<close>; its local variables are kept beside its program point. What is sent is the label of the
  step; the call it stands for is \<open>SendPacket\<close> of the packet.
\<close>

section \<open>State\<close>

definition maxOvershootFactor :: rat where "maxOvershootFactor = 2"

text \<open>Where the worker is: at the loop condition, waiting for the ticker, at the condition of the inner loop with so many
  bytes to send, at its lock region, about to send a packet, returned.\<close>

datatype 'p point = AtLoop | AtTicker | AtInner int | AtPop int | AtSend 'p int | Done

record ('h, 'e) PacerLeakyBucket =
  bitrate :: int
  interval :: int
  maxLatency :: int
  packets :: "('h, 'e) Packet list"
  queueBytes :: int
  isStopped :: bool
  entering :: "('h, 'e) Packet list"
  pc :: "('h, 'e) Packet point"
  overage :: int
  lastProcess :: int

definition NewPacerLeakyBucket :: "int \<Rightarrow> int \<Rightarrow> int \<Rightarrow> ('h, 'e) PacerLeakyBucket" where
  "NewPacerLeakyBucket intvl rate latency = \<lparr>bitrate = rate, interval = intvl, maxLatency = latency, packets = [],
     queueBytes = 0, isStopped = False, entering = [], pc = Done, overage = 0, lastProcess = 0\<rparr>"

section \<open>Operations\<close>

text \<open>The goroutine sets up its local variables first.\<close>

definition Start :: "int \<Rightarrow> ('h, 'e) PacerLeakyBucket \<Rightarrow> ('h, 'e) PacerLeakyBucket" where
  "Start now p = (if \<not> isStopped p then p\<lparr>pc := AtLoop, overage := 0, lastProcess := now\<rparr> else p)"

text \<open>\<open>Enqueue\<close> up to the lock, and its lock region.\<close>

definition Enqueue_check ::
  "('h \<Rightarrow> nat) \<Rightarrow> ('h, 'e) Packet \<Rightarrow> ('h, 'e) PacerLeakyBucket \<Rightarrow> ('h, 'e) PacerLeakyBucket" where
  "Enqueue_check headerSize pkt p =
    (if isStopped p then p else p\<lparr>entering := entering p @ [snd (getPktSize headerSize pkt)]\<rparr>)"

definition Enqueue_push :: "nat \<Rightarrow> ('h, 'e) PacerLeakyBucket \<Rightarrow> ('h, 'e) PacerLeakyBucket" where
  "Enqueue_push i p = p\<lparr>entering := take i (entering p) @ drop (Suc i) (entering p),
     packets := packets p @ [entering p ! i], queueBytes := wrap64 (queueBytes p + pktSize (entering p ! i))\<rparr>"

definition Stop :: "('h, 'e) PacerLeakyBucket \<Rightarrow> ('h, 'e) PacerLeakyBucket" where
  "Stop p = p\<lparr>isStopped := True\<rparr>"

definition SetBitrate :: "int \<Rightarrow> ('h, 'e) PacerLeakyBucket \<Rightarrow> ('h, 'e) PacerLeakyBucket" where
  "SetBitrate rate p = p\<lparr>bitrate := rate\<rparr>"

section \<open>The worker\<close>

text \<open>The bit rate of this interval: raised when the queue would not drain within the latency.\<close>

definition effective_bitrate :: "('h, 'e) PacerLeakyBucket \<Rightarrow> int" where
  "effective_bitrate p =
    (if maxLatency p > 0 then
       let needed = float_to_int64 (fl (fl (of_int (wrap64 (queueBytes p * 8))) / seconds (maxLatency p)))
       in (if needed > bitrate p then needed else bitrate p)
     else bitrate p)"

definition interval_bytes :: "int \<Rightarrow> int \<Rightarrow> int" where
  "interval_bytes elapsed rate = float_to_int64 (fl (fl (seconds elapsed * fl (of_int rate)) / 8))"

definition max_overshoot :: "int \<Rightarrow> int" where
  "max_overshoot intervalBytes = float_to_int64 (fl (fl (of_int intervalBytes) * maxOvershootFactor))"

text \<open>From the ticker to the inner loop, or back to the loop when there is too much overage; \<open>since\<close> and \<open>now\<close> are the
  readings of \<open>time.Since\<close> and \<open>time.Now\<close>. The first result is \<open>intervalBytes\<close>.\<close>

definition tick :: "int \<Rightarrow> int \<Rightarrow> ('h, 'e) PacerLeakyBucket \<Rightarrow> int \<times> ('h, 'e) PacerLeakyBucket" where
  "tick since now p =
    (let elapsed = time_sub since (lastProcess p);
         intervalBytes = interval_bytes elapsed (effective_bitrate p);
         maxOvershootBytes = max_overshoot intervalBytes;
         toSendBytes = wrap64 (intervalBytes - overage p)
     in (intervalBytes,
         if toSendBytes < 0 then p\<lparr>overage := wrap64 (- toSendBytes), lastProcess := now, pc := AtLoop\<rparr>
         else p\<lparr>pc := AtInner (if toSendBytes > maxOvershootBytes then maxOvershootBytes else toSendBytes)\<rparr>))"

definition pop :: "('h \<Rightarrow> nat) \<Rightarrow> int \<Rightarrow> int \<Rightarrow> ('h, 'e) PacerLeakyBucket \<Rightarrow> ('h, 'e) PacerLeakyBucket" where
  "pop headerSize now toSendBytes p =
    (case packets p of
       [] \<Rightarrow> p\<lparr>overage := wrap64 (- toSendBytes), lastProcess := now, pc := AtLoop\<rparr>
     | pkt # pkts \<Rightarrow>
         let (size, pkt) = getPktSize headerSize pkt
         in p\<lparr>packets := pkts, queueBytes := wrap64 (queueBytes p - size), pc := AtSend pkt toSendBytes\<rparr>)"

definition sent_one :: "int \<Rightarrow> ('h, 'e) Packet \<Rightarrow> int \<Rightarrow> ('h, 'e) PacerLeakyBucket \<Rightarrow> ('h, 'e) PacerLeakyBucket" where
  "sent_one now pkt toSendBytes p =
    (let toSendBytes = wrap64 (toSendBytes - pktSize pkt) in
     if toSendBytes < 0 then p\<lparr>overage := wrap64 (- toSendBytes), lastProcess := now, pc := AtLoop\<rparr>
     else p\<lparr>pc := AtInner toSendBytes\<rparr>)"

datatype ('h, 'e) event = Started | Entered "('h, 'e) Packet" | Pushed "('h, 'e) Packet" | Stopped | RateSet int
  | Granted int | Moved | Idle | Sent "('h, 'e) Packet"

text \<open>The steps of the worker; \<open>Idle\<close> marks that it found the queue empty.\<close>

inductive work :: "('h \<Rightarrow> nat) \<Rightarrow> ('h, 'e) PacerLeakyBucket \<Rightarrow> ('h, 'e) event \<Rightarrow> ('h, 'e) PacerLeakyBucket \<Rightarrow> bool"
  for headerSize :: "'h \<Rightarrow> nat" where
  loop: "pc p = AtLoop \<Longrightarrow> work headerSize p Moved (p\<lparr>pc := (if isStopped p then Done else AtTicker)\<rparr>)"
| tick: "pc p = AtTicker \<Longrightarrow> tick since now p = (intervalBytes, p') \<Longrightarrow> work headerSize p (Granted intervalBytes) p'"
| inner: "pc p = AtInner toSend \<Longrightarrow> \<not> isStopped p \<Longrightarrow> work headerSize p Moved (p\<lparr>pc := AtPop toSend\<rparr>)"
| inner_stopped: "pc p = AtInner toSend \<Longrightarrow> isStopped p \<Longrightarrow> work headerSize p Moved (p\<lparr>lastProcess := now, pc := AtLoop\<rparr>)"
| pop: "pc p = AtPop toSend \<Longrightarrow> work headerSize p (if packets p = [] then Idle else Moved) (pop headerSize now toSend p)"
| send: "pc p = AtSend pkt toSend \<Longrightarrow> work headerSize p (Sent pkt) (sent_one now pkt toSend p)"

inductive step :: "('h \<Rightarrow> nat) \<Rightarrow> ('h, 'e) PacerLeakyBucket \<Rightarrow> ('h, 'e) event \<Rightarrow> ('h, 'e) PacerLeakyBucket \<Rightarrow> bool"
  for headerSize :: "'h \<Rightarrow> nat" where
  enter: "step headerSize p (Entered pkt) (Enqueue_check headerSize pkt p)"
| push: "i < length (entering p) \<Longrightarrow> step headerSize p (Pushed (entering p ! i)) (Enqueue_push i p)"
| stop: "step headerSize p Stopped (Stop p)"
| rate: "step headerSize p (RateSet r) (SetBitrate r p)"
| working: "work headerSize p ev p' \<Longrightarrow> step headerSize p ev p'"

text \<open>A run of a pacer on which \<open>Start\<close> is called at most once.\<close>

inductive runs :: "('h \<Rightarrow> nat) \<Rightarrow> ('h, 'e) PacerLeakyBucket \<Rightarrow> ('h, 'e) event list \<Rightarrow> ('h, 'e) PacerLeakyBucket \<Rightarrow> bool"
  for headerSize :: "'h \<Rightarrow> nat" and p0 :: "('h, 'e) PacerLeakyBucket" where
  new: "runs headerSize p0 [] p0"
| start: "runs headerSize p0 evs p \<Longrightarrow> Started \<notin> set evs \<Longrightarrow> runs headerSize p0 (evs @ [Started]) (Start now p)"
| step: "runs headerSize p0 evs p \<Longrightarrow> step headerSize p ev p' \<Longrightarrow> runs headerSize p0 (evs @ [ev]) p'"


section \<open>What went in, what came out\<close>

fun entered_of :: "('h, 'e) event \<Rightarrow> ('h, 'e) Packet list" where
  "entered_of (Entered pkt) = [pkt]"
| "entered_of _ = []"

fun pushed_of :: "('h, 'e) event \<Rightarrow> ('h, 'e) Packet list" where
  "pushed_of (Pushed pkt) = [pkt]"
| "pushed_of _ = []"

fun sent_of :: "('h, 'e) event \<Rightarrow> ('h, 'e) Packet list" where
  "sent_of (Sent pkt) = [pkt]"
| "sent_of _ = []"

fun granted_of :: "('h, 'e) event \<Rightarrow> int" where
  "granted_of (Granted g) = g"
| "granted_of _ = 0"

abbreviation pushed :: "('h, 'e) event list \<Rightarrow> ('h, 'e) Packet list" where
  "pushed evs \<equiv> concat (map pushed_of evs)"

abbreviation sents :: "('h, 'e) event list \<Rightarrow> ('h, 'e) Packet list" where
  "sents evs \<equiv> concat (map sent_of evs)"

definition granted :: "('h, 'e) event list \<Rightarrow> int" where
  "granted evs = sum_list (map granted_of evs)"

definition bytes :: "('h, 'e) Packet list \<Rightarrow> int" where
  "bytes pkts = sum_list (map pktSize pkts)"

fun in_hand :: "('h, 'e) Packet point \<Rightarrow> ('h, 'e) Packet list" where
  "in_hand (AtSend pkt t) = [pkt]"
| "in_hand _ = []"

lemma bytes_simps [simp]: "bytes [] = 0" "bytes (pkt # pkts) = pktSize pkt + bytes pkts" "bytes (ps @ qs) = bytes ps + bytes qs"
  by (simp_all add: bytes_def)

lemma granted_simps [simp]: "granted [] = 0" "granted (evs @ [ev]) = granted evs + granted_of ev"
  by (simp_all add: granted_def)

section \<open>The queue\<close>

text \<open>A packet whose size is known.\<close>

definition sized :: "('h \<Rightarrow> nat) \<Rightarrow> ('h, 'e) Packet \<Rightarrow> bool" where
  "sized headerSize pkt \<longleftrightarrow> getPktSize headerSize pkt = (pktSize pkt, pkt)"

lemma sized_getPktSize: "sized headerSize (snd (getPktSize headerSize pkt))"
  by (simp add: sized_def getPktSize_def)

lemma wrap64_add: "wrap64 (wrap64 a + b) = wrap64 (a + b)" "wrap64 (wrap64 a - b) = wrap64 (a - b)"
  by (simp_all add: wrap64_eq algebra_simps mod_simps)

definition queue_inv :: "('h \<Rightarrow> nat) \<Rightarrow> ('h, 'e) event list \<Rightarrow> ('h, 'e) PacerLeakyBucket \<Rightarrow> bool" where
  "queue_inv headerSize evs p \<longleftrightarrow> queueBytes p = wrap64 (bytes (packets p)) \<and>
     sents evs @ in_hand (pc p) @ packets p = pushed evs \<and>
     list_all (sized headerSize) (entering p) \<and> list_all (sized headerSize) (pushed evs)"

lemma work_queue:
  assumes q: "queue_inv headerSize evs p" and w: "work headerSize p ev p'"
  shows "queue_inv headerSize (evs @ [ev]) p'"
  using w
proof cases
  case loop then show ?thesis using q by (simp add: queue_inv_def)
next
  case tick then show ?thesis using q by (auto simp: queue_inv_def tick_def Let_def)
next
  case inner then show ?thesis using q by (simp add: queue_inv_def)
next
  case inner_stopped then show ?thesis using q by (simp add: queue_inv_def)
next
  case (pop toSend now)
  show ?thesis
  proof (cases "packets p")
    case Nil then show ?thesis using q pop by (simp add: queue_inv_def pop_def)
  next
    case (Cons pkt pkts)
    have "list_all (sized headerSize) (packets p)" using q unfolding queue_inv_def by (metis list_all_append)
    then have "getPktSize headerSize pkt = (pktSize pkt, pkt)" by (simp add: Cons sized_def)
    then show ?thesis using q pop Cons by (auto simp: queue_inv_def pop_def wrap64_add)
  qed
next
  case (send pkt toSend now)
  then show ?thesis using q by (auto simp: queue_inv_def sent_one_def Let_def)
qed

lemma step_queue:
  assumes q: "queue_inv headerSize evs p" and w: "step headerSize p ev p'"
  shows "queue_inv headerSize (evs @ [ev]) p'"
  using w
proof cases
  case (enter pkt) then show ?thesis using q by (simp add: queue_inv_def Enqueue_check_def sized_getPktSize)
next
  case (push i)
  then have "sized headerSize (entering p ! i)" using q by (simp add: queue_inv_def list_all_length)
  moreover have "list_all (sized headerSize) (take i (entering p) @ drop (Suc i) (entering p))"
    using q by (auto simp: queue_inv_def list_all_iff dest: in_set_takeD in_set_dropD)
  ultimately show ?thesis using q push by (auto simp: queue_inv_def Enqueue_push_def wrap64_add)
next
  case stop then show ?thesis using q by (simp add: queue_inv_def Stop_def)
next
  case rate then show ?thesis using q by (simp add: queue_inv_def SetBitrate_def)
next
  case working then show ?thesis using work_queue q by blast
qed

text \<open>Before \<open>Start\<close> no worker runs.\<close>

lemma idle_worker: "runs headerSize (NewPacerLeakyBucket i r l) evs p \<Longrightarrow> Started \<notin> set evs \<Longrightarrow> pc p = Done"
proof (induction rule: runs.induct)
  case (step evs p ev p')
  then have "pc p = Done" by simp
  with step.hyps(2) show ?case
    by cases (auto simp: Enqueue_check_def Enqueue_push_def Stop_def SetBitrate_def elim: work.cases)
qed (auto simp: NewPacerLeakyBucket_def)

lemma runs_queue: "runs headerSize (NewPacerLeakyBucket i r l) evs p \<Longrightarrow> queue_inv headerSize evs p"
proof (induction rule: runs.induct)
  case new then show ?case by (simp add: queue_inv_def NewPacerLeakyBucket_def wrap64_id)
next
  case (start evs p now)
  with idle_worker have "pc p = Done" by blast
  then show ?case using start.IH by (simp add: queue_inv_def Start_def)
next
  case (step evs p ev p') then show ?case by (blast intro: step_queue)
qed


section \<open>The rate\<close>

text \<open>Grants and packets small enough for exact arithmetic: less than \<open>2 ^ 51\<close> bytes per interval and per packet.\<close>

definition rate_ok :: "int \<Rightarrow> ('h, 'e) event list \<Rightarrow> bool" where
  "rate_ok M evs \<longleftrightarrow> 0 \<le> M \<and> M < 2251799813685248 \<and>
     (\<forall>ev \<in> set evs. 0 \<le> granted_of ev \<and> granted_of ev < 2251799813685248) \<and>
     (\<forall>pkt \<in> set (pushed evs). 0 \<le> pktSize pkt \<and> pktSize pkt \<le> M)"

lemma rate_ok_snoc: "rate_ok M (evs @ [ev]) \<Longrightarrow> rate_ok M evs \<and> 0 \<le> granted_of ev \<and> granted_of ev < 2251799813685248"
  by (auto simp: rate_ok_def)

lemma max_overshoot_eq: "0 \<le> g \<Longrightarrow> g < 2251799813685248 \<Longrightarrow> max_overshoot g = 2 * g"
proof -
  assume g: "0 \<le> g" "g < 2251799813685248"
  have "fl (of_int g) = of_int g" "fl (of_int (g * 2)) = of_int (g * 2)" by (rule fl_of_int; use g in simp)+
  then show ?thesis
    using float_to_int64_id [of "g * 2"] g by (simp add: max_overshoot_def maxOvershootFactor_def)
qed

text \<open>With \<open>s\<close> bytes sent and \<open>g\<close> granted.\<close>

abbreviation overage_ok :: "int \<Rightarrow> int \<Rightarrow> bool" where
  "overage_ok M o' \<equiv> - 4503599627370496 \<le> o' \<and> o' \<le> M"

fun rate_at :: "int \<Rightarrow> bool \<Rightarrow> bool \<Rightarrow> int \<Rightarrow> int \<Rightarrow> int \<Rightarrow> ('h, 'e) Packet point \<Rightarrow> bool" where
  "rate_at M idle stopped s g o' AtLoop \<longleftrightarrow> overage_ok M o' \<and> (s \<le> g + o' \<or> stopped \<and> s \<le> g) \<and>
     (\<not> idle \<and> \<not> stopped \<longrightarrow> s = g + o' \<and> 0 \<le> o')"
| "rate_at M idle stopped s g o' AtTicker \<longleftrightarrow> overage_ok M o' \<and> s \<le> g + o' \<and> (\<not> idle \<longrightarrow> s = g + o' \<and> 0 \<le> o')"
| "rate_at M idle stopped s g o' (AtInner t) \<longleftrightarrow> overage_ok M o' \<and> 0 \<le> t \<and> t < 4503599627370496 \<and> s + t \<le> g \<and> (\<not> idle \<longrightarrow> s + t = g)"
| "rate_at M idle stopped s g o' (AtPop t) \<longleftrightarrow> overage_ok M o' \<and> 0 \<le> t \<and> t < 4503599627370496 \<and> s + t \<le> g \<and> (\<not> idle \<longrightarrow> s + t = g)"
| "rate_at M idle stopped s g o' (AtSend pkt t) \<longleftrightarrow> overage_ok M o' \<and> 0 \<le> t \<and> t < 4503599627370496 \<and> s + t \<le> g \<and> (\<not> idle \<longrightarrow> s + t = g)"
| "rate_at M idle stopped s g o' Done \<longleftrightarrow> s \<le> g + M"

abbreviation rate_inv :: "int \<Rightarrow> ('h, 'e) event list \<Rightarrow> ('h, 'e) PacerLeakyBucket \<Rightarrow> bool" where
  "rate_inv M evs p \<equiv> rate_at M (Idle \<in> set evs) (isStopped p) (bytes (sents evs)) (granted evs) (overage p) (pc p)"

lemma tick_rate:
  assumes "rate_at M idle st s g (overage p) AtTicker" "tick since now p = (iv, p')"
    and "0 \<le> iv" "iv < 2251799813685248" "M < 2251799813685248"
  shows "rate_at M idle (isStopped p') s (g + iv) (overage p') (pc p')"
proof -
  note mo = max_overshoot_eq [OF assms(3,4)]
  have w: "wrap64 (iv - overage p) = iv - overage p" using assms(1,3-5) by (intro wrap64_id) auto
  have w2: "wrap64 (overage p - iv) = overage p - iv" using assms(1,3-5) by (intro wrap64_id) auto
  have iv: "interval_bytes (time_sub since (lastProcess p)) (effective_bitrate p) = iv" using assms(2) by (auto simp: tick_def Let_def)
  have p': "p' = (if iv - overage p < 0 then p\<lparr>overage := overage p - iv, lastProcess := now, pc := AtLoop\<rparr>
      else p\<lparr>pc := AtInner (if iv - overage p > 2 * iv then 2 * iv else iv - overage p)\<rparr>)"
    using assms(2) unfolding tick_def Let_def iv w mo by (simp add: w2 split: if_splits)
  show ?thesis using assms(1,3-5) unfolding p' by auto
qed

lemma sent_rate:
  assumes "rate_at M idle st s g (overage p) (AtSend pkt t)" "0 \<le> pktSize pkt" "pktSize pkt \<le> M" "M < 2251799813685248"
  shows "rate_at M idle (isStopped (sent_one now pkt t p)) (s + pktSize pkt) g (overage (sent_one now pkt t p)) (pc (sent_one now pkt t p))"
proof -
  have w: "wrap64 (t - pktSize pkt) = t - pktSize pkt" "wrap64 (pktSize pkt - t) = pktSize pkt - t"
    using assms by (auto intro!: wrap64_id)
  show ?thesis using assms by (auto simp: sent_one_def Let_def w)
qed

lemma work_rate:
  assumes q: "queue_inv headerSize evs p" and r: "rate_inv M evs p" and ok: "rate_ok M (evs @ [ev])" and w: "work headerSize p ev p'"
  shows "rate_inv M (evs @ [ev]) p'"
  using w
proof cases
  case loop then show ?thesis using r ok by (auto simp: rate_ok_def)
next
  case (tick since now iv)
  then show ?thesis using tick_rate [OF _ tick(3), of M "Idle \<in> set evs"] r rate_ok_snoc [OF ok] by (auto simp: rate_ok_def)
next
  case inner then show ?thesis using r by simp
next
  case inner_stopped then show ?thesis using r by simp
next
  case (pop t now)
  have "wrap64 (- t) = - t" using r pop by (intro wrap64_id) auto
  then show ?thesis using r pop ok by (auto simp: pop_def rate_ok_def split: list.splits prod.splits)
next
  case (send pkt t now)
  then have "pkt \<in> set (pushed evs)" using q unfolding queue_inv_def by (metis in_hand.simps(1) in_set_conv_decomp append_Cons append_Nil)
  then have "0 \<le> pktSize pkt" "pktSize pkt \<le> M" "M < 2251799813685248" using ok by (auto simp: rate_ok_def)
  from sent_rate [OF _ this, of "Idle \<in> set evs" _ _ _ p t now] r send show ?thesis by simp
qed

lemma step_rate:
  assumes q: "queue_inv headerSize evs p" and r: "rate_inv M evs p" and ok: "rate_ok M (evs @ [ev])" and w: "step headerSize p ev p'"
  shows "rate_inv M (evs @ [ev]) p'"
  using w
proof cases
  case enter then show ?thesis using r by (auto simp: Enqueue_check_def)
next
  case push then show ?thesis using r by (auto simp: Enqueue_push_def)
next
  case stop then show ?thesis using r by (cases "pc p") (auto simp: Stop_def)
next
  case rate then show ?thesis using r by (auto simp: SetBitrate_def)
next
  case working then show ?thesis using work_rate q r ok by blast
qed

lemma idle_sent: "runs headerSize (NewPacerLeakyBucket i r l) evs p \<Longrightarrow> Started \<notin> set evs \<Longrightarrow> sents evs = [] \<and> granted evs = 0 \<and> Idle \<notin> set evs"
proof (induction rule: runs.induct)
  case (step evs p ev p')
  then have "pc p = Done" using idle_worker by fastforce
  with step.hyps(2) have "sent_of ev = [] \<and> granted_of ev = 0 \<and> ev \<noteq> Idle"
    by cases (auto elim: work.cases)
  then show ?case using step by auto
qed auto

lemma runs_rate: "runs headerSize (NewPacerLeakyBucket i r l) evs p \<Longrightarrow> rate_ok M evs \<Longrightarrow> rate_inv M evs p"
proof (induction rule: runs.induct)
  case new then show ?case by (simp add: NewPacerLeakyBucket_def rate_ok_def)
next
  case (start evs p now)
  have "pc p = Done" using idle_worker start by blast
  moreover have "sents evs = []" "granted evs = 0" "Idle \<notin> set evs" using idle_sent [OF start(1,2)] by simp_all
  then have "bytes (sents (evs @ [Started])) = 0" "granted (evs @ [Started]) = 0" "Idle \<notin> set (evs @ [Started])"
    by (simp_all del: concat_eq_Nil_conv)
  ultimately show ?case using start(4) by (auto simp: Start_def rate_ok_def)
next
  case (step evs p ev p')
  then show ?case using step_rate [OF runs_queue [OF step.hyps(1)] _ step.prems step.hyps(2)] rate_ok_snoc by blast
qed

section \<open>Properties\<close>

text \<open>
  In every interleaving of clients and worker the queue is first in, first out and its size is right: what was
  sent, what the worker has in hand and what is queued are, in this order, the packets whose \<open>Enqueue\<close> took the lock,
  each with its size set, and \<open>queueBytes\<close> is the sum of the sizes queued (at the width of \<open>int\<close>).
\<close>

theorem leaky_queue:
  assumes "runs headerSize (NewPacerLeakyBucket intvl r latency) evs p"
  shows "sents evs @ in_hand (pc p) @ packets p = pushed evs \<and>
    queueBytes p = wrap64 (bytes (packets p)) \<and>
    (\<forall>pkt \<in> set (packets p). getPktSize headerSize pkt = (pktSize pkt, pkt))"
proof -
  from runs_queue [OF assms] have q: "queue_inv headerSize evs p" .
  then have "list_all (sized headerSize) (packets p)" unfolding queue_inv_def by (metis list_all_append)
  then show ?thesis using q by (simp add: queue_inv_def list_all_iff sized_def)
qed

text \<open>
  C27. The bucket holds its rate: at every moment the bytes sent are at most the bytes the ticks have granted plus one
  packet (of the largest size \<open>M\<close>), whatever clients do, and as long as the worker has not found the queue empty and is not
  stopped it uses all of the grants: between ticks the bytes sent are the bytes granted plus an overage of at most one packet.
\<close>

theorem leaky_rate:
  assumes "runs headerSize (NewPacerLeakyBucket intvl r latency) evs p" "rate_ok M evs"
  shows "bytes (sents evs) \<le> granted evs + M \<and>
    (Idle \<notin> set evs \<and> \<not> isStopped p \<and> (pc p = AtLoop \<or> pc p = AtTicker) \<longrightarrow>
      bytes (sents evs) = granted evs + overage p \<and> 0 \<le> overage p \<and> overage p \<le> M)"
proof -
  have "0 \<le> M" using assms(2) by (simp add: rate_ok_def)
  then show ?thesis using runs_rate [OF assms] by (cases "pc p") auto
qed

definition example_packet :: "(unit, unit) Packet" where
  "example_packet = \<lparr>Header = (), Extensions = [\<lparr>ext_ID = 1, ext_Payload = [1, 2, 3]\<rparr>], Payload = replicate 100 0,
     AbsSendTimeExtID = 0, Writer = (\<lambda>_ _. Inr 0), pooled = False, pktSize = 116\<rparr>"

definition example_events :: "(unit, unit) event list" where
  "example_events = [Started, Entered (example_packet\<lparr>pktSize := 0\<rparr>), Pushed example_packet, Moved, Granted 0, Moved, Moved, Sent example_packet]"

lemma leaky_example:
  "\<exists>p. runs (\<lambda>_. 12) (NewPacerLeakyBucket 5000000 8000000 0) example_events p \<and> pc p = AtLoop \<and> \<not> isStopped p \<and> overage p = 116 \<and> packets p = []"
proof -
  let ?run = "runs (\<lambda>_ :: unit. 12) (NewPacerLeakyBucket 5000000 8000000 0 :: (unit, unit) PacerLeakyBucket)"
  let ?p = "NewPacerLeakyBucket 5000000 8000000 0\<lparr>pc := AtLoop, overage := 0, lastProcess := 7\<rparr> :: (unit, unit) PacerLeakyBucket"
  note d = NewPacerLeakyBucket_def
  have "Start 7 (NewPacerLeakyBucket 5000000 8000000 0) = ?p" by (simp add: Start_def d)
  with runs.start [OF runs.new, of "\<lambda>_. 12" "NewPacerLeakyBucket 5000000 8000000 0 :: (unit, unit) PacerLeakyBucket" 7]
  have 1: "?run [Started] ?p" by simp
  let ?p2 = "?p\<lparr>entering := [example_packet]\<rparr>"
  have g: "getPktSize (\<lambda>_ :: unit. 12) (example_packet\<lparr>pktSize := 0\<rparr>) = (116, example_packet)"
    "getPktSize (\<lambda>_ :: unit. 12) example_packet = (116, example_packet)" "pktSize example_packet = 116"
    by (simp_all add: getPktSize_def example_packet_def)
  have "Enqueue_check (\<lambda>_. 12) (example_packet\<lparr>pktSize := 0\<rparr>) ?p = ?p2" by (simp add: Enqueue_check_def g d)
  with runs.step [OF 1 step.enter, of "example_packet\<lparr>pktSize := 0\<rparr>"]
  have 2: "?run [Started, Entered (example_packet\<lparr>pktSize := 0\<rparr>)] ?p2" by simp
  let ?p3 = "?p\<lparr>packets := [example_packet], queueBytes := 116\<rparr>"
  have "Enqueue_push 0 ?p2 = ?p3" by (simp add: Enqueue_push_def g d wrap64_id)
  with runs.step [OF 2 step.push, of 0]
  have 3: "?run [Started, Entered (example_packet\<lparr>pktSize := 0\<rparr>), Pushed example_packet] ?p3" by simp
  let ?p4 = "?p3\<lparr>pc := AtTicker\<rparr>"
  have "work (\<lambda>_. 12) ?p3 Moved ?p4" using work.loop [of ?p3] by (simp add: d)
  from runs.step [OF 3 step.working [OF this]]
  have 4: "?run [Started, Entered (example_packet\<lparr>pktSize := 0\<rparr>), Pushed example_packet, Moved] ?p4" by simp
  let ?p5 = "?p4\<lparr>pc := AtInner 0\<rparr>"
  have "tick 7 8 ?p4 = (0, ?p5)"
    by (simp add: tick_def Let_def d time_sub_def interval_bytes_def max_overshoot_def seconds_def float_to_int64_def wrap64_id)
  from runs.step [OF 4 step.working [OF work.tick [OF _ this]]]
  have 5: "?run [Started, Entered (example_packet\<lparr>pktSize := 0\<rparr>), Pushed example_packet, Moved, Granted 0] ?p5" by simp
  let ?p6 = "?p5\<lparr>pc := AtPop 0\<rparr>"
  have "work (\<lambda>_. 12) ?p5 Moved ?p6" by (rule work.inner) (simp_all add: d)
  from runs.step [OF 5 step.working [OF this]]
  have 6: "?run [Started, Entered (example_packet\<lparr>pktSize := 0\<rparr>), Pushed example_packet, Moved, Granted 0, Moved] ?p6" by simp
  let ?p7 = "?p6\<lparr>packets := [], queueBytes := 0, pc := AtSend example_packet 0\<rparr>"
  have "pop (\<lambda>_. 12) 9 0 ?p6 = ?p7" by (simp add: pop_def g wrap64_id)
  then have "work (\<lambda>_. 12) ?p6 Moved ?p7" using work.pop [of ?p6 0 "\<lambda>_. 12" 9] by simp
  from runs.step [OF 6 step.working [OF this]]
  have 7: "?run [Started, Entered (example_packet\<lparr>pktSize := 0\<rparr>), Pushed example_packet, Moved, Granted 0, Moved, Moved] ?p7" by simp
  have "sent_one 9 example_packet 0 ?p7 = ?p7\<lparr>overage := 116, lastProcess := 9, pc := AtLoop\<rparr>"
    by (simp add: sent_one_def g wrap64_id)
  with runs.step [OF 7 step.working [OF work.send [of ?p7 example_packet 0], of "\<lambda>_. 12" 9]]
  have "?run example_events (?p7\<lparr>overage := 116, lastProcess := 9, pc := AtLoop\<rparr>)" by (simp add: example_events_def)
  moreover have "isStopped (NewPacerLeakyBucket 5000000 8000000 0 :: (unit, unit) PacerLeakyBucket) = False" by (simp add: d)
  ultimately show ?thesis by (intro exI conjI) (assumption | simp)+
qed

lemma example_events_facts:
  "sents example_events = [example_packet]" "pushed example_events = [example_packet]" "granted example_events = 0"
  "bytes [example_packet] = 116" "rate_ok 1500 example_events" "Idle \<notin> set example_events"
  by (simp_all add: example_events_def granted_def rate_ok_def example_packet_def)

theorem leaky_queue_witness:
  "\<exists>p :: (unit, unit) PacerLeakyBucket. sents example_events @ in_hand (pc p) @ packets p = [example_packet] \<and> queueBytes p = 0 \<and> overage p = 116"
proof -
  from leaky_example obtain p where p: "runs (\<lambda>_. 12) (NewPacerLeakyBucket 5000000 8000000 0) example_events p" "overage p = 116" "packets p = []"
    by blast
  from leaky_queue [OF p(1)] p show ?thesis by (intro exI [of _ p]) (simp add: example_events_facts wrap64_id)
qed

theorem leaky_rate_witness:
  "\<exists>p :: (unit, unit) PacerLeakyBucket. bytes (sents example_events) \<le> granted example_events + 1500 \<and> bytes (sents example_events) = granted example_events + overage p \<and> overage p = 116"
proof -
  from leaky_example obtain p where p: "runs (\<lambda>_. 12) (NewPacerLeakyBucket 5000000 8000000 0) example_events p"
    "pc p = AtLoop" "\<not> isStopped p" "overage p = 116" by blast
  from leaky_rate [OF p(1) example_events_facts(5)] p example_events_facts(6) show ?thesis by blast
qed

end
