(* ===== verification/Net_IP.thy ===== *)
theory Net_IP
  imports Go_Prelude
begin

text \<open>
  What the code uses of IP addresses in Go's \<open>net\<close> package. An \<open>IP\<close> is its bytes, the nil \<open>IP\<close> the empty list; an
  IPv4 address has two forms, of 4 and of 16 bytes.
\<close>

type_synonym IP = "byte list"

definition v4InV6Prefix :: "byte list" where
  "v4InV6Prefix = [0, 0, 0, 0, 0, 0, 0, 0, 0, 0, 0xff, 0xff]"

definition To4 :: "IP \<Rightarrow> IP option" where
  "To4 ip = (if length ip = 4 then Some ip
     else if length ip = 16 \<and> take 12 ip = v4InV6Prefix then Some (drop 12 ip)
     else None)"

definition ip_Equal :: "IP \<Rightarrow> IP \<Rightarrow> bool" where
  "ip_Equal ip x =
    (if length ip = length x then ip = x
     else if length ip = 4 \<and> length x = 16 then take 12 x = v4InV6Prefix \<and> ip = drop 12 x
     else if length ip = 16 \<and> length x = 4 then take 12 ip = v4InV6Prefix \<and> drop 12 ip = x
     else False)"

definition IPv6loopback :: IP where
  "IPv6loopback = [0, 0, 0, 0, 0, 0, 0, 0, 0, 0, 0, 0, 0, 0, 0, 1]"

definition IsLoopback :: "IP \<Rightarrow> bool" where
  "IsLoopback ip = (case To4 ip of Some ip4 \<Rightarrow> ip4 ! 0 = 127 | None \<Rightarrow> ip_Equal ip IPv6loopback)"

definition IsLinkLocalUnicast :: "IP \<Rightarrow> bool" where
  "IsLinkLocalUnicast ip = (case To4 ip of
       Some ip4 \<Rightarrow> ip4 ! 0 = 169 \<and> ip4 ! 1 = 254
     | None \<Rightarrow> length ip = 16 \<and> ip ! 0 = 0xfe \<and> ip ! 1 AND 0xc0 = 0x80)"

definition IsLinkLocalMulticast :: "IP \<Rightarrow> bool" where
  "IsLinkLocalMulticast ip = (case To4 ip of
       Some ip4 \<Rightarrow> ip4 ! 0 = 224 \<and> ip4 ! 1 = 0 \<and> ip4 ! 2 = 0
     | None \<Rightarrow> length ip = 16 \<and> ip ! 0 = 0xff \<and> ip ! 1 AND 0x0f = 0x02)"

text \<open>Addresses of interfaces (\<open>net.Addr\<close>), and the addresses sockets listen on.\<close>

datatype net_addr = IPNet IP | IPAddr IP | OtherAddr

text \<open>A network interface; asking it for its addresses can fail.\<close>

record 'e iface =
  if_Name :: string
  if_Flags :: u64
  if_Addrs :: "'e + net_addr list"

datatype addr = UDPAddr IP int | NotUDPAddr

text \<open>Both forms of an IPv4 address print alike; what \<open>IP.String\<close> prints tells all other addresses apart. This is
  the form that stands for it as a key.\<close>

definition ip_key :: "IP \<Rightarrow> IP" where
  "ip_key ip = (case To4 ip of Some ip4 \<Rightarrow> ip4 | None \<Rightarrow> ip)"

lemma To4_length: "To4 ip = Some ip4 \<Longrightarrow> length ip4 = 4"
  by (auto simp: To4_def split: if_splits)

lemma ip_key_Equal:
  "ip_Equal ip x \<longleftrightarrow> ip_key ip = ip_key x"
proof -
  have s: "ip = x" if "length ip = 16" "length x = 16" "take 12 ip = take 12 x" "drop 12 ip = drop 12 x"
    using that(3,4) by (metis append_take_drop_id)
  show ?thesis by (auto simp: ip_Equal_def ip_key_def To4_def intro: s split: if_splits)
qed

end
