(* ===== verification/Net_Text.thy ===== *)
theory Net_Text
  imports Net_IP
begin

text \<open>
  The text functions of Go's \<open>strconv\<close>, \<open>strings\<close> and \<open>net\<close> packages that the configuration uses: decimal numbers,
  splitting and trimming, printing and parsing addresses and networks. A Go string is a list of bytes, as the
  characters of a \<open>string\<close> are.
\<close>

section \<open>Decimal and hexadecimal digits\<close>

definition digit_char :: "nat \<Rightarrow> char" where
  "digit_char d = (if d < 10 then char_of (48 + d) else char_of (87 + d))"

definition dec_digit :: "char \<Rightarrow> nat option" where
  "dec_digit c = (let k = of_char c in if 48 \<le> k \<and> k \<le> 57 then Some (k - 48) else None)"

definition hex_digit :: "char \<Rightarrow> nat option" where
  "hex_digit c = (let k = of_char c in
     if 48 \<le> k \<and> k \<le> 57 then Some (k - 48)
     else if 97 \<le> k \<and> k \<le> 102 then Some (k - 87)
     else if 65 \<le> k \<and> k \<le> 70 then Some (k - 55)
     else None)"

fun dec :: "nat \<Rightarrow> string" where
  "dec n = (if n < 10 then [digit_char n] else dec (n div 10) @ [digit_char (n mod 10)])"

fun hex :: "nat \<Rightarrow> string" where
  "hex n = (if n < 16 then [digit_char n] else hex (n div 16) @ [digit_char (n mod 16)])"

declare dec.simps [simp del] hex.simps [simp del]

section \<open>strconv and strings\<close>

definition Itoa :: "int \<Rightarrow> string" where
  "Itoa i = (if i < 0 then CHR ''-'' # dec (nat (- i)) else dec (nat i))"

text \<open>\<open>None\<close> is the error: no digits, another character, or a number out of the range of \<open>int\<close>.\<close>

definition Atoi :: "string \<Rightarrow> int option" where
  "Atoi s =
    (let neg = (s \<noteq> [] \<and> hd s = CHR ''-'');
         ds = (if s \<noteq> [] \<and> (hd s = CHR ''-'' \<or> hd s = CHR ''+'') then tl s else s)
     in if ds = [] \<or> \<not> list_all (\<lambda>c. dec_digit c \<noteq> None) ds then None
        else
          let v = foldl (\<lambda>a c. a * 10 + int (the (dec_digit c))) 0 ds;
              v = (if neg then - v else v)
          in if - (2 ^ 63) \<le> v \<and> v < 2 ^ 63 then Some v else None)"

fun Split :: "string \<Rightarrow> char \<Rightarrow> string list" where
  "Split [] sep = [[]]"
| "Split (c # cs) sep =
    (if c = sep then [] # Split cs sep
     else (case Split cs sep of [] \<Rightarrow> [[c]] | p # ps \<Rightarrow> (c # p) # ps))"

definition Trim :: "string \<Rightarrow> char \<Rightarrow> string" where
  "Trim s c = rev (dropWhile (\<lambda>x. x = c) (rev (dropWhile (\<lambda>x. x = c) s)))"

fun Join :: "string list \<Rightarrow> string \<Rightarrow> string" where
  "Join [] sep = []"
| "Join [s] sep = s"
| "Join (s # t # ss) sep = s @ sep @ Join (t # ss) sep"

section \<open>Printing addresses\<close>

definition dotted :: "IP \<Rightarrow> string" where
  "dotted ip4 = Join (map (\<lambda>b. dec (unat b)) ip4) ''.''"

text \<open>The eight groups of an IPv6 address, and the first of its longest runs of at least two zero groups.\<close>

definition groups :: "IP \<Rightarrow> nat list" where
  "groups ip = map (\<lambda>k. 256 * unat (ip ! (2 * k)) + unat (ip ! (2 * k + 1))) [0..<8]"

definition zero_run :: "nat list \<Rightarrow> nat \<Rightarrow> nat" where
  "zero_run gs i = length (takeWhile (\<lambda>g. g = 0) (drop i gs))"

definition best_run :: "nat list \<Rightarrow> (nat \<times> nat) option" where
  "best_run gs = foldl (\<lambda>best i. let l = zero_run gs i in
     if l \<ge> 2 \<and> (case best of None \<Rightarrow> True | Some (a, b) \<Rightarrow> l > b - a) then Some (i, i + l) else best) None [0..<8]"

definition text6 :: "IP \<Rightarrow> string" where
  "text6 ip = (let gs = groups ip in
     case best_run gs of
       None \<Rightarrow> Join (map hex gs) '':''
     | Some (a, b) \<Rightarrow> Join (map hex (take a gs)) '':'' @ ''::'' @ Join (map hex (drop b gs)) '':'')"

definition ip_String :: "IP \<Rightarrow> string" where
  "ip_String ip =
    (if ip = [] then ''<nil>''
     else if length ip \<noteq> 4 \<and> length ip \<noteq> 16
       then CHR ''?'' # concat (map (\<lambda>b. [digit_char (unat b div 16), digit_char (unat b mod 16)]) ip)
     else case To4 ip of Some ip4 \<Rightarrow> dotted ip4 | None \<Rightarrow> text6 ip)"

section \<open>Parsing addresses\<close>

text \<open>The loop over the characters: the value and number of digits of the current field, the octets before it and
  the character before.\<close>

fun v4_loop :: "nat \<Rightarrow> nat \<Rightarrow> byte list \<Rightarrow> char option \<Rightarrow> string \<Rightarrow> byte list option" where
  "v4_loop val digLen octets prev [] = (if length octets < 3 then None else Some (octets @ [of_nat val]))"
| "v4_loop val digLen octets prev (c # cs) =
    (case dec_digit c of
       Some d \<Rightarrow>
         if digLen = 1 \<and> val = 0 then None
         else if val * 10 + d > 255 then None
         else v4_loop (val * 10 + d) (digLen + 1) octets (Some c) cs
     | None \<Rightarrow>
         if c = CHR ''.'' then
           if prev = None \<or> cs = [] \<or> prev = Some (CHR ''.'') then None
           else if length octets = 3 then None
           else v4_loop 0 0 (octets @ [of_nat val]) (Some c) cs
         else None)"

definition parseIPv4 :: "string \<Rightarrow> byte list option" where
  "parseIPv4 s = v4_loop 0 0 [] None s"

text \<open>The digits of a group: their number and value, and the rest of the text.\<close>

fun hex_run :: "nat \<Rightarrow> nat \<Rightarrow> string \<Rightarrow> (nat \<times> nat \<times> string) option" where
  "hex_run off acc [] = Some (off, acc, [])"
| "hex_run off acc (c # cs) =
    (case hex_digit c of
       Some d \<Rightarrow> if off > 3 \<or> acc * 16 + d > 65535 then None else hex_run (off + 1) (acc * 16 + d) cs
     | None \<Rightarrow> Some (off, acc, c # cs))"

text \<open>The loop over the groups; \<open>n\<close> groups of two bytes are still missing.\<close>

fun v6_loop :: "nat \<Rightarrow> byte list \<Rightarrow> nat option \<Rightarrow> string \<Rightarrow> (byte list \<times> nat option \<times> string) option" where
  "v6_loop 0 ip ellipsis s = Some (ip, ellipsis, s)"
| "v6_loop (Suc n) ip ellipsis s =
    (case hex_run 0 0 s of
       None \<Rightarrow> None
     | Some (off, acc, rest) \<Rightarrow>
         if off = 0 then None
         else if rest \<noteq> [] \<and> hd rest = CHR ''.'' then
           if ellipsis = None \<and> Suc n \<noteq> 2 then None
           else if Suc n < 2 then None
           else (case parseIPv4 s of None \<Rightarrow> None | Some octets \<Rightarrow> Some (ip @ octets, ellipsis, []))
         else
           let ip = ip @ [of_nat (acc div 256), of_nat (acc mod 256)] in
           if rest = [] then Some (ip, ellipsis, [])
           else if hd rest \<noteq> CHR '':'' \<or> tl rest = [] then None
           else
             let s = tl rest in
             if hd s = CHR '':'' then
               if ellipsis \<noteq> None then None
               else if tl s = [] then Some (ip, Some (length ip), [])
               else v6_loop n ip (Some (length ip)) (tl s)
             else v6_loop n ip ellipsis s)"

definition parseIPv6 :: "string \<Rightarrow> byte list option" where
  "parseIPv6 s =
    (if CHR ''%'' \<in> set s then None
     else
       let (ellipsis, s) = (if take 2 s = ''::'' then (Some 0, drop 2 s) else (None, s)) in
       if ellipsis \<noteq> None \<and> s = [] then Some (replicate 16 0)
       else case v6_loop 8 [] ellipsis s of
           None \<Rightarrow> None
         | Some (ip, ellipsis, s) \<Rightarrow>
             if s \<noteq> [] then None
             else if length ip < 16 then
               (case ellipsis of None \<Rightarrow> None
                | Some e \<Rightarrow> Some (take e ip @ replicate (16 - length ip) 0 @ drop e ip))
             else if ellipsis \<noteq> None then None
             else Some ip)"

text \<open>The first of \<open>.\<close>, \<open>:\<close> and \<open>%\<close> decides. The result says whether the text is that of an IPv6 address; an address with
  a zone is refused by the callers.\<close>

definition parseAddr :: "string \<Rightarrow> (bool \<times> byte list) option" where
  "parseAddr s =
    (case dropWhile (\<lambda>c. c \<noteq> CHR ''.'' \<and> c \<noteq> CHR '':'' \<and> c \<noteq> CHR ''%'') s of
       [] \<Rightarrow> None
     | c # _ \<Rightarrow>
         if c = CHR ''.'' then map_option (\<lambda>f. (False, v4InV6Prefix @ f)) (parseIPv4 s)
         else if c = CHR '':'' then map_option (\<lambda>ip. (True, ip)) (parseIPv6 s)
         else None)"

definition ParseIP :: "string \<Rightarrow> IP option" where
  "ParseIP s = map_option snd (parseAddr s)"


section \<open>Numbers are read back\<close>

lemma of_char_digit: "d < 16 \<Longrightarrow> (of_char (digit_char d) :: nat) = (if d < 10 then 48 + d else 87 + d)"
  by (simp add: digit_char_def)

lemma dec_digit_char [simp]: "d < 10 \<Longrightarrow> dec_digit (digit_char d) = Some d"
  by (simp add: dec_digit_def of_char_digit)

lemma hex_digit_char [simp]: "d < 16 \<Longrightarrow> hex_digit (digit_char d) = Some d"
  by (auto simp: hex_digit_def of_char_digit Let_def)

lemma dec_induct [case_names small step]:
  assumes "\<And>n. n < 10 \<Longrightarrow> P n" "\<And>n. 10 \<le> n \<Longrightarrow> P (n div 10) \<Longrightarrow> P n"
  shows "P (n :: nat)"
proof (induction n rule: less_induct)
  case (less n)
  show ?case
  proof (cases "n < 10")
    case False
    then have "n div 10 < n" by simp
    from assms(2) [OF _ less.IH [OF this]] False show ?thesis by simp
  qed (rule assms(1))
qed

lemma dec_small: "n < 10 \<Longrightarrow> dec n = [digit_char n]"
  by (simp add: dec.simps)

lemma dec_step: "10 \<le> n \<Longrightarrow> dec n = dec (n div 10) @ [digit_char (n mod 10)]"
  by (simp add: dec.simps [of n])

lemma dec_nonempty [simp]: "dec n \<noteq> []"
  by (subst dec.simps) simp

lemma dec_digits: "list_all (\<lambda>c. dec_digit c \<noteq> None) (dec n)"
  by (induction n rule: dec_induct) (simp_all add: dec_small dec_step)

text \<open>What a character that stands for no digit cannot be in.\<close>

lemma not_in_dec: "dec_digit c = None \<Longrightarrow> c \<notin> set (dec n)"
  using dec_digits [of n] by (auto simp: list_all_iff)

lemma dec_value: "foldl (\<lambda>a c. a * 10 + int (the (dec_digit c))) 0 (dec n) = int n"
  by (induction n rule: dec_induct) (simp_all add: dec_small dec_step zdiv_int zmod_int)

lemma Atoi_dec: "int n < 2 ^ 63 \<Longrightarrow> Atoi (dec n) = Some (int n)"
proof -
  assume n: "int n < 2 ^ 63"
  have "dec_digit (hd (dec n)) \<noteq> None" using dec_digits [of n] dec_nonempty [of n] by (cases "dec n") simp_all
  moreover have "dec_digit (CHR ''-'') = None" "dec_digit (CHR ''+'') = None" by (simp_all add: dec_digit_def)
  ultimately have "hd (dec n) \<noteq> CHR ''-''" "hd (dec n) \<noteq> CHR ''+''" by metis+
  then show ?thesis using n dec_digits [of n] by (simp add: Atoi_def Let_def dec_value)
qed

lemma Atoi_Itoa: "0 \<le> i \<Longrightarrow> i < 2 ^ 63 \<Longrightarrow> Atoi (Itoa i) = Some i"
  using Atoi_dec [of "nat i"] by (simp add: Itoa_def)

lemma Atoi_empty [simp]: "Atoi [] = None"
  by (simp add: Atoi_def)

section \<open>Splitting and trimming\<close>

lemma Split_nonempty [simp]: "Split s sep \<noteq> []"
  by (induction s sep rule: Split.induct) (auto split: list.splits)

lemma Split_none: "sep \<notin> set s \<Longrightarrow> Split s sep = [s]"
  by (induction s sep rule: Split.induct) auto

lemma Split_append: "sep \<notin> set s \<Longrightarrow> Split (s @ sep # t) sep = s # Split t sep"
  by (induction s) auto

lemma dropWhile_hd: "s = [] \<or> hd s \<noteq> c \<Longrightarrow> dropWhile (\<lambda>x. x = c) s = s"
  by (cases s) auto

lemma Trim_none: "s = [] \<or> hd s \<noteq> c \<and> last s \<noteq> c \<Longrightarrow> Trim s c = s"
  using dropWhile_hd [of s c] dropWhile_hd [of "rev s" c] by (auto simp: Trim_def hd_rev)

lemma Trim_absent: "c \<notin> set s \<Longrightarrow> Trim s c = s"
  by (rule Trim_none) (metis hd_in_set last_in_set)

section \<open>Addresses are read back\<close>

text \<open>Reading the digits of a number that is not too large.\<close>

lemma v4_loop_dec:
  "n \<le> 255 \<Longrightarrow> cs = [] \<or> dec_digit (hd cs) = None \<Longrightarrow>
   \<exists>dl c. v4_loop 0 0 octets prev (dec n @ cs) = v4_loop n dl octets (Some c) cs \<and> c \<noteq> CHR ''.''"
proof -
  have nd: "digit_char d \<noteq> CHR ''.''" if "d < 10" for d
    using dec_digit_char [OF that] by (auto simp: dec_digit_def)
  assume n: "n \<le> 255" "cs = [] \<or> dec_digit (hd cs) = None"
  consider "n < 10" | "10 \<le> n" "n < 100" | "100 \<le> n" by linarith
  then show ?thesis
  proof cases
    case 1
    then show ?thesis using nd by (simp add: dec_small) blast
  next
    case 2
    then have "dec n = [digit_char (n div 10), digit_char (n mod 10)]" by (simp add: dec_step dec_small)
    moreover have "n div 10 < 10" "n div 10 \<noteq> 0" using 2 by auto
    ultimately show ?thesis using nd [of "n mod 10"] n(1) by simp blast
  next
    case 3
    have q: "n div 10 div 10 < 10" "n div 10 div 10 \<noteq> 0" "10 \<le> n div 10" using 3 n(1) by auto
    then have "dec n = [digit_char (n div 10 div 10), digit_char (n div 10 mod 10), digit_char (n mod 10)]"
      using 3 by (simp add: dec_step dec_small)
    moreover have "n div 10 div 10 * 10 + n div 10 mod 10 = n div 10" "n div 10 * 10 + n mod 10 = n" by simp_all
    moreover have "\<not> 255 < n div 10" using n(1) by simp
    ultimately show ?thesis using nd [of "n mod 10"] n(1) q by simp blast
  qed
qed

lemma parseIPv4_dotted:
  assumes "length ip = 4"
  shows "parseIPv4 (dotted ip) = Some ip"
proof -
  obtain a b c d where ip: "ip = [a, b, c, d]" using assms by (auto simp: length_Suc_conv eval_nat_numeral)
  have le: "unat x \<le> 255" for x :: byte using unat_less_exp [of x] by simp
  have dot: "dec_digit (CHR ''.'') = None" by (simp add: dec_digit_def)
  have step: "v4_loop 0 0 octets prev (dec (unat x) @ CHR ''.'' # cs) = v4_loop 0 0 (octets @ [x]) (Some (CHR ''.'')) cs"
    if "length octets < 3" "cs \<noteq> []" for octets prev x cs
    using v4_loop_dec [OF le, of "CHR ''.'' # cs" octets prev x] that dot by auto
  have fin: "v4_loop 0 0 octets prev (dec (unat x)) = Some (octets @ [x])" if "length octets = 3" for octets prev x
    using v4_loop_dec [OF le, of "[]" octets prev x] that by auto
  show ?thesis by (simp add: parseIPv4_def dotted_def ip step fin)
qed


lemma hex_small: "n < 16 \<Longrightarrow> hex n = [digit_char n]"
  by (simp add: hex.simps)

lemma hex_step: "16 \<le> n \<Longrightarrow> hex n = hex (n div 16) @ [digit_char (n mod 16)]"
  by (simp add: hex.simps [of n])

text \<open>A group has one to four digits, the first of which is no colon, and is read back.\<close>

lemma hex_run_hex:
  assumes "g < 65536" "cs = [] \<or> hex_digit (hd cs) = None"
  shows "\<exists>off. 0 < off \<and> hex_run 0 0 (hex g @ cs) = Some (off, g, cs)"
proof -
  have cs: "hex_run off acc cs = Some (off, acc, cs)" for off acc using assms(2) by (cases cs) auto
  consider "g < 16" | "16 \<le> g" "g < 256" | "256 \<le> g" "g < 4096" | "4096 \<le> g" by linarith
  then show ?thesis
  proof cases
    case 1
    then show ?thesis using cs by (simp add: hex_small)
  next
    case 2
    then have "hex g = [digit_char (g div 16), digit_char (g mod 16)]" by (simp add: hex_step hex_small)
    then show ?thesis using cs 2 assms(1) by simp
  next
    case 3
    then have "hex g = [digit_char (g div 16 div 16), digit_char (g div 16 mod 16), digit_char (g mod 16)]"
      by (simp add: hex_step hex_small div_mult2_eq)
    moreover have "g div 16 div 16 < 16" using 3 by (simp add: div_mult2_eq [symmetric])
    moreover have "\<not> 65535 < g div 16" using assms(1) by simp
    ultimately show ?thesis using cs assms(1) by simp
  next
    case 4
    then have "hex g = [digit_char (g div 16 div 16 div 16), digit_char (g div 16 div 16 mod 16), digit_char (g div 16 mod 16), digit_char (g mod 16)]"
      using assms(1) by (simp add: hex_step hex_small div_mult2_eq)
    moreover have "g div 16 div 16 div 16 < 16" using assms(1) by (simp add: div_mult2_eq [symmetric])
    moreover have "\<not> 65535 < g div 16" "\<not> 65535 < g div 16 div 16" using assms(1) by simp_all
    ultimately show ?thesis using cs assms(1) by simp
  qed
qed

lemma hex_digits: "list_all (\<lambda>c. hex_digit c \<noteq> None) (hex g)"
proof (induction g rule: less_induct)
  case (less g)
  show ?case
  proof (cases "g < 16")
    case False
    then have "g div 16 < g" by simp
    from less.IH [OF this] False show ?thesis by (simp add: hex_step)
  qed (simp add: hex_small)
qed

lemma hex_nonempty [simp]: "hex g \<noteq> []"
  by (subst hex.simps) simp

lemma hd_hex: "hex_digit (hd (hex g)) \<noteq> None"
  using hex_digits [of g] hex_nonempty [of g] by (cases "hex g") simp_all

lemma separators_no_digits [simp]:
  "hex_digit (CHR '':'') = None" "hex_digit (CHR ''.'') = None" "hex_digit (CHR ''%'') = None" "hex_digit (CHR '','') = None"
  "hex_digit (CHR '' '') = None" "hex_digit (CHR ''/'') = None"
  "dec_digit (CHR ''.'') = None" "dec_digit (CHR '':'') = None" "dec_digit (CHR '','') = None" "dec_digit (CHR '' '') = None"
  "dec_digit (CHR ''-'') = None" "dec_digit (CHR ''/'') = None" "dec_digit (CHR ''%'') = None"
  by (simp_all add: hex_digit_def dec_digit_def)

definition gbytes :: "nat \<Rightarrow> byte list" where
  "gbytes g = [of_nat (g div 256), of_nat (g mod 256)]"

abbreviation joined :: "nat list \<Rightarrow> string" where
  "joined gs \<equiv> Join (map hex gs) '':''"

lemma joined_Cons: "gs \<noteq> [] \<Longrightarrow> joined (g # gs) = hex g @ CHR '':'' # joined gs"
  by (cases gs) auto

lemma joined_eq_Nil [simp]: "joined gs = [] \<longleftrightarrow> gs = []"
  by (cases gs rule: list.exhaust; cases "tl gs") auto

lemma hd_joined: "gs \<noteq> [] \<Longrightarrow> hex_digit (hd (joined gs @ t)) \<noteq> None"
  using hd_hex [of "hd gs"] by (cases gs; cases "tl gs") auto

lemma hd_not_colon: "hex_digit (hd s) \<noteq> None \<Longrightarrow> hd s \<noteq> CHR '':'' \<and> hd s \<noteq> CHR ''.''"
  by auto

text \<open>One group followed by a colon, and a last group.\<close>

lemma v6_loop_last:
  "g < 65536 \<Longrightarrow> v6_loop (Suc n) ip e (hex g) = Some (ip @ gbytes g, e, [])"
  using hex_run_hex [of g "[]"] by (auto simp: gbytes_def)

lemma v6_loop_colon:
  assumes "g < 65536" "s \<noteq> []" "hd s \<noteq> CHR '':''"
  shows "v6_loop (Suc n) ip e (hex g @ CHR '':'' # s) = v6_loop n (ip @ gbytes g) e s"
proof -
  obtain off where "0 < off" "hex_run 0 0 (hex g @ CHR '':'' # s) = Some (off, g, CHR '':'' # s)"
    using hex_run_hex [OF assms(1), of "CHR '':'' # s"] by auto
  then show ?thesis using assms(2,3) by (simp add: gbytes_def Let_def)
qed

lemma v6_loop_ellipsis:
  assumes "g < 65536"
  shows "v6_loop (Suc n) ip None (hex g @ CHR '':'' # CHR '':'' # s) =
    (if s = [] then Some (ip @ gbytes g, Some (length ip + 2), []) else v6_loop n (ip @ gbytes g) (Some (length ip + 2)) s)"
proof -
  obtain off where "0 < off" "hex_run 0 0 (hex g @ CHR '':'' # CHR '':'' # s) = Some (off, g, CHR '':'' # CHR '':'' # s)"
    using hex_run_hex [OF assms, of "CHR '':'' # CHR '':'' # s"] by auto
  then show ?thesis by (simp add: gbytes_def Let_def)
qed

lemma v6_loop_joined:
  "gs \<noteq> [] \<Longrightarrow> list_all (\<lambda>g. g < 65536) gs \<Longrightarrow> length gs \<le> n \<Longrightarrow>
   v6_loop n ip e (joined gs) = Some (ip @ concat (map gbytes gs), e, [])"
proof (induction gs arbitrary: n ip)
  case (Cons g gs)
  obtain m where n: "n = Suc m" using Cons.prems(3) by (cases n) auto
  show ?case
  proof (cases "gs = []")
    case True then show ?thesis using Cons.prems n by (simp add: v6_loop_last del: v6_loop.simps)
  next
    case False
    have "hd (joined gs) \<noteq> CHR '':''" using hd_not_colon [OF hd_joined [OF False, of "[]"]] by simp
    then have "v6_loop n ip e (joined (g # gs)) = v6_loop m (ip @ gbytes g) e (joined gs)"
      using Cons.prems False unfolding n joined_Cons [OF False] by (intro v6_loop_colon) simp_all
    then show ?thesis using Cons.IH [of m "ip @ gbytes g"] Cons.prems False n by simp
  qed
qed simp

lemma v6_loop_joined_ellipsis:
  "gs \<noteq> [] \<Longrightarrow> list_all (\<lambda>g. g < 65536) gs \<Longrightarrow> length gs \<le> n \<Longrightarrow>
   v6_loop n ip None (joined gs @ ''::'' @ s) =
     (if s = [] then Some (ip @ concat (map gbytes gs), Some (length ip + 2 * length gs), [])
      else v6_loop (n - length gs) (ip @ concat (map gbytes gs)) (Some (length ip + 2 * length gs)) s)"
proof (induction gs arbitrary: n ip)
  case (Cons g gs)
  obtain m where n: "n = Suc m" using Cons.prems(3) by (cases n) auto
  show ?case
  proof (cases "gs = []")
    case True
    then show ?thesis using v6_loop_ellipsis [of g m ip s] Cons.prems n by (simp del: v6_loop.simps)
  next
    case False
    have t: "joined (g # gs) @ ''::'' @ s = hex g @ CHR '':'' # (joined gs @ ''::'' @ s)"
      unfolding joined_Cons [OF False] by simp
    have "hd (joined gs @ ''::'' @ s) \<noteq> CHR '':''" using hd_not_colon [OF hd_joined [OF False]] by blast
    then have "v6_loop n ip None (joined (g # gs) @ ''::'' @ s) = v6_loop m (ip @ gbytes g) None (joined gs @ ''::'' @ s)"
      using Cons.prems unfolding n t by (intro v6_loop_colon) simp_all
    moreover have "length (ip @ gbytes g) = length ip + 2" by (simp add: gbytes_def)
    ultimately show ?thesis using Cons.IH [of m "ip @ gbytes g"] Cons.prems False n by simp
  qed
qed simp

lemma groups_bytes:
  assumes "length ip = 16"
  shows "concat (map gbytes (groups ip)) = ip" "list_all (\<lambda>g. g < 65536) (groups ip)" "length (groups ip) = 8"
proof -
  have lt: "unat (x :: byte) < 256" for x using unat_less_exp [of x] by simp
  have g: "gbytes (256 * unat x + unat y) = [x, y]" for x y :: byte
    using lt [of y] by (simp add: gbytes_def)
  obtain a b c d e f g h i j k l m n o' p where ip: "ip = [a, b, c, d, e, f, g, h, i, j, k, l, m, n, o', p]"
    using assms by (auto simp: length_Suc_conv eval_nat_numeral)
  have u: "[0..<8] = [0, 1, 2, 3, 4, 5, 6, 7]" by (simp add: upt_rec)
  have "groups ip = [256 * unat a + unat b, 256 * unat c + unat d, 256 * unat e + unat f, 256 * unat g + unat h,
      256 * unat i + unat j, 256 * unat k + unat l, 256 * unat m + unat n, 256 * unat o' + unat p]"
    unfolding groups_def u ip by simp
  then show "concat (map gbytes (groups ip)) = ip" by (simp add: g ip)
  have "256 * unat (ip ! (2 * k)) + unat (ip ! (2 * k + 1)) < 65536" for k
    using lt [of "ip ! (2 * k)"] lt [of "ip ! (2 * k + 1)"] by linarith
  then show "list_all (\<lambda>g. g < 65536) (groups ip)" by (simp add: groups_def list_all_iff)
  show "length (groups ip) = 8" by (simp add: groups_def)
qed

text \<open>The run that is left out is one of zeros within the address.\<close>

lemma zero_run_zeros: "take (zero_run gs a) (drop a gs) = replicate (zero_run gs a) 0" "zero_run gs a \<le> length gs - a"
proof -
  have "takeWhile (\<lambda>g. g = 0) xs = replicate (length (takeWhile (\<lambda>g. g = 0) xs)) 0" for xs :: "nat list"
    by (induction xs) auto
  moreover have "take (length (takeWhile P xs)) xs = takeWhile P xs" for P and xs :: "nat list" by (metis takeWhile_eq_take)
  ultimately show "take (zero_run gs a) (drop a gs) = replicate (zero_run gs a) 0" unfolding zero_run_def by metis
  show "zero_run gs a \<le> length gs - a" unfolding zero_run_def using length_takeWhile_le [of "\<lambda>g. g = 0" "drop a gs"] by simp
qed

lemma best_run_run:
  "best_run gs = Some (a, b) \<Longrightarrow> a < 8 \<and> b = a + zero_run gs a \<and> a + 2 \<le> b"
proof -
  define F where "F = (\<lambda>best i. let l = zero_run gs i in
     if l \<ge> 2 \<and> (case best of None \<Rightarrow> True | Some (a, b) \<Rightarrow> l > b - a) then Some (i, i + l) else best)"
  define P where "P = (\<lambda>best :: (nat \<times> nat) option. \<forall>a b. best = Some (a, b) \<longrightarrow> a < 8 \<and> b = a + zero_run gs a \<and> a + 2 \<le> b)"
  have "P (F best i)" if "P best" "i < 8" for best i using that by (simp add: P_def F_def Let_def)
  then have "P (foldl F best is)" if "P best" "\<forall>i \<in> set is. i < 8" for best "is"
    using that by (induction "is" arbitrary: best) simp_all
  from this [of None "[0..<8]"] have "P (best_run gs)" by (simp add: best_run_def F_def P_def)
  then show "best_run gs = Some (a, b) \<Longrightarrow> ?thesis" by (simp add: P_def)
qed

lemma gbytes_zeros: "concat (map gbytes (replicate k 0)) = replicate (2 * k) 0"
  by (induction k) (simp_all add: gbytes_def)

lemma length_gbytes: "length (concat (map gbytes gs)) = 2 * length gs"
  by (induction gs) (simp_all add: gbytes_def)

lemma hex_text: "c \<in> set (joined gs) \<Longrightarrow> hex_digit c \<noteq> None \<or> c = CHR '':''"
proof (induction gs)
  case (Cons g gs)
  have g: "\<forall>c \<in> set (hex g). hex_digit c \<noteq> None" using hex_digits [of g] by (simp add: list_all_iff)
  show ?case
  proof (cases "gs = []")
    case True then show ?thesis using g Cons.prems by auto
  next
    case False
    then show ?thesis using g Cons.IH Cons.prems unfolding joined_Cons [OF False] by auto
  qed
qed simp


lemma take2_colons: "take 2 s = ''::'' \<Longrightarrow> hd s = CHR '':''"
  by (cases s) auto

lemma split_run:
  assumes "best_run gs = Some (a, b)" "length gs = 8"
  shows "gs = take a gs @ replicate (b - a) 0 @ drop b gs" "a + 2 \<le> b" "b \<le> 8"
proof -
  note r = best_run_run [OF assms(1)]
  note z = zero_run_zeros [of gs a]
  show "a + 2 \<le> b" using r by simp
  show "b \<le> 8" using r z(2) assms(2) by linarith
  have "drop a gs = take (zero_run gs a) (drop a gs) @ drop (zero_run gs a) (drop a gs)" by (rule append_take_drop_id [symmetric])
  also have "\<dots> = replicate (b - a) 0 @ drop b gs" using r z(1) by (simp add: add.commute)
  finally show "gs = take a gs @ replicate (b - a) 0 @ drop b gs" by (metis append_take_drop_id)
qed

lemma parseIPv6_whole:
  assumes "length gs = 8" "list_all (\<lambda>g. g < 65536) gs"
  shows "parseIPv6 (joined gs) = Some (concat (map gbytes gs))"
proof -
  have ne: "gs \<noteq> []" using assms(1) by auto
  have h: "hex_digit (hd (joined gs)) \<noteq> None" using hd_joined [OF ne, of "[]"] by simp
  then have "take 2 (joined gs) \<noteq> ''::''" using take2_colons hd_not_colon by blast
  moreover have "CHR ''%'' \<notin> set (joined gs)" using hex_text [of "CHR ''%''" gs] by auto
  moreover have "v6_loop 8 [] None (joined gs) = Some (concat (map gbytes gs), None, [])"
    using v6_loop_joined [OF ne assms(2), of 8 "[]" None] assms(1) by simp
  ultimately show ?thesis using assms(1) unfolding parseIPv6_def by (simp add: length_gbytes)
qed

lemma parseIPv6_run:
  assumes "length as + length bs < 8" "list_all (\<lambda>g. g < 65536) (as @ bs)"
  shows "parseIPv6 (joined as @ ''::'' @ joined bs) =
    Some (concat (map gbytes as) @ replicate (16 - 2 * (length as + length bs)) 0 @ concat (map gbytes bs))"
proof -
  have p: "CHR ''%'' \<notin> set (joined as @ ''::'' @ joined bs)" using hex_text [of "CHR ''%''" as] hex_text [of "CHR ''%''" bs] by auto
  have ok: "list_all (\<lambda>g. g < 65536) as" "list_all (\<lambda>g. g < 65536) bs" using assms(2) by simp_all
  show ?thesis
  proof (cases "as = []")
    case True
    show ?thesis
    proof (cases "bs = []")
      case False
      then have "v6_loop 8 [] (Some 0) (joined bs) = Some (concat (map gbytes bs), Some 0, [])"
        using v6_loop_joined [OF False ok(2), of 8 "[]" "Some 0"] assms(1) by simp
      moreover have "take 2 (joined as @ ''::'' @ joined bs) = ''::''" "drop 2 (joined as @ ''::'' @ joined bs) = joined bs"
        using True by simp_all
      ultimately show ?thesis using p assms(1) True False unfolding parseIPv6_def by (simp add: length_gbytes)
    qed (use True p in \<open>simp add: parseIPv6_def\<close>)
  next
    case False
    have "hex_digit (hd (joined as @ ''::'' @ joined bs)) \<noteq> None" by (rule hd_joined [OF False])
    then have t: "take 2 (joined as @ ''::'' @ joined bs) \<noteq> ''::''" using take2_colons hd_not_colon by blast
    have "v6_loop 8 [] None (joined as @ ''::'' @ joined bs) = Some (concat (map gbytes as) @ concat (map gbytes bs), Some (2 * length as), [])"
    proof (cases "bs = []")
      case True
      then show ?thesis using v6_loop_joined_ellipsis [OF False ok(1), of 8 "[]" "[]"] assms(1) by simp
    next
      case bs: False
      then have "v6_loop (8 - length as) (concat (map gbytes as)) (Some (2 * length as)) (joined bs) =
          Some (concat (map gbytes as) @ concat (map gbytes bs), Some (2 * length as), [])"
        using assms(1) ok(2) by (intro v6_loop_joined) simp_all
      then show ?thesis using v6_loop_joined_ellipsis [OF False ok(1), of 8 "[]" "joined bs"] assms(1) bs by simp
    qed
    then show ?thesis using p t assms(1) unfolding parseIPv6_def by (simp add: length_gbytes algebra_simps)
  qed
qed

lemma parseIPv6_text6:
  assumes "length ip = 16"
  shows "parseIPv6 (text6 ip) = Some ip"
proof (cases "best_run (groups ip)")
  case None
  then show ?thesis using parseIPv6_whole [of "groups ip"] groups_bytes [OF assms] by (simp add: text6_def Let_def)
next
  case (Some ab)
  then obtain a b where ab: "best_run (groups ip) = Some (a, b)" by (cases ab) simp
  let ?gs = "groups ip"
  note r = split_run [OF ab groups_bytes(3) [OF assms]]
  have len: "length (take a ?gs) = a" "length (drop b ?gs) = 8 - b" using r groups_bytes(3) [OF assms] by simp_all
  have ok: "list_all (\<lambda>g. g < 65536) (take a ?gs @ drop b ?gs)"
    using groups_bytes(2) [OF assms] by (auto simp: list_all_iff dest: in_set_takeD in_set_dropD)
  have "parseIPv6 (text6 ip) = Some (concat (map gbytes (take a ?gs)) @ replicate (16 - 2 * (a + (8 - b))) 0 @ concat (map gbytes (drop b ?gs)))"
    using parseIPv6_run [OF _ ok] len r(2,3) by (simp add: text6_def ab Let_def)
  also have "16 - 2 * (a + (8 - b)) = 2 * (b - a)" using r(2,3) by arith
  also have "concat (map gbytes (take a ?gs)) @ replicate (2 * (b - a)) 0 @ concat (map gbytes (drop b ?gs)) = concat (map gbytes ?gs)"
    by (subst (3) r(1)) (simp only: map_append concat_append gbytes_zeros)
  finally show ?thesis using groups_bytes(1) [OF assms] by simp
qed

section \<open>Printed addresses are parsed back\<close>

lemma dropWhile_until: "\<forall>c \<in> set xs. P c \<Longrightarrow> \<not> P y \<Longrightarrow> dropWhile P (xs @ y # ys) = y # ys"
  by (induction xs) auto

lemma Join_Cons: "ss \<noteq> [] \<Longrightarrow> Join (s # ss) sep = s @ sep @ Join ss sep"
  by (cases ss) auto

lemma dec_text: "c \<in> set (dec n) \<Longrightarrow> dec_digit c \<noteq> None"
  using dec_digits [of n] by (simp add: list_all_iff)

lemma parseAddr_dotted: "length ip = 4 \<Longrightarrow> parseAddr (dotted ip) = Some (False, v4InV6Prefix @ ip)"
proof -
  assume ip: "length ip = 4"
  then obtain a t where a: "ip = a # t" "t \<noteq> []" by (cases ip; cases "tl ip") auto
  then have d: "dotted ip = dec (unat a) @ CHR ''.'' # dotted t" by (simp add: dotted_def Join_Cons)
  have "\<forall>c \<in> set (dec (unat a)). c \<noteq> CHR ''.'' \<and> c \<noteq> CHR '':'' \<and> c \<noteq> CHR ''%''" using dec_text by fastforce
  then have "dropWhile (\<lambda>c. c \<noteq> CHR ''.'' \<and> c \<noteq> CHR '':'' \<and> c \<noteq> CHR ''%'') (dotted ip) = CHR ''.'' # dotted t"
    unfolding d by (rule dropWhile_until) simp
  then show ?thesis using parseIPv4_dotted [OF ip] by (simp add: parseAddr_def)
qed

lemma text6_colon: "length ip = 16 \<Longrightarrow> \<exists>g t. text6 ip = g @ CHR '':'' # t \<and> (\<forall>c \<in> set g. hex_digit c \<noteq> None)"
proof -
  assume ip: "length ip = 16"
  have j: "\<exists>g t. joined gs @ CHR '':'' # u = g @ CHR '':'' # t \<and> (\<forall>c \<in> set g. hex_digit c \<noteq> None)" for gs u
  proof (cases gs)
    case (Cons g gs')
    have h: "\<forall>c \<in> set (hex g). hex_digit c \<noteq> None" using hex_digits [of g] by (simp add: list_all_iff)
    show ?thesis
    proof (cases "gs' = []")
      case True
      have "joined gs @ CHR '':'' # u = hex g @ CHR '':'' # u" by (simp add: Cons True)
      then show ?thesis using h by blast
    next
      case False
      have "joined gs @ CHR '':'' # u = hex g @ CHR '':'' # (joined gs' @ CHR '':'' # u)" unfolding Cons joined_Cons [OF False] by simp
      then show ?thesis using h by blast
    qed
  qed force
  show ?thesis
  proof (cases "best_run (groups ip)")
    case None
    obtain g gs where g: "groups ip = g # gs" "gs \<noteq> []" using groups_bytes(3) [OF ip] by (cases "groups ip"; cases "tl (groups ip)") auto
    have "text6 ip = hex g @ CHR '':'' # joined gs" using None unfolding text6_def Let_def by (simp only: g joined_Cons [OF g(2)] option.case)
    then show ?thesis using hex_digits [of g] by (auto simp: list_all_iff)
  next
    case (Some ab)
    then show ?thesis using j [of "take (fst ab) (groups ip)" "CHR '':'' # joined (drop (snd ab) (groups ip))"]
      by (cases ab) (simp add: text6_def Let_def)
  qed
qed

lemma parseAddr_text6: "length ip = 16 \<Longrightarrow> parseAddr (text6 ip) = Some (True, ip)"
proof -
  assume ip: "length ip = 16"
  obtain g t where g: "text6 ip = g @ CHR '':'' # t" "\<forall>c \<in> set g. hex_digit c \<noteq> None" using text6_colon [OF ip] by blast
  have "\<forall>c \<in> set g. c \<noteq> CHR ''.'' \<and> c \<noteq> CHR '':'' \<and> c \<noteq> CHR ''%''" using g(2) by fastforce
  then have "dropWhile (\<lambda>c. c \<noteq> CHR ''.'' \<and> c \<noteq> CHR '':'' \<and> c \<noteq> CHR ''%'') (text6 ip) = CHR '':'' # t"
    unfolding g(1) by (rule dropWhile_until) simp
  then show ?thesis using parseIPv6_text6 [OF ip] by (simp add: parseAddr_def)
qed

lemma dotted_text: "c \<in> set (dotted ip) \<Longrightarrow> dec_digit c \<noteq> None \<or> c = CHR ''.''"
proof (induction ip)
  case (Cons b ip)
  show ?case
  proof (cases "ip = []")
    case True then show ?thesis using Cons.prems dec_text by (fastforce simp: dotted_def)
  next
    case False
    then have "dotted (b # ip) = dec (unat b) @ ''.'' @ dotted ip" by (simp add: dotted_def Join_Cons)
    then show ?thesis using Cons dec_text by fastforce
  qed
qed (simp add: dotted_def)

lemma text6_text: "c \<in> set (text6 ip) \<Longrightarrow> hex_digit c \<noteq> None \<or> c = CHR '':''"
  using hex_text by (auto simp: text6_def Let_def split: option.splits)

text \<open>An address of either length is parsed back in its 16-byte form.\<close>

lemma ParseIP_String:
  assumes "length ip = 4 \<or> length ip = 16"
  shows "ParseIP (ip_String ip) = Some (case To4 ip of Some ip4 \<Rightarrow> v4InV6Prefix @ ip4 | None \<Rightarrow> ip)"
proof -
  have "ip \<noteq> []" using assms by auto
  then have s: "ip_String ip = (case To4 ip of Some ip4 \<Rightarrow> dotted ip4 | None \<Rightarrow> text6 ip)" using assms by (auto simp: ip_String_def)
  show ?thesis
  proof (cases "To4 ip")
    case None
    then have "length ip = 16" using assms by (auto simp: To4_def)
    then show ?thesis using s None by (simp add: ParseIP_def parseAddr_text6)
  next
    case (Some ip4)
    then show ?thesis using s To4_length [OF Some] by (simp add: ParseIP_def parseAddr_dotted)
  qed
qed

end
