(* ===== verification/Rtc_Config.thy ===== *)
theory Rtc_Config
  imports Net_Text
begin

text \<open>
  The configuration of a node, \<^verbatim>\<open>pkg/rtcconfig/config.go\<close>, and how it finds its address, from \<^verbatim>\<open>pkg/rtcconfig/ip.go\<close>.
  The interfaces of the host and the lookups of the external address are arguments: \<open>interfaces\<close> is the result of
  \<open>net.Interfaces\<close> and \<open>lookup v4 servers opts i\<close> that of the \<open>i\<close>-th call of \<open>GetExternalIP\<close> (\<open>GetExternalIPv4\<close> when
  \<open>v4\<close>). An error is a constructor; log lines are left out.
\<close>

section \<open>The configuration\<close>

record PortRange =
  pr_Start :: int
  pr_End :: int

record NodeIP =
  V4 :: string
  V6 :: string

text \<open>The two filters have the same fields.\<close>

record FilterConfig =
  Includes :: "string list"
  Excludes :: "string list"

type_synonym InterfacesConfig = FilterConfig
type_synonym IPsConfig = FilterConfig

record BatchIOConfig =
  BatchSize :: int
  MaxFlushInterval :: int

record RTCConfig =
  UDPPort :: PortRange
  TCPPort :: u32
  ICEPortRangeStart :: u32
  ICEPortRangeEnd :: u32
  UseStunPortAsICE :: bool
  conf_NodeIP :: NodeIP
  NodeIPAutoGenerated :: bool
  STUNServers :: "string list"
  UseExternalIP :: bool
  RequireIPv4 :: bool
  SkipExternalIPValidation :: bool
  ExternalIPRetries :: int
  ExternalIPRetryInterval :: int
  ExternalIPStunTimeout :: int
  ExternalIPValidationTimeout :: int
  AdvertiseInternalIP :: bool
  UseICELite :: bool
  Interfaces :: InterfacesConfig
  IPs :: IPsConfig
  EnableLoopbackCandidate :: bool
  UseMDNS :: bool
  ExternalIPOnly :: bool
  BatchIO :: BatchIOConfig
  SCTPMinCwnd :: int
  SCTPFastRtxWnd :: int
  SCTPCwndCAStep :: int
  HostAcceptanceMinWait :: int
  SrflxAcceptanceMinWait :: int
  PrflxAcceptanceMinWait :: int
  RelayAcceptanceMinWait :: int
  ForceTCP :: bool

definition DefaultStunServers :: "string list" where
  "DefaultStunServers = [''global.stun.twilio.com:3478'', ''stun.l.google.com:19302'', ''stun1.l.google.com:19302'']"

datatype 'e config_error =
    EndNotGreater int int | InvalidRange string | InvalidStartPort string | InvalidEndPort string | InvalidPort string
  | InvalidNodeIP string | InvalidIP string | MultipleIPv4 string string | MultipleIPv6 string string
  | NoLocalIP | NoIPv4 | NotResolved "'e option" | NetError 'e

section \<open>Port ranges\<close>

datatype yaml_value = YInt int | YString string

definition PortRange_MarshalYAML :: "PortRange \<Rightarrow> 'e config_error + yaml_value" where
  "PortRange_MarshalYAML r =
    (if pr_End r = 0 then Inr (YInt (pr_Start r))
     else if pr_End r \<le> pr_Start r then Inl (EndNotGreater (pr_End r) (pr_Start r))
     else Inr (YString (Itoa (pr_Start r) @ ''-'' @ Itoa (pr_End r))))"

text \<open>The error, if any, and the receiver afterwards.\<close>

definition PortRange_UnmarshalString :: "string \<Rightarrow> PortRange \<Rightarrow> 'e config_error option \<times> PortRange" where
  "PortRange_UnmarshalString str r =
    (if str = [] then (None, r)
     else if CHR ''-'' \<in> set str then
       let parts = Split str (CHR ''-'') in
       if length parts \<noteq> 2 then (Some (InvalidRange str), r)
       else case Atoi (Trim (parts ! 0) (CHR '' '')) of
           None \<Rightarrow> (Some (InvalidStartPort (parts ! 0)), r)
         | Some start \<Rightarrow> (case Atoi (Trim (parts ! 1) (CHR '' '')) of
               None \<Rightarrow> (Some (InvalidEndPort (parts ! 1)), r)
             | Some end' \<Rightarrow>
                 if end' \<le> start then (Some (EndNotGreater end' start), r)
                 else (None, r\<lparr>pr_Start := start, pr_End := end'\<rparr>))
     else case Atoi str of
         None \<Rightarrow> (Some (InvalidPort str), r)
       | Some port \<Rightarrow> (None, r\<lparr>pr_Start := port\<rparr>))"

text \<open>A YAML node is its text.\<close>

definition PortRange_UnmarshalYAML :: "string \<Rightarrow> PortRange \<Rightarrow> 'e config_error option \<times> PortRange" where
  "PortRange_UnmarshalYAML node r = PortRange_UnmarshalString node r"

text \<open>The width of a range is taken to fit an \<open>int\<close>.\<close>

definition ToSlice :: "PortRange \<Rightarrow> int list" where
  "ToSlice r = (if pr_End r = 0 \<or> pr_End r \<le> pr_Start r then [pr_Start r] else [pr_Start r..pr_End r])"

definition Valid :: "PortRange \<Rightarrow> bool" where
  "Valid r \<longleftrightarrow> pr_Start r \<noteq> 0"

section \<open>Node addresses\<close>

definition NodeIP_MarshalYAML :: "NodeIP \<Rightarrow> string" where
  "NodeIP_MarshalYAML n =
    (if V4 n \<noteq> [] \<and> V6 n \<noteq> [] then V4 n @ '','' @ V6 n else if V4 n \<noteq> [] then V4 n else V6 n)"

fun unmarshal_parts :: "string list \<Rightarrow> NodeIP \<Rightarrow> 'e config_error option \<times> NodeIP" where
  "unmarshal_parts [] n = (None, n)"
| "unmarshal_parts (part # parts) n =
    (case ParseIP (Trim part (CHR '' '')) of
       None \<Rightarrow> (Some (InvalidIP part), n)
     | Some ip \<Rightarrow>
         if To4 ip \<noteq> None then
           if V4 n \<noteq> [] then (Some (MultipleIPv4 (V4 n) (ip_String ip)), n)
           else unmarshal_parts parts (n\<lparr>V4 := ip_String ip\<rparr>)
         else
           if V6 n \<noteq> [] then (Some (MultipleIPv6 (V6 n) (ip_String ip)), n)
           else unmarshal_parts parts (n\<lparr>V6 := ip_String ip\<rparr>))"

definition NodeIP_UnmarshalString :: "string \<Rightarrow> NodeIP \<Rightarrow> 'e config_error option \<times> NodeIP" where
  "NodeIP_UnmarshalString str n =
    (if str = [] then (None, n)
     else let parts = Split str (CHR '','') in
       if length parts > 2 then (Some (InvalidNodeIP str), n) else unmarshal_parts parts n)"

definition NodeIP_UnmarshalYAML :: "string \<Rightarrow> NodeIP \<Rightarrow> 'e config_error option \<times> NodeIP" where
  "NodeIP_UnmarshalYAML node n = NodeIP_UnmarshalString node n"

definition IsEmpty :: "NodeIP \<Rightarrow> bool" where
  "IsEmpty n \<longleftrightarrow> V4 n = [] \<and> V6 n = []"

definition ToStringSlice :: "NodeIP \<Rightarrow> string list" where
  "ToStringSlice n = (if V4 n \<noteq> [] then [V4 n] else []) @ (if V6 n \<noteq> [] then [V6 n] else [])"

definition PrimaryIP :: "NodeIP \<Rightarrow> string" where
  "PrimaryIP n = (if V4 n \<noteq> [] then V4 n else V6 n)"

section \<open>Local addresses\<close>

text \<open>The loops over the addresses of an interface and over the interfaces; the pair is the loopback addresses and
  the others so far.\<close>

fun local_addrs :: "bool \<Rightarrow> (IP \<Rightarrow> bool) option \<Rightarrow> net_addr list \<Rightarrow> string list \<times> string list \<Rightarrow> string list \<times> string list" where
  "local_addrs includeV6 ipFilter [] (loopBacks, addresses) = (loopBacks, addresses)"
| "local_addrs includeV6 ipFilter (OtherAddr # addrs) (loopBacks, addresses) = local_addrs includeV6 ipFilter addrs (loopBacks, addresses)"
| "local_addrs includeV6 ipFilter (addr # addrs) (loopBacks, addresses) =
    (let typed = (case addr of IPNet ip \<Rightarrow> ip | IPAddr ip \<Rightarrow> ip | OtherAddr \<Rightarrow> []);
         ip = (if includeV6 then typed else case To4 typed of Some ip4 \<Rightarrow> ip4 | None \<Rightarrow> [])
     in local_addrs includeV6 ipFilter addrs
       (if ip = [] \<or> IsLinkLocalUnicast ip \<or> IsLinkLocalMulticast ip \<or> (case ipFilter of Some f \<Rightarrow> \<not> f ip | None \<Rightarrow> False)
        then (loopBacks, addresses)
        else if IsLoopback ip then (loopBacks @ [ip_String ip], addresses)
        else (loopBacks, addresses @ [ip_String ip])))"

fun local_ifaces :: "bool \<Rightarrow> (string \<Rightarrow> bool) option \<Rightarrow> (IP \<Rightarrow> bool) option \<Rightarrow> 'e iface list \<Rightarrow> string list \<times> string list \<Rightarrow> string list \<times> string list" where
  "local_ifaces includeV6 ifFilter ipFilter [] acc = acc"
| "local_ifaces includeV6 ifFilter ipFilter (i # ifaces) acc =
    local_ifaces includeV6 ifFilter ipFilter ifaces
      (if (case ifFilter of Some f \<Rightarrow> \<not> f (if_Name i) | None \<Rightarrow> False) then acc
       else case if_Addrs i of Inl err \<Rightarrow> acc | Inr addrs \<Rightarrow> local_addrs includeV6 ipFilter addrs acc)"

definition GetLocalIPAddresses ::
  "'e + 'e iface list \<Rightarrow> bool \<Rightarrow> bool \<Rightarrow> (string \<Rightarrow> bool) option \<Rightarrow> (IP \<Rightarrow> bool) option \<Rightarrow> 'e config_error + string list" where
  "GetLocalIPAddresses interfaces includeLoopback includeV6 ifFilter ipFilter =
    (case interfaces of
       Inl err \<Rightarrow> Inl (NetError err)
     | Inr ifaces \<Rightarrow>
         let (loopBacks, addresses) = local_ifaces includeV6 ifFilter ipFilter ifaces ([], []);
             addresses = (if includeLoopback then addresses @ loopBacks else addresses)
         in if length addresses > 0 then Inr addresses
            else if length loopBacks > 0 then Inr loopBacks
            else Inl NoLocalIP)"

section \<open>The address of the node\<close>

record externalIPOptions =
  stunPingTimeout :: int
  validationTimeout :: int

definition defaultExternalIPOptions :: externalIPOptions where
  "defaultExternalIPOptions = \<lparr>stunPingTimeout = 5 * 1000000000, validationTimeout = 5 * 1000000000\<rparr>"

definition externalIPRetries :: int where "externalIPRetries = 3"
definition externalIPRetryInterval :: int where "externalIPRetryInterval = 500 * 1000000"

definition WithStunPingTimeout :: "int \<Rightarrow> externalIPOptions \<Rightarrow> externalIPOptions" where
  "WithStunPingTimeout d opts = (if d > 0 then opts\<lparr>stunPingTimeout := d\<rparr> else opts)"

definition WithValidationTimeout :: "int \<Rightarrow> externalIPOptions \<Rightarrow> externalIPOptions" where
  "WithValidationTimeout d opts = (if d > 0 then opts\<lparr>validationTimeout := d\<rparr> else opts)"

definition resolveExternalIPOptions :: "(externalIPOptions \<Rightarrow> externalIPOptions) list \<Rightarrow> externalIPOptions" where
  "resolveExternalIPOptions opts = fold (\<lambda>opt. opt) opts defaultExternalIPOptions"

definition lookupTimeout :: "externalIPOptions \<Rightarrow> bool \<Rightarrow> int" where
  "lookupTimeout opts validate =
    (if validate then wrap64 (stunPingTimeout opts + validationTimeout opts) else stunPingTimeout opts)"

type_synonym 'e ip_lookup = "bool \<Rightarrow> string list \<Rightarrow> (externalIPOptions \<Rightarrow> externalIPOptions) list \<Rightarrow> nat \<Rightarrow> 'e + string"

text \<open>The tries from the \<open>i\<close>-th on, \<open>left\<close> of them, after the error \<open>err\<close>; the second result is the time slept.\<close>

fun tries_loop :: "(nat \<Rightarrow> 'e + string) \<Rightarrow> int \<Rightarrow> nat \<Rightarrow> nat \<Rightarrow> 'e option \<Rightarrow> int \<Rightarrow> ('e option + string) \<times> int" where
  "tries_loop getIP interval i 0 err slept = (Inl err, slept)"
| "tries_loop getIP interval i (Suc left) err slept =
    (case getIP i of
       Inr ip \<Rightarrow> (Inr ip, slept)
     | Inl e \<Rightarrow> tries_loop getIP interval (Suc i) left (Some e) (slept + interval))"

fun first_ipv4 :: "string list \<Rightarrow> string option" where
  "first_ipv4 [] = None"
| "first_ipv4 (addr # addrs) =
    (case ParseIP addr of
       Some ip \<Rightarrow> if To4 ip \<noteq> None then Some addr else first_ipv4 addrs
     | None \<Rightarrow> first_ipv4 addrs)"

definition determineIP :: "'e + 'e iface list \<Rightarrow> 'e ip_lookup \<Rightarrow> RTCConfig \<Rightarrow> 'e config_error + string" where
  "determineIP interfaces lookup conf =
    (if UseExternalIP conf then
       let stunServers = (if length (STUNServers conf) = 0 then DefaultStunServers else STUNServers conf);
           tries = (if ExternalIPRetries conf \<le> 0 then externalIPRetries else ExternalIPRetries conf);
           intvl = (if ExternalIPRetryInterval conf \<le> 0 then externalIPRetryInterval else ExternalIPRetryInterval conf);
           opts = [WithStunPingTimeout (ExternalIPStunTimeout conf), WithValidationTimeout (ExternalIPValidationTimeout conf)]
       in case fst (tries_loop (lookup (RequireIPv4 conf) stunServers opts) intvl 0 (nat tries) None 0) of
            Inr ip \<Rightarrow> Inr ip
          | Inl err \<Rightarrow> Inl (NotResolved err)
     else
       let found = GetLocalIPAddresses interfaces False True None None;
           addresses = (case found of Inr as \<Rightarrow> as | Inl _ \<Rightarrow> [])
       in case first_ipv4 addresses of
            Some addr \<Rightarrow> Inr addr
          | None \<Rightarrow>
              if RequireIPv4 conf then Inl NoIPv4
              else (case addresses of addr # _ \<Rightarrow> Inr addr | [] \<Rightarrow> (case found of Inl err \<Rightarrow> Inl err | Inr _ \<Rightarrow> Inr [])))"

definition resolveNodeIP :: "'e + 'e iface list \<Rightarrow> 'e ip_lookup \<Rightarrow> RTCConfig \<Rightarrow> 'e config_error option \<times> RTCConfig" where
  "resolveNodeIP interfaces lookup conf =
    (case determineIP interfaces lookup conf of
       Inl err \<Rightarrow> (Some err, conf)
     | Inr ipAddr \<Rightarrow>
         let n = conf_NodeIP conf;
             n = (if (case ParseIP ipAddr of Some ip \<Rightarrow> To4 ip \<noteq> None | None \<Rightarrow> False)
               then n\<lparr>V4 := ipAddr\<rparr> else n\<lparr>V6 := ipAddr\<rparr>)
         in (None, conf\<lparr>conf_NodeIP := n, NodeIPAutoGenerated := True\<rparr>))"

definition ReloadExternalIP :: "'e + 'e iface list \<Rightarrow> 'e ip_lookup \<Rightarrow> RTCConfig \<Rightarrow> 'e config_error option \<times> RTCConfig" where
  "ReloadExternalIP interfaces lookup conf =
    resolveNodeIP interfaces lookup (conf\<lparr>conf_NodeIP := \<lparr>V4 = [], V6 = []\<rparr>, NodeIPAutoGenerated := False\<rparr>)"

definition Validate :: "'e + 'e iface list \<Rightarrow> 'e ip_lookup \<Rightarrow> bool \<Rightarrow> RTCConfig \<Rightarrow> 'e config_error option \<times> RTCConfig" where
  "Validate interfaces lookup development conf =
    (let conf = (if \<not> Valid (UDPPort conf) \<and> ICEPortRangeStart conf = 0 then
           if development then conf\<lparr>UDPPort := \<lparr>pr_Start = 7882, pr_End = 0\<rparr>\<rparr>
           else conf\<lparr>ICEPortRangeStart := 50000, ICEPortRangeEnd := 60000\<rparr>
         else conf)
     in if IsEmpty (conf_NodeIP conf) \<or> UseExternalIP conf then resolveNodeIP interfaces lookup conf else (None, conf))"


section \<open>Reading back what was written\<close>

lemma Split_two: "sep \<notin> set s \<Longrightarrow> sep \<notin> set t \<Longrightarrow> Split (s @ sep # t) sep = [s, t]"
  by (simp add: Split_append Split_none)

lemma Itoa_chars: "0 \<le> i \<Longrightarrow> dec_digit c = None \<Longrightarrow> c \<notin> set (Itoa i)"
  using not_in_dec by (simp add: Itoa_def)

lemma Itoa_nonempty [simp]: "Itoa i \<noteq> []"
  by (simp add: Itoa_def)

text \<open>
  A port range that can be written, a single port or an increasing range, is read back from the text of its YAML node;
  a range that is not increasing is the only one refused. (A YAML node of an \<open>int\<close> has its decimal text, that of a
  string the string.)
\<close>

theorem port_range_round_trip:
  assumes "\<And>i. node_text (YInt i) = Itoa i" "\<And>s. node_text (YString s) = s"
    and "0 \<le> pr_Start r" "pr_Start r < 2 ^ 63" "pr_End r < 2 ^ 63"
  shows "(if pr_End r = 0 \<or> pr_Start r < pr_End r
    then \<exists>y. PortRange_MarshalYAML r = (Inr y :: 'e config_error + yaml_value) \<and>
      PortRange_UnmarshalString (node_text y) \<lparr>pr_Start = 0, pr_End = 0\<rparr> = (None :: 'e config_error option, r)
    else PortRange_MarshalYAML r = Inl (EndNotGreater (pr_End r) (pr_Start r)))"
proof -
  have s: "Atoi (Itoa (pr_Start r)) = Some (pr_Start r)" using assms by (intro Atoi_Itoa)
  have nd: "CHR ''-'' \<notin> set (Itoa i)" "Trim (Itoa i) (CHR '' '') = Itoa i" if "0 \<le> i" for i
    using Itoa_chars [OF that] by (simp_all add: Trim_absent)
  have "PortRange_UnmarshalString (Itoa (pr_Start r) @ CHR ''-'' # Itoa (pr_End r)) \<lparr>pr_Start = 0, pr_End = 0\<rparr> = (None, r)"
    if "pr_Start r < pr_End r"
  proof -
    have e: "Atoi (Itoa (pr_End r)) = Some (pr_End r)" using that assms by (intro Atoi_Itoa) simp_all
    have "Split (Itoa (pr_Start r) @ CHR ''-'' # Itoa (pr_End r)) (CHR ''-'') = [Itoa (pr_Start r), Itoa (pr_End r)]"
      using nd that assms by (intro Split_two) simp_all
    then show ?thesis using that assms nd s e by (simp add: PortRange_UnmarshalString_def Let_def)
  qed
  moreover have "PortRange_UnmarshalString (Itoa (pr_Start r)) \<lparr>pr_Start = 0, pr_End = 0\<rparr> = (None, r)" if "pr_End r = 0"
    using that nd [OF assms(3)] s by (simp add: PortRange_UnmarshalString_def)
  ultimately show ?thesis by (auto simp: PortRange_MarshalYAML_def assms(1,2))
qed

theorem port_range_round_trip_witness:
  "PortRange_MarshalYAML \<lparr>pr_Start = 7882, pr_End = 7892\<rparr> = (Inr (YString ''7882-7892'') :: unit config_error + yaml_value) \<and>
   PortRange_UnmarshalString ''7882-7892'' \<lparr>pr_Start = 0, pr_End = 0\<rparr> = (None :: unit config_error option, \<lparr>pr_Start = 7882, pr_End = 7892\<rparr>)"
proof -
  define text_of where "text_of = (\<lambda>y. case y of YInt i \<Rightarrow> Itoa i | YString s \<Rightarrow> s)"
  have m: "PortRange_MarshalYAML \<lparr>pr_Start = 7882, pr_End = 7892\<rparr> = (Inr (YString ''7882-7892'') :: unit config_error + yaml_value)"
    by (simp add: PortRange_MarshalYAML_def Itoa_def dec.simps digit_char_def) code_simp
  have "\<exists>y. PortRange_MarshalYAML \<lparr>pr_Start = 7882, pr_End = 7892\<rparr> = (Inr y :: unit config_error + yaml_value) \<and>
      PortRange_UnmarshalString (text_of y) \<lparr>pr_Start = 0, pr_End = 0\<rparr> = (None :: unit config_error option, \<lparr>pr_Start = 7882, pr_End = 7892\<rparr>)"
    using port_range_round_trip [of text_of "\<lparr>pr_Start = 7882, pr_End = 7892\<rparr>"] by (simp add: text_of_def)
  then show ?thesis using m by (auto simp: text_of_def)
qed

lemma String_v4: "length ip = 4 \<Longrightarrow> ip_String ip = dotted ip" "length ip = 4 \<Longrightarrow> ip_String (v4InV6Prefix @ ip) = dotted ip"
  by (auto simp: ip_String_def To4_def v4InV6Prefix_def)

lemma String_v6: "length ip = 16 \<Longrightarrow> To4 ip = None \<Longrightarrow> ip_String ip = text6 ip"
  by (auto simp: ip_String_def)

lemma String_chars: "length ip = 4 \<or> length ip = 16 \<Longrightarrow> c \<in> set (ip_String ip) \<Longrightarrow> hex_digit c \<noteq> None \<or> dec_digit c \<noteq> None \<or> c = CHR '':'' \<or> c = CHR ''.''"
  using dotted_text text6_text by (fastforce simp: ip_String_def split: option.splits if_splits)

lemma String_nonempty: "length ip = 4 \<or> length ip = 16 \<Longrightarrow> ip_String ip \<noteq> []"
proof -
  assume "length ip = 4 \<or> length ip = 16"
  from ParseIP_String [OF this] show ?thesis by (auto simp: ParseIP_def parseAddr_def)
qed

text \<open>Addresses as the loop of \<open>UnmarshalString\<close> stores them.\<close>

definition v4_text :: "string \<Rightarrow> bool" where
  "v4_text s \<longleftrightarrow> (\<exists>ip. length ip = 4 \<and> s = ip_String ip)"

definition v6_text :: "string \<Rightarrow> bool" where
  "v6_text s \<longleftrightarrow> (\<exists>ip. length ip = 16 \<and> To4 ip = None \<and> s = ip_String ip)"

lemma part_v4:
  assumes "v4_text s"
  shows "s \<noteq> []" "CHR '','' \<notin> set s"
    "unmarshal_parts (s # parts) n = (if V4 n \<noteq> [] then (Some (MultipleIPv4 (V4 n) s), n) else unmarshal_parts parts (n\<lparr>V4 := s\<rparr>))"
proof -
  obtain ip where ip: "length ip = 4" "s = ip_String ip" using assms by (auto simp: v4_text_def)
  show "s \<noteq> []" "CHR '','' \<notin> set s" using ip String_nonempty String_chars [of ip "CHR '',''"] by auto
  have t: "Trim s (CHR '' '') = s" using ip String_chars [of ip "CHR '' ''"] by (intro Trim_absent) auto
  have "ParseIP s = Some (v4InV6Prefix @ ip)" using ip ParseIP_String [of ip] by (simp add: To4_def)
  moreover have "To4 (v4InV6Prefix @ ip) = Some ip" using ip by (simp add: To4_def v4InV6Prefix_def)
  ultimately show "unmarshal_parts (s # parts) n = (if V4 n \<noteq> [] then (Some (MultipleIPv4 (V4 n) s), n) else unmarshal_parts parts (n\<lparr>V4 := s\<rparr>))"
    using t ip String_v4 by simp
qed

lemma part_v6:
  assumes "v6_text s"
  shows "s \<noteq> []" "CHR '','' \<notin> set s"
    "unmarshal_parts (s # parts) n = (if V6 n \<noteq> [] then (Some (MultipleIPv6 (V6 n) s), n) else unmarshal_parts parts (n\<lparr>V6 := s\<rparr>))"
proof -
  obtain ip where ip: "length ip = 16" "To4 ip = None" "s = ip_String ip" using assms by (auto simp: v6_text_def)
  show "s \<noteq> []" "CHR '','' \<notin> set s" using ip String_nonempty String_chars [of ip "CHR '',''"] by auto
  have t: "Trim s (CHR '' '') = s" using ip String_chars [of ip "CHR '' ''"] by (intro Trim_absent) auto
  have "ParseIP s = Some ip" using ip ParseIP_String [of ip] by simp
  then show "unmarshal_parts (s # parts) n = (if V6 n \<noteq> [] then (Some (MultipleIPv6 (V6 n) s), n) else unmarshal_parts parts (n\<lparr>V6 := s\<rparr>))"
    using t ip by simp
qed

text \<open>
  Node addresses are read back from what they are written as, an IPv4 and an IPv6 address in either order, each in the
  form Go prints it. Two addresses of one family are refused, and the first of them kept.
\<close>

theorem node_ip_round_trip:
  assumes "V4 n = [] \<or> v4_text (V4 n)" "V6 n = [] \<or> v6_text (V6 n)"
  shows "NodeIP_UnmarshalString (NodeIP_MarshalYAML n) \<lparr>V4 = [], V6 = []\<rparr> = (None :: 'e config_error option, n) \<and>
    (V4 n \<noteq> [] \<and> V6 n \<noteq> [] \<longrightarrow> NodeIP_UnmarshalString (V6 n @ '','' @ V4 n) \<lparr>V4 = [], V6 = []\<rparr> = (None :: 'e config_error option, n)) \<and>
    (V4 n \<noteq> [] \<and> v4_text s \<longrightarrow> NodeIP_UnmarshalString (V4 n @ '','' @ s) \<lparr>V4 = [], V6 = []\<rparr> =
       (Some (MultipleIPv4 (V4 n) s) :: 'e config_error option, \<lparr>V4 = V4 n, V6 = []\<rparr>)) \<and>
    (V6 n \<noteq> [] \<and> v6_text s \<longrightarrow> NodeIP_UnmarshalString (V6 n @ '','' @ s) \<lparr>V4 = [], V6 = []\<rparr> =
       (Some (MultipleIPv6 (V6 n) s) :: 'e config_error option, \<lparr>V4 = [], V6 = V6 n\<rparr>))"
proof (intro conjI impI)
  have one: "NodeIP_UnmarshalString (u @ CHR '','' # w) n0 = unmarshal_parts [u, w] n0" if "v4_text u \<or> v6_text u" "v4_text w \<or> v6_text w" for u w n0
  proof -
    have "u \<noteq> []" "CHR '','' \<notin> set u" "CHR '','' \<notin> set w" using that part_v4(1,2) part_v6(1,2) by blast+
    then show ?thesis by (simp add: NodeIP_UnmarshalString_def Split_two Let_def del: unmarshal_parts.simps(2))
  qed
  have single: "NodeIP_UnmarshalString u n0 = unmarshal_parts [u] n0" if "v4_text u \<or> v6_text u" for u n0
  proof -
    have "u \<noteq> []" "CHR '','' \<notin> set u" using that part_v4(1,2) part_v6(1,2) by blast+
    then show ?thesis by (simp add: NodeIP_UnmarshalString_def Split_none Let_def del: unmarshal_parts.simps(2))
  qed
  consider "V4 n = []" "V6 n = []" | "v4_text (V4 n)" "V6 n = []" | "V4 n = []" "v6_text (V6 n)" | "v4_text (V4 n)" "v6_text (V6 n)"
    using assms by blast
  then show "NodeIP_UnmarshalString (NodeIP_MarshalYAML n) \<lparr>V4 = [], V6 = []\<rparr> = (None, n)"
  proof cases
    case 1 then show ?thesis by (simp add: NodeIP_UnmarshalString_def NodeIP_MarshalYAML_def)
  next
    case 2 then show ?thesis
      by (simp add: NodeIP_MarshalYAML_def single part_v4(1,3) del: unmarshal_parts.simps(2))
  next
    case 3 then show ?thesis
      by (simp add: NodeIP_MarshalYAML_def single part_v6(1,3) del: unmarshal_parts.simps(2))
  next
    case 4
    then show ?thesis by (simp add: NodeIP_MarshalYAML_def one part_v4(1,3) part_v6(1,3) del: unmarshal_parts.simps(2))
  qed
  show "NodeIP_UnmarshalString (V6 n @ '','' @ V4 n) \<lparr>V4 = [], V6 = []\<rparr> = (None, n)" if "V4 n \<noteq> [] \<and> V6 n \<noteq> []"
  proof -
    have t: "v4_text (V4 n)" "v6_text (V6 n)" using assms that by blast+
    show ?thesis using t by (simp add: one part_v4(3) part_v6(3) del: unmarshal_parts.simps(2))
  qed
  show "NodeIP_UnmarshalString (V4 n @ '','' @ s) \<lparr>V4 = [], V6 = []\<rparr> = (Some (MultipleIPv4 (V4 n) s), \<lparr>V4 = V4 n, V6 = []\<rparr>)"
    if "V4 n \<noteq> [] \<and> v4_text s"
  proof -
    have t: "v4_text (V4 n)" "v4_text s" using assms(1) that by blast+
    show ?thesis using t that by (simp add: one part_v4(3) del: unmarshal_parts.simps(2))
  qed
  show "NodeIP_UnmarshalString (V6 n @ '','' @ s) \<lparr>V4 = [], V6 = []\<rparr> = (Some (MultipleIPv6 (V6 n) s), \<lparr>V4 = [], V6 = V6 n\<rparr>)"
    if "V6 n \<noteq> [] \<and> v6_text s"
  proof -
    have t: "v6_text (V6 n)" "v6_text s" using assms(2) that by blast+
    show ?thesis using t that by (simp add: one part_v6(3) del: unmarshal_parts.simps(2))
  qed
qed

theorem node_ip_round_trip_witness:
  "NodeIP_UnmarshalString ''10.0.0.1,::1'' \<lparr>V4 = [], V6 = []\<rparr> = (None :: unit config_error option, \<lparr>V4 = ''10.0.0.1'', V6 = ''::1''\<rparr>) \<and>
   NodeIP_UnmarshalString ''::1,10.0.0.1'' \<lparr>V4 = [], V6 = []\<rparr> = (None :: unit config_error option, \<lparr>V4 = ''10.0.0.1'', V6 = ''::1''\<rparr>) \<and>
   NodeIP_UnmarshalString ''10.0.0.1,10.0.0.2'' \<lparr>V4 = [], V6 = []\<rparr> =
     (Some (MultipleIPv4 ''10.0.0.1'' ''10.0.0.2'') :: unit config_error option, \<lparr>V4 = ''10.0.0.1'', V6 = []\<rparr>)"
proof -
  have t: "v4_text ''10.0.0.1''" "v4_text ''10.0.0.2''" "v6_text ''::1''"
    unfolding v4_text_def v6_text_def
    by (rule exI [of _ "[10, 0, 0, 1]"], code_simp)
      (rule exI [of _ "[10, 0, 0, 2]"], code_simp,
       rule exI [of _ "replicate 15 0 @ [1]"], code_simp)
  show ?thesis using t node_ip_round_trip [where 'e = unit, of "\<lparr>V4 = ''10.0.0.1'', V6 = ''::1''\<rparr>" "''10.0.0.2''"]
    by (simp add: NodeIP_MarshalYAML_def)
qed


section \<open>The addresses of the host\<close>

definition addr_ips :: "net_addr \<Rightarrow> IP list" where
  "addr_ips a = (case a of IPNet ip \<Rightarrow> [ip] | IPAddr ip \<Rightarrow> [ip] | OtherAddr \<Rightarrow> [])"

definition family_view :: "bool \<Rightarrow> IP \<Rightarrow> IP" where
  "family_view includeV6 ip = (if includeV6 then ip else case To4 ip of Some ip4 \<Rightarrow> ip4 | None \<Rightarrow> [])"

definition usable_ip :: "(IP \<Rightarrow> bool) option \<Rightarrow> IP \<Rightarrow> bool" where
  "usable_ip ipFilter ip \<longleftrightarrow> ip \<noteq> [] \<and> \<not> IsLinkLocalUnicast ip \<and> \<not> IsLinkLocalMulticast ip \<and> (case ipFilter of Some f \<Rightarrow> f ip | None \<Rightarrow> True)"

definition usable_ips :: "bool \<Rightarrow> (string \<Rightarrow> bool) option \<Rightarrow> (IP \<Rightarrow> bool) option \<Rightarrow> 'e iface list \<Rightarrow> IP list" where
  "usable_ips includeV6 ifFilter ipFilter ifaces =
    filter (usable_ip ipFilter) (map (family_view includeV6) (concat (map addr_ips (concat
      (map (\<lambda>i. case if_Addrs i of Inl _ \<Rightarrow> [] | Inr addrs \<Rightarrow> addrs)
        (filter (\<lambda>i. case ifFilter of Some f \<Rightarrow> f (if_Name i) | None \<Rightarrow> True) ifaces))))))"

definition texts :: "bool \<Rightarrow> IP list \<Rightarrow> string list" where
  "texts loop ips = map ip_String (filter (\<lambda>ip. IsLoopback ip = loop) ips)"

lemma texts_simps [simp]: "texts b [] = []" "texts b (ip # ips) = (if IsLoopback ip = b then [ip_String ip] else []) @ texts b ips"
  "texts b (ips @ ips') = texts b ips @ texts b ips'"
  by (simp_all add: texts_def)

definition addrs_ips :: "bool \<Rightarrow> (IP \<Rightarrow> bool) option \<Rightarrow> net_addr list \<Rightarrow> IP list" where
  "addrs_ips includeV6 ipFilter addrs = filter (usable_ip ipFilter) (map (family_view includeV6) (concat (map addr_ips addrs)))"

lemma addrs_ips_simps [simp]:
  "addrs_ips v f [] = []"
  "addrs_ips v f (OtherAddr # addrs) = addrs_ips v f addrs"
  "addrs_ips v f (IPNet ip # addrs) = (if usable_ip f (family_view v ip) then [family_view v ip] else []) @ addrs_ips v f addrs"
  "addrs_ips v f (IPAddr ip # addrs) = (if usable_ip f (family_view v ip) then [family_view v ip] else []) @ addrs_ips v f addrs"
  by (simp_all add: addrs_ips_def addr_ips_def)

lemma usable_ips_simps [simp]:
  "usable_ips v ff f [] = []"
  "usable_ips v ff f (i # ifaces) =
    (if (case ff of Some g \<Rightarrow> \<not> g (if_Name i) | None \<Rightarrow> False) then [] else case if_Addrs i of Inl _ \<Rightarrow> [] | Inr addrs \<Rightarrow> addrs_ips v f addrs) @
    usable_ips v ff f ifaces"
  by (simp_all add: usable_ips_def addrs_ips_def split: option.split sum.split)

lemma local_addrs_texts:
  "local_addrs v f addrs (l, a) = (l @ texts True (addrs_ips v f addrs), a @ texts False (addrs_ips v f addrs))"
proof (induction addrs arbitrary: l a)
  case (Cons addr addrs)
  have u: "(ip = [] \<or> IsLinkLocalUnicast ip \<or> IsLinkLocalMulticast ip \<or> (case f of Some g \<Rightarrow> \<not> g ip | None \<Rightarrow> False)) \<longleftrightarrow> \<not> usable_ip f ip" for ip
    by (cases f) (auto simp: usable_ip_def)
  have v: "(if v then ip else case To4 ip of Some ip4 \<Rightarrow> ip4 | None \<Rightarrow> []) = family_view v ip" for ip
    by (simp add: family_view_def)
  show ?case
    by (cases addr) (simp_all only: local_addrs.simps net_addr.case Let_def v u, simp_all add: Cons)
qed simp

lemma local_ifaces_texts:
  "local_ifaces v ff f ifaces (l, a) = (l @ texts True (usable_ips v ff f ifaces), a @ texts False (usable_ips v ff f ifaces))"
proof (induction ifaces arbitrary: l a ff)
  case (Cons i ifaces)
  show ?case by (cases "if_Addrs i"; cases ff) (simp_all add: local_addrs_texts Cons)
qed simp

text \<open>
  The local addresses: those of the interfaces the filter names, in order, of the families asked for, that are neither
  link-local nor filtered out. Loopback addresses come last if asked for, and alone if there is no other; with none at all
  there is an error.
\<close>

theorem local_addresses:
  "GetLocalIPAddresses (Inr ifaces) includeLoopback includeV6 ifFilter ipFilter =
    (let us = usable_ips includeV6 ifFilter ipFilter ifaces; loopbacks = texts True us; others = texts False us
     in if others \<noteq> [] then Inr (others @ (if includeLoopback then loopbacks else []))
        else if loopbacks \<noteq> [] then Inr loopbacks else Inl NoLocalIP)"
  by (auto simp: GetLocalIPAddresses_def local_ifaces_texts Let_def)

section \<open>The address of the node\<close>

lemma first_ipv4_texts:
  "\<forall>ip \<in> set ips. length ip = 4 \<or> length ip = 16 \<Longrightarrow>
    first_ipv4 (map ip_String ips) = map_option ip_String (find (\<lambda>ip. To4 ip \<noteq> None) ips)"
proof (induction ips)
  case (Cons ip ips)
  then show ?case using ParseIP_String [of ip] by (auto simp: To4_def v4InV6Prefix_def split: option.splits)
qed simp

lemma find_None: "find P xs = None \<longleftrightarrow> (\<forall>x \<in> set xs. \<not> P x)"
  by (induction xs) auto

lemma find_Some: "find P xs = Some x \<Longrightarrow> x \<in> set xs \<and> P x"
  by (induction xs) (auto split: if_splits)

lemma parsed_family: "length ip = 4 \<or> length ip = 16 \<Longrightarrow>
  (case ParseIP (ip_String ip) of Some p \<Rightarrow> To4 p \<noteq> None | None \<Rightarrow> False) \<longleftrightarrow> To4 ip \<noteq> None"
  using ParseIP_String [of ip] by (auto simp: To4_def v4InV6Prefix_def split: option.splits)

definition candidate_ips :: "'e iface list \<Rightarrow> IP list" where
  "candidate_ips ifaces =
    (let us = usable_ips True None None ifaces; others = filter (\<lambda>ip. \<not> IsLoopback ip) us in if others \<noteq> [] then others else us)"

lemma local_candidates:
  "GetLocalIPAddresses (Inr ifaces) False True None None =
    (if candidate_ips ifaces = [] then Inl NoLocalIP else Inr (map ip_String (candidate_ips ifaces)))"
proof -
  have "filter (\<lambda>ip. \<not> IsLoopback ip) us = [] \<Longrightarrow> filter IsLoopback us = us" for us
    by (induction us) (auto split: if_splits)
  then show ?thesis by (auto simp: GetLocalIPAddresses_def local_ifaces_texts candidate_ips_def texts_def Let_def)
qed

lemma determine_local:
  assumes "\<not> UseExternalIP conf" "\<forall>ip \<in> set (candidate_ips ifaces). length ip = 4 \<or> length ip = 16"
  shows "determineIP (Inr ifaces) lookup conf =
    (case find (\<lambda>ip. To4 ip \<noteq> None) (candidate_ips ifaces) of
       Some ip \<Rightarrow> Inr (ip_String ip)
     | None \<Rightarrow> if RequireIPv4 conf then Inl NoIPv4
         else (case candidate_ips ifaces of ip # _ \<Rightarrow> Inr (ip_String ip) | [] \<Rightarrow> Inl NoLocalIP))"
proof (cases "candidate_ips ifaces = []")
  case True then show ?thesis using assms(1) by (simp add: determineIP_def local_candidates)
next
  case False
  have "determineIP (Inr ifaces) lookup conf =
    (case map_option ip_String (find (\<lambda>ip. To4 ip \<noteq> None) (candidate_ips ifaces)) of
       Some addr \<Rightarrow> Inr addr
     | None \<Rightarrow> if RequireIPv4 conf then Inl NoIPv4
         else (case map ip_String (candidate_ips ifaces) of addr # _ \<Rightarrow> Inr addr | [] \<Rightarrow> Inr []))"
    using assms(1) False by (simp only: determineIP_def local_candidates first_ipv4_texts [OF assms(2)] Let_def if_False sum.case)
  then show ?thesis using False
    by (cases "find (\<lambda>ip. \<exists>y. To4 ip = Some y) (candidate_ips ifaces)") (auto split: list.split)
qed

text \<open>
  Reloading the address of a node that does not ask for an external one: of the addresses that are not link-local (nor
  loopback, if there is another) the first IPv4 address, or without one the first address unless IPv4 is required. What
  was resolved before is forgotten either way, and a failure leaves the node without an address.
\<close>

theorem local_node_ip:
  fixes conf :: RTCConfig and ifaces :: "'e iface list"
  assumes "\<not> UseExternalIP conf" "\<forall>ip \<in> set (candidate_ips ifaces). length ip = 4 \<or> length ip = 16"
  shows "ReloadExternalIP (Inr ifaces) lookup conf =
    (let done = (\<lambda>n. (None, conf\<lparr>conf_NodeIP := n, NodeIPAutoGenerated := True\<rparr>));
         failed = (\<lambda>err. (Some err, conf\<lparr>conf_NodeIP := \<lparr>V4 = [], V6 = []\<rparr>, NodeIPAutoGenerated := False\<rparr>))
     in case find (\<lambda>ip. To4 ip \<noteq> None) (candidate_ips ifaces) of
          Some ip \<Rightarrow> done \<lparr>V4 = ip_String ip, V6 = []\<rparr>
        | None \<Rightarrow>
            if RequireIPv4 conf then failed NoIPv4
            else (case candidate_ips ifaces of ip # _ \<Rightarrow> done \<lparr>V4 = [], V6 = ip_String ip\<rparr> | [] \<Rightarrow> failed NoLocalIP))"
proof -
  have family: "(case ParseIP (ip_String ip) of Some p \<Rightarrow> To4 p \<noteq> None | None \<Rightarrow> False) \<longleftrightarrow> To4 ip \<noteq> None"
    if "ip \<in> set (candidate_ips ifaces)" for ip using assms(2) that parsed_family by blast
  have d: "determineIP (Inr ifaces) lookup (conf\<lparr>conf_NodeIP := n, NodeIPAutoGenerated := b\<rparr>) = determineIP (Inr ifaces) lookup conf" for n b
    using assms by (simp add: determine_local)
  show ?thesis
  proof (cases "find (\<lambda>ip. To4 ip \<noteq> None) (candidate_ips ifaces)")
    case (Some ip)
    then have "ip \<in> set (candidate_ips ifaces)" "To4 ip \<noteq> None" using find_Some by fast+
    then show ?thesis using Some family [of ip]
      by (simp add: ReloadExternalIP_def resolveNodeIP_def d determine_local [OF assms] Let_def)
  next
    case None
    then have "To4 ip = None" if "ip \<in> set (candidate_ips ifaces)" for ip using that by (auto simp: find_None)
    then show ?thesis using None family
      by (cases "candidate_ips ifaces") (simp_all add: ReloadExternalIP_def resolveNodeIP_def d determine_local [OF assms] Let_def)
  qed
qed

theorem local_node_ip_witness:
  "\<exists>conf :: RTCConfig. \<not> UseExternalIP conf \<and>
    fst (ReloadExternalIP (Inr [\<lparr>if_Name = ''lo'', if_Flags = 0, if_Addrs = Inr [IPNet [127, 0, 0, 1]]\<rparr>,
      \<lparr>if_Name = ''eth0'', if_Flags = 0, if_Addrs = Inr [IPNet (0x20 # replicate 15 1), IPNet [10, 0, 0, 7]]\<rparr>]) (\<lambda>_ _ _ _. Inl ()) conf) = None \<and>
    conf_NodeIP (snd (ReloadExternalIP (Inr [\<lparr>if_Name = ''lo'', if_Flags = 0, if_Addrs = Inr [IPNet [127, 0, 0, 1]]\<rparr>,
      \<lparr>if_Name = ''eth0'', if_Flags = 0, if_Addrs = Inr [IPNet (0x20 # replicate 15 1), IPNet [10, 0, 0, 7]]\<rparr>]) (\<lambda>_ _ _ _. Inl ()) conf)) =
      \<lparr>V4 = ''10.0.0.7'', V6 = []\<rparr>"
proof -
  define ifaces :: "unit iface list" where "ifaces = [\<lparr>if_Name = ''lo'', if_Flags = 0, if_Addrs = Inr [IPNet [127, 0, 0, 1]]\<rparr>,
      \<lparr>if_Name = ''eth0'', if_Flags = 0, if_Addrs = Inr [IPNet (0x20 # replicate 15 1), IPNet [10, 0, 0, 7]]\<rparr>]"
  have c: "candidate_ips ifaces = [0x20 # replicate 15 1, [10, 0, 0, 7]]" unfolding ifaces_def by code_simp
  have f: "find (\<lambda>ip. To4 ip \<noteq> None) (candidate_ips ifaces) = Some [10, 0, 0, 7]" unfolding c by code_simp
  have l: "\<forall>ip \<in> set (candidate_ips ifaces). length ip = 4 \<or> length ip = 16" by (simp add: c)
  have s: "ip_String [10, 0, 0, 7] = ''10.0.0.7''" by code_simp
  obtain conf :: RTCConfig where u: "\<not> UseExternalIP conf" by (meson RTCConfig.select_convs(9))
  have "ReloadExternalIP (Inr ifaces) (\<lambda>_ _ _ _. Inl ()) conf =
      (None, conf\<lparr>conf_NodeIP := \<lparr>V4 = ''10.0.0.7'', V6 = []\<rparr>, NodeIPAutoGenerated := True\<rparr>)"
    by (simp only: local_node_ip [OF u l] Let_def f option.case s)
  then show ?thesis using u by (auto simp: ifaces_def)
qed

section \<open>Looking for the external address\<close>

definition lookup_options :: "RTCConfig \<Rightarrow> (externalIPOptions \<Rightarrow> externalIPOptions) list" where
  "lookup_options conf = [WithStunPingTimeout (ExternalIPStunTimeout conf), WithValidationTimeout (ExternalIPValidationTimeout conf)]"

definition lookup_tries :: "RTCConfig \<Rightarrow> nat" where
  "lookup_tries conf = nat (if ExternalIPRetries conf \<le> 0 then externalIPRetries else ExternalIPRetries conf)"

definition external_lookup :: "'e ip_lookup \<Rightarrow> RTCConfig \<Rightarrow> nat \<Rightarrow> 'e + string" where
  "external_lookup lookup conf =
    lookup (RequireIPv4 conf) (if STUNServers conf = [] then DefaultStunServers else STUNServers conf) (lookup_options conf)"

lemma determine_external:
  "UseExternalIP conf \<Longrightarrow> \<exists>interval. determineIP interfaces lookup conf =
    (case fst (tries_loop (external_lookup lookup conf) interval 0 (lookup_tries conf) None 0) of
       Inr ip \<Rightarrow> Inr ip
     | Inl err \<Rightarrow> Inl (NotResolved err))"
  unfolding determineIP_def Let_def external_lookup_def lookup_options_def lookup_tries_def length_0_conv by (simp only: if_True) blast

lemma lookup_tries_positive [simp]: "0 < lookup_tries conf"
  by (simp add: lookup_tries_def externalIPRetries_def)

lemma tries_loop_find:
  "tries_loop getIP interval i n err slept =
    (case find (\<lambda>k. isl (getIP k) = False) [i..<i + n] of
       Some k \<Rightarrow> (Inr (projr (getIP k)), slept + (int k - int i) * interval)
     | None \<Rightarrow> (Inl (if n = 0 then err else Some (projl (getIP (i + n - 1)))), slept + int n * interval))"
proof (induction n arbitrary: i err slept)
  case (Suc n)
  have u: "[i..<i + Suc n] = i # [Suc i..<Suc i + n]" by (simp add: upt_conv_Cons)
  show ?case
  proof (cases "getIP i")
    case (Inl e)
    have f: "find (\<lambda>k. isl (getIP k) = False) [i..<i + Suc n] = find (\<lambda>k. isl (getIP k) = False) [Suc i..<Suc i + n]"
      by (subst u) (simp add: Inl)
    show ?thesis
      by (simp only: f tries_loop.simps Inl sum.case Suc) (cases n, simp_all add: Inl algebra_simps split: option.split)
  next
    case (Inr ip)
    then show ?thesis by (subst u) (simp del: upt_Suc)
  qed
qed simp

text \<open>
  Looking for the external address: the lookup is tried as often as configured, three times by default, and the first
  address found is taken, after as many waits as there were failures; if every try fails the last error is reported. The
  lookup asks the configured servers, with the timeouts configured, and for an IPv4 address if one is required.
\<close>

theorem external_tries:
  assumes "UseExternalIP conf"
  shows "let getIP = external_lookup lookup conf;
             n = lookup_tries conf
         in determineIP interfaces lookup conf =
              (case find (\<lambda>k. \<not> isl (getIP k)) [0..<n] of
                 Some k \<Rightarrow> Inr (projr (getIP k))
               | None \<Rightarrow> Inl (NotResolved (Some (projl (getIP (n - 1)))))) \<and>
            snd (tries_loop getIP interval 0 n None 0) =
              (case find (\<lambda>k. \<not> isl (getIP k)) [0..<n] of Some k \<Rightarrow> int k * interval | None \<Rightarrow> int n * interval) \<and>
            resolveExternalIPOptions (lookup_options conf) =
              \<lparr>stunPingTimeout = (if ExternalIPStunTimeout conf > 0 then ExternalIPStunTimeout conf else 5 * 1000000000),
               validationTimeout = (if ExternalIPValidationTimeout conf > 0 then ExternalIPValidationTimeout conf else 5 * 1000000000)\<rparr>"
proof -
  have o: "resolveExternalIPOptions (lookup_options conf) =
              \<lparr>stunPingTimeout = (if ExternalIPStunTimeout conf > 0 then ExternalIPStunTimeout conf else 5 * 1000000000),
               validationTimeout = (if ExternalIPValidationTimeout conf > 0 then ExternalIPValidationTimeout conf else 5 * 1000000000)\<rparr>"
    by (simp add: resolveExternalIPOptions_def lookup_options_def defaultExternalIPOptions_def WithStunPingTimeout_def WithValidationTimeout_def)
  obtain interval' where d: "determineIP interfaces lookup conf =
    (case fst (tries_loop (external_lookup lookup conf) interval' 0 (lookup_tries conf) None 0) of
       Inr ip \<Rightarrow> Inr ip
     | Inl err \<Rightarrow> Inl (NotResolved err))" using determine_external [OF assms] by blast
  show ?thesis
    using lookup_tries_positive [of conf] by (simp add: Let_def o d tries_loop_find split: option.split)
qed

theorem external_tries_witness:
  "\<exists>conf :: RTCConfig. UseExternalIP conf \<and>
    determineIP (Inl ''no interfaces'') (\<lambda>v4 servers opts k. if k < 2 then Inl ''timeout'' else Inr ''203.0.113.9'') (conf\<lparr>ExternalIPRetries := 0\<rparr>) =
      Inr ''203.0.113.9'' \<and>
    determineIP (Inl ''no interfaces'') (\<lambda>v4 servers opts k. if k < 2 then Inl ''timeout'' else Inr ''203.0.113.9'') (conf\<lparr>ExternalIPRetries := 2\<rparr>) =
      Inl (NotResolved (Some ''timeout''))"
proof -
  obtain conf :: RTCConfig where u: "UseExternalIP conf" by (meson RTCConfig.select_convs(9))
  have "UseExternalIP (conf\<lparr>ExternalIPRetries := 0\<rparr>)" "UseExternalIP (conf\<lparr>ExternalIPRetries := 2\<rparr>)" using u by simp_all
  from this [THEN external_tries, of "\<lambda>v4 servers opts k. if k < 2 then Inl ''timeout'' else Inr ''203.0.113.9''" "Inl ''no interfaces''" 1] u
  show ?thesis by (auto simp: lookup_tries_def externalIPRetries_def external_lookup_def upt_rec Let_def)
qed

end
