(* ===== verification/Net_CIDR.thy ===== *)
theory Net_CIDR
  imports Net_Text
begin

text \<open>Networks in CIDR notation as Go's \<open>net\<close> package parses and matches them.\<close>

record ip_net =
  net_IP :: IP
  net_Mask :: "byte list"

text \<open>A mask of \<open>n\<close> one bits in \<open>l\<close> bytes; the byte \<open>0xff\<close> is \<open>- 1\<close>.\<close>

definition CIDRMask :: "nat \<Rightarrow> nat \<Rightarrow> byte list" where
  "CIDRMask n l = map (\<lambda>k. if 8 \<le> n - 8 * k then - 1 else NOT (drop_bit (n - 8 * k) (- 1))) [0..<l]"

definition ip_Mask :: "IP \<Rightarrow> byte list \<Rightarrow> IP" where
  "ip_Mask ip m =
    (let m = (if length m = 16 \<and> length ip = 4 \<and> list_all (\<lambda>b. b = - 1) (take 12 m) then drop 12 m else m);
         ip = (if length m = 4 \<and> length ip = 16 \<and> take 12 ip = v4InV6Prefix then drop 12 ip else ip)
     in if length ip \<noteq> length m then [] else map2 (AND) ip m)"

text \<open>The decimal number of the mask; \<open>None\<close> when it is none or too large.\<close>

definition dtoi :: "string \<Rightarrow> nat option" where
  "dtoi s = (if s = [] \<or> \<not> list_all (\<lambda>c. dec_digit c \<noteq> None) s then None
     else let n = foldl (\<lambda>a c. a * 10 + int (the (dec_digit c))) 0 s in if n \<ge> 0xFFFFFF then None else Some (nat n))"

definition ParseCIDR :: "string \<Rightarrow> ip_net option" where
  "ParseCIDR s =
    (if CHR ''/'' \<notin> set s then None
     else case (parseAddr (takeWhile (\<lambda>c. c \<noteq> CHR ''/'') s), dtoi (tl (dropWhile (\<lambda>c. c \<noteq> CHR ''/'') s))) of
         (Some (is6, ip), Some n) \<Rightarrow>
           if n > (if is6 then 128 else 32) then None
           else let m = CIDRMask n (if is6 then 16 else 4) in Some \<lparr>net_IP = ip_Mask ip m, net_Mask = m\<rparr>
       | _ \<Rightarrow> None)"

definition networkNumberAndMask :: "ip_net \<Rightarrow> IP \<times> byte list" where
  "networkNumberAndMask n =
    (let ip = (case To4 (net_IP n) of Some ip4 \<Rightarrow> ip4 | None \<Rightarrow> net_IP n); m = net_Mask n in
     if length ip \<noteq> 4 \<and> length ip \<noteq> 16 then ([], [])
     else if length m = 4 then (if length ip \<noteq> 4 then ([], []) else (ip, m))
     else if length m = 16 then (if length ip = 4 then (ip, drop 12 m) else (ip, m))
     else ([], []))"

definition IPNet_Contains :: "ip_net \<Rightarrow> IP \<Rightarrow> bool" where
  "IPNet_Contains n ip =
    (let (nn, m) = networkNumberAndMask n;
         ip = (case To4 ip of Some ip4 \<Rightarrow> ip4 | None \<Rightarrow> ip)
     in length ip = length nn \<and> (\<forall>i < length ip. nn ! i AND m ! i = ip ! i AND m ! i))"

section \<open>A network holds the addresses that share its prefix\<close>

text \<open>The first \<open>n\<close> bits agree.\<close>

definition same_prefix :: "nat \<Rightarrow> IP \<Rightarrow> IP \<Rightarrow> bool" where
  "same_prefix n x y \<longleftrightarrow> (\<forall>i < n. bit (x ! (i div 8)) (7 - i mod 8) = bit (y ! (i div 8)) (7 - i mod 8))"

lemma bit_cidr_byte:
  "j < 8 \<Longrightarrow> bit (if 8 \<le> k then - 1 else NOT (drop_bit k (- 1 :: byte))) j \<longleftrightarrow> 7 - j < k"
  by (auto simp: bit_not_iff bit_mask_iff)

lemma masked_byte_eq:
  "x AND (if 8 \<le> k then - 1 else NOT (drop_bit k (- 1 :: byte))) = y AND (if 8 \<le> k then - 1 else NOT (drop_bit k (- 1 :: byte)))
   \<longleftrightarrow> (\<forall>i < min 8 k. bit x (7 - i) = bit y (7 - i))" (is "x AND ?m = y AND ?m \<longleftrightarrow> ?R")
proof
  assume eq: "x AND ?m = y AND ?m"
  show ?R
  proof (intro allI impI)
    fix i assume "i < min 8 k"
    then have "bit ?m (7 - i)" using bit_cidr_byte [of "7 - i" k] by simp
    moreover have "bit (x AND ?m) (7 - i) = bit (y AND ?m) (7 - i)" by (simp only: eq)
    ultimately show "bit x (7 - i) = bit y (7 - i)" unfolding bit_and_iff by blast
  qed
next
  assume r: ?R
  show "x AND ?m = y AND ?m"
  proof (rule bit_word_eqI)
    fix j assume "j < LENGTH(8)"
    then have j: "j < 8" by simp
    have "bit x j = bit y j" if "7 - j < k"
    proof -
      have "7 - j < min 8 k" using that by simp
      with r have "bit x (7 - (7 - j)) = bit y (7 - (7 - j))" by blast
      then show ?thesis using j by simp
    qed
    then show "bit (x AND ?m) j = bit (y AND ?m) j" unfolding bit_and_iff bit_cidr_byte [OF j] by blast
  qed
qed

lemma CIDRMask_nth: "i < l \<Longrightarrow> CIDRMask n l ! i = (if 8 \<le> n - 8 * i then - 1 else NOT (drop_bit (n - 8 * i) (- 1)))"
  by (simp add: CIDRMask_def)

lemma length_CIDRMask [simp]: "length (CIDRMask n l) = l"
  by (simp add: CIDRMask_def)

lemma masked_eq_prefix:
  assumes "n \<le> 8 * l"
  shows "(\<forall>i < l. x ! i AND CIDRMask n l ! i = y ! i AND CIDRMask n l ! i) \<longleftrightarrow> same_prefix n x y"
proof -
  have "(\<forall>i < l. x ! i AND CIDRMask n l ! i = y ! i AND CIDRMask n l ! i) \<longleftrightarrow>
      (\<forall>i < l. \<forall>k < min 8 (n - 8 * i). bit (x ! i) (7 - k) = bit (y ! i) (7 - k))"
    by (simp only: CIDRMask_nth masked_byte_eq cong: imp_cong)
  also have "\<dots> \<longleftrightarrow> same_prefix n x y"
  proof
    assume a: "\<forall>i < l. \<forall>k < min 8 (n - 8 * i). bit (x ! i) (7 - k) = bit (y ! i) (7 - k)"
    show "same_prefix n x y" unfolding same_prefix_def
    proof (intro allI impI)
      fix i assume "i < n"
      then have "i div 8 < l" "i mod 8 < min 8 (n - 8 * (i div 8))" using assms by (auto simp: minus_mult_div_eq_mod [symmetric])
      with a show "bit (x ! (i div 8)) (7 - i mod 8) = bit (y ! (i div 8)) (7 - i mod 8)" by blast
    qed
  next
    assume p: "same_prefix n x y"
    show "\<forall>i < l. \<forall>k < min 8 (n - 8 * i). bit (x ! i) (7 - k) = bit (y ! i) (7 - k)"
    proof (intro allI impI)
      fix i k assume "k < min 8 (n - 8 * i)"
      then have "8 * i + k < n" "(8 * i + k) div 8 = i" "(8 * i + k) mod 8 = k" by auto
      with p show "bit (x ! i) (7 - k) = bit (y ! i) (7 - k)" unfolding same_prefix_def by metis
    qed
  qed
  finally show ?thesis .
qed

lemma dtoi_dec: "n < 0xFFFFFF \<Longrightarrow> dtoi (dec n) = Some n"
  using dec_digits [of n] by (simp add: dtoi_def dec_value Let_def)

text \<open>The text of a network: an address and the length of its prefix.\<close>

definition cidr_text :: "IP \<Rightarrow> nat \<Rightarrow> string" where
  "cidr_text ip n = ip_String ip @ CHR ''/'' # dec n"

lemma cidr_split:
  assumes "\<forall>c \<in> set s. c \<noteq> CHR ''/''"
  shows "takeWhile (\<lambda>c. c \<noteq> CHR ''/'') (s @ CHR ''/'' # t) = s" "tl (dropWhile (\<lambda>c. c \<noteq> CHR ''/'') (s @ CHR ''/'' # t)) = t"
proof -
  show "takeWhile (\<lambda>c. c \<noteq> CHR ''/'') (s @ CHR ''/'' # t) = s" using assms by (subst takeWhile_append2) simp_all
  show "tl (dropWhile (\<lambda>c. c \<noteq> CHR ''/'') (s @ CHR ''/'' # t)) = t" using dropWhile_until [OF assms, of "CHR ''/''" t] by simp
qed

lemma ParseCIDR_v4:
  assumes "length ip = 4" "n \<le> 32"
  shows "ParseCIDR (cidr_text ip n) = Some \<lparr>net_IP = map2 (AND) ip (CIDRMask n 4), net_Mask = CIDRMask n 4\<rparr>"
proof -
  have s: "ip_String ip = dotted ip" using assms(1) by (auto simp: ip_String_def To4_def)
  have "\<forall>c \<in> set (dotted ip). c \<noteq> CHR ''/''" using dotted_text by fastforce
  note c = cidr_split [OF this, of "dec n"]
  have "ip_Mask (v4InV6Prefix @ ip) (CIDRMask n 4) = map2 (AND) ip (CIDRMask n 4)"
    using assms(1) by (simp add: ip_Mask_def v4InV6Prefix_def)
  then show ?thesis using assms
    unfolding ParseCIDR_def cidr_text_def s c parseAddr_dotted [OF assms(1)] by (simp add: dtoi_dec Let_def)
qed

lemma ParseCIDR_v6:
  assumes "length ip = 16" "To4 ip = None" "n \<le> 128"
  shows "ParseCIDR (cidr_text ip n) = Some \<lparr>net_IP = map2 (AND) ip (CIDRMask n 16), net_Mask = CIDRMask n 16\<rparr>"
proof -
  have s: "ip_String ip = text6 ip" using assms by (auto simp: ip_String_def)
  have "\<forall>c \<in> set (text6 ip). c \<noteq> CHR ''/''" using text6_text by fastforce
  note c = cidr_split [OF this, of "dec n"]
  show ?thesis using assms unfolding ParseCIDR_def cidr_text_def s c parseAddr_text6 [OF assms(1)] by (simp add: dtoi_dec Let_def ip_Mask_def)
qed

lemma and_and_mask: "(a AND m) AND m = x AND m \<longleftrightarrow> a AND m = x AND (m :: byte)"
  by (simp add: and.assoc)

lemma Contains_v4:
  assumes "length a = 4" "n \<le> 32"
  shows "IPNet_Contains \<lparr>net_IP = map2 (AND) a (CIDRMask n 4), net_Mask = CIDRMask n 4\<rparr> ip \<longleftrightarrow>
    (\<exists>ip4. To4 ip = Some ip4 \<and> same_prefix n a ip4)"
proof -
  define m where "m = CIDRMask n 4"
  define N where "N = map2 (AND) a m"
  have l: "length N = 4" using assms(1) by (simp add: N_def m_def)
  have N: "networkNumberAndMask \<lparr>net_IP = N, net_Mask = m\<rparr> = (N, m)"
    using l by (simp add: networkNumberAndMask_def To4_def Let_def m_def)
  have i: "N ! i = a ! i AND m ! i" if "i < 4" for i using that assms(1) by (simp add: N_def m_def)
  have P: "(\<forall>i < 4. N ! i AND m ! i = x ! i AND m ! i) \<longleftrightarrow> same_prefix n a x" for x
    using masked_eq_prefix [of n 4 a x] assms(2) by (simp add: i and_and_mask m_def cong: imp_cong)
  show ?thesis unfolding m_def [symmetric] N_def [symmetric]
  proof (cases "To4 ip")
    case None
    then have "length ip \<noteq> 4" by (auto simp: To4_def)
    then show "IPNet_Contains \<lparr>net_IP = N, net_Mask = m\<rparr> ip \<longleftrightarrow> (\<exists>ip4. To4 ip = Some ip4 \<and> same_prefix n a ip4)"
      using P [of ip] None by (auto simp: IPNet_Contains_def N l)
  next
    case (Some ip4)
    then show "IPNet_Contains \<lparr>net_IP = N, net_Mask = m\<rparr> ip \<longleftrightarrow> (\<exists>ip4. To4 ip = Some ip4 \<and> same_prefix n a ip4)"
      using P [of ip4] To4_length [OF Some] by (auto simp: IPNet_Contains_def N l)
  qed
qed

lemma masked_not_v4:
  assumes "length a = 16" "To4 a = None" "n \<le> 128"
  shows "To4 (map2 (AND) a (CIDRMask n 16)) = None"
proof (rule ccontr)
  assume "To4 (map2 (AND) a (CIDRMask n 16)) \<noteq> None"
  then have t: "take 12 (map2 (AND) a (CIDRMask n 16)) = v4InV6Prefix" using assms(1) by (simp add: To4_def split: if_splits)
  have m: "a ! i AND CIDRMask n 16 ! i = v4InV6Prefix ! i" if "i < 12" for i
    using that assms(1) arg_cong [OF t, of "\<lambda>xs. xs ! i"] by simp
  have "bit (CIDRMask n 16 ! 11) 0"
  proof -
    have "v4InV6Prefix ! 11 = - 1" by (simp add: v4InV6Prefix_def)
    then have "bit (a ! 11 AND CIDRMask n 16 ! 11) 0" using m [of 11] by simp
    then show ?thesis by (simp only: bit_and_iff)
  qed
  moreover have "CIDRMask n 16 ! 11 = (if 8 \<le> n - 88 then - 1 else NOT (drop_bit (n - 88) (- 1)))"
    using CIDRMask_nth [of 11 16 n] by simp
  ultimately have n: "96 \<le> n" using bit_cidr_byte [of 0 "n - 88"] by simp
  have "CIDRMask n 16 ! i = - 1" if "i < 12" for i using that n by (simp add: CIDRMask_nth)
  then have "take 12 a = v4InV6Prefix"
    using m assms(1) by (intro nth_equalityI) (simp_all add: v4InV6Prefix_def)
  then show False using assms by (simp add: To4_def)
qed

lemma Contains_v6:
  assumes "length a = 16" "To4 a = None" "n \<le> 128"
  shows "IPNet_Contains \<lparr>net_IP = map2 (AND) a (CIDRMask n 16), net_Mask = CIDRMask n 16\<rparr> ip \<longleftrightarrow>
    length ip = 16 \<and> To4 ip = None \<and> same_prefix n a ip"
proof -
  define m where "m = CIDRMask n 16"
  define N where "N = map2 (AND) a m"
  have l: "length N = 16" using assms(1) by (simp add: N_def m_def)
  have N: "networkNumberAndMask \<lparr>net_IP = N, net_Mask = m\<rparr> = (N, m)"
    using l masked_not_v4 [OF assms] by (simp add: networkNumberAndMask_def Let_def m_def N_def)
  have i: "N ! i = a ! i AND m ! i" if "i < 16" for i using that assms(1) by (simp add: N_def m_def)
  have P: "(\<forall>i < 16. N ! i AND m ! i = x ! i AND m ! i) \<longleftrightarrow> same_prefix n a x" for x
    using masked_eq_prefix [of n 16 a x] assms(3) by (simp add: i and_and_mask m_def cong: imp_cong)
  show ?thesis unfolding m_def [symmetric] N_def [symmetric]
  proof (cases "To4 ip")
    case None
    then have "length ip \<noteq> 4" by (auto simp: To4_def)
    then show "IPNet_Contains \<lparr>net_IP = N, net_Mask = m\<rparr> ip \<longleftrightarrow> length ip = 16 \<and> To4 ip = None \<and> same_prefix n a ip"
      using P [of ip] None by (auto simp: IPNet_Contains_def N l)
  next
    case (Some ip4)
    then show "IPNet_Contains \<lparr>net_IP = N, net_Mask = m\<rparr> ip \<longleftrightarrow> length ip = 16 \<and> To4 ip = None \<and> same_prefix n a ip"
      using P [of ip4] To4_length [OF Some] by (auto simp: IPNet_Contains_def N l)
  qed
qed

end
