(* ===== verification/Transport.thy ===== *)
theory Transport
  imports Net_IP "HOL-Library.Signed_Division" "HOL-Library.Multiset"
begin

text \<open>
  UDP muxes, \<^verbatim>\<open>pkg/transport\<close>: the local addresses to listen on (\<^verbatim>\<open>ip.go\<close>), creating a mux per address and
  port (\<^verbatim>\<open>createmux.go\<close>) and balancing over the ports of an address (\<^verbatim>\<open>udpmultimux.go\<close>).

  The network and the muxes belong to pion and are parameters: \<open>isIPv4\<close> and \<open>isIPv6\<close> of a network type, the
  interfaces and their addresses, \<open>listen\<close> for \<open>ListenUDP\<close>, \<open>batchConn\<close> for \<open>NewBatchConn\<close> and \<open>newMux\<close> for
  \<open>NewUDPMuxDefault\<close>; the mux \<open>NewMultiUDPMuxDefault\<close> builds is not looked at. A nil filter is \<open>None\<close>.
\<close>

section \<open>Local addresses\<close>

definition isZeros :: "IP \<Rightarrow> bool" where
  "isZeros ip = list_all (\<lambda>b. b = 0) ip"

definition isSupportedIPv6 :: "IP \<Rightarrow> bool" where
  "isSupportedIPv6 ip \<longleftrightarrow> \<not> (length ip \<noteq> 16 \<or> isZeros (take 12 ip) \<or> ip ! 0 = 0xfe \<and> ip ! 1 AND 0xc0 = 0xc0 \<or>
     IsLinkLocalUnicast ip \<or> IsLinkLocalMulticast ip)"

definition FlagUp :: u64 where "FlagUp = 1"
definition FlagLoopback :: u64 where "FlagLoopback = 4"

fun ip_of_addr :: "net_addr \<Rightarrow> IP" where
  "ip_of_addr (IPNet ip) = ip"
| "ip_of_addr (IPAddr ip) = ip"
| "ip_of_addr OtherAddr = []"

fun addrs_loop :: "bool \<Rightarrow> bool \<Rightarrow> (IP \<Rightarrow> bool) option \<Rightarrow> bool \<Rightarrow> IP list \<Rightarrow> net_addr list \<Rightarrow> IP list" where
  "addrs_loop v4 v6 ipFilter includeLoopback ips [] = ips"
| "addrs_loop v4 v6 ipFilter includeLoopback ips (addr # addrs) =
    (let ip = ip_of_addr addr;
         ips = (if ip = [] \<or> IsLoopback ip \<and> \<not> includeLoopback then ips
           else if To4 ip = None \<and> (\<not> v6 \<or> \<not> isSupportedIPv6 ip) then ips
           else if To4 ip \<noteq> None \<and> \<not> v4 then ips
           else if (case ipFilter of Some f \<Rightarrow> \<not> f ip | None \<Rightarrow> False) then ips
           else ips @ [ip])
     in addrs_loop v4 v6 ipFilter includeLoopback ips addrs)"

fun ifaces_loop :: "bool \<Rightarrow> bool \<Rightarrow> (string \<Rightarrow> bool) option \<Rightarrow> (IP \<Rightarrow> bool) option \<Rightarrow> bool \<Rightarrow> IP list \<Rightarrow> 'e iface list \<Rightarrow> IP list" where
  "ifaces_loop v4 v6 ifFilter ipFilter includeLoopback ips [] = ips"
| "ifaces_loop v4 v6 ifFilter ipFilter includeLoopback ips (i # ifaces) =
    (let ips = (if if_Flags i AND FlagUp = 0 then ips
           else if if_Flags i AND FlagLoopback \<noteq> 0 \<and> \<not> includeLoopback then ips
           else if (case ifFilter of Some f \<Rightarrow> \<not> f (if_Name i) | None \<Rightarrow> False) then ips
           else (case if_Addrs i of Inl err \<Rightarrow> ips | Inr addrs \<Rightarrow> addrs_loop v4 v6 ipFilter includeLoopback ips addrs))
     in ifaces_loop v4 v6 ifFilter ipFilter includeLoopback ips ifaces)"

definition localInterfaces ::
  "'e + 'e iface list \<Rightarrow> (string \<Rightarrow> bool) option \<Rightarrow> (IP \<Rightarrow> bool) option \<Rightarrow> ('n \<Rightarrow> bool) \<Rightarrow> ('n \<Rightarrow> bool) \<Rightarrow> 'n list \<Rightarrow> bool \<Rightarrow> 'e + IP list" where
  "localInterfaces interfaces ifFilter ipFilter isIPv4 isIPv6 networkTypes includeLoopback =
    (case interfaces of
       Inl err \<Rightarrow> Inl err
     | Inr ifaces \<Rightarrow> Inr (ifaces_loop (list_ex isIPv4 networkTypes) (list_ex isIPv6 networkTypes) ifFilter ipFilter includeLoopback [] ifaces))"

section \<open>Creating the muxes\<close>

record ('n, 'e) multiUDPMuxFromPortParam =
  ifFilter :: "(string \<Rightarrow> bool) option"
  ipFilter :: "(IP \<Rightarrow> bool) option"
  networks :: "'n list"
  readBufferSize :: int
  writeBufferSize :: int
  includeLoopback :: bool
  net :: "('e + 'e iface list) option"
  batchWriteSize :: int
  batchWriteInterval :: int

definition UDPMuxFromPortWithInterfaceFilter where "UDPMuxFromPortWithInterfaceFilter f p = p\<lparr>ifFilter := Some f\<rparr>"
definition UDPMuxFromPortWithIPFilter where "UDPMuxFromPortWithIPFilter f p = p\<lparr>ipFilter := Some f\<rparr>"
definition UDPMuxFromPortWithNetworks where "UDPMuxFromPortWithNetworks ns p = p\<lparr>networks := ns\<rparr>"
definition UDPMuxFromPortWithReadBufferSize where "UDPMuxFromPortWithReadBufferSize k p = p\<lparr>readBufferSize := k\<rparr>"
definition UDPMuxFromPortWithWriteBufferSize where "UDPMuxFromPortWithWriteBufferSize k p = p\<lparr>writeBufferSize := k\<rparr>"
definition UDPMuxFromPortWithLoopback where "UDPMuxFromPortWithLoopback p = p\<lparr>includeLoopback := True\<rparr>"
definition UDPMuxFromPortWithNet where "UDPMuxFromPortWithNet n p = p\<lparr>net := Some n\<rparr>"
definition UDPMuxFromPortWithBatchWrite where
  "UDPMuxFromPortWithBatchWrite k intvl p = p\<lparr>batchWriteSize := k, batchWriteInterval := intvl\<rparr>"

text \<open>What the calls on connections do, in order.\<close>

datatype 'c effect = Opened IP int 'c | ReadBufferSet 'c int | WriteBufferSet 'c int | Closed 'c

text \<open>The loop over the ports of one address: the effects, the error that broke it off and the connections so far.\<close>

fun listen_ports ::
  "(IP \<Rightarrow> int \<Rightarrow> 'e + 'c) \<Rightarrow> ('c \<Rightarrow> int \<Rightarrow> int \<Rightarrow> 'c) \<Rightarrow> ('n, 'e) multiUDPMuxFromPortParam \<Rightarrow> IP \<Rightarrow> 'c effect list \<Rightarrow> 'c list \<Rightarrow> int list \<Rightarrow>
   'c effect list \<times> 'e option \<times> 'c list" where
  "listen_ports listen batchConn params ip effs conns [] = (effs, None, conns)"
| "listen_ports listen batchConn params ip effs conns (port # ports) =
    (case listen ip port of
       Inl err \<Rightarrow> (effs, Some err, conns)
     | Inr conn \<Rightarrow>
         let effs = effs @ [Opened ip port conn] @
               (if readBufferSize params > 0 then [ReadBufferSet conn (readBufferSize params)] else []) @
               (if writeBufferSize params > 0 then [WriteBufferSet conn (writeBufferSize params)] else []);
             conns = conns @ [if batchWriteSize params > 0
               then batchConn conn (batchWriteSize params) (batchWriteInterval params) else conn]
         in listen_ports listen batchConn params ip effs conns ports)"

fun listen_ips ::
  "(IP \<Rightarrow> int \<Rightarrow> 'e + 'c) \<Rightarrow> ('c \<Rightarrow> int \<Rightarrow> int \<Rightarrow> 'c) \<Rightarrow> ('n, 'e) multiUDPMuxFromPortParam \<Rightarrow> int list \<Rightarrow> 'c effect list \<Rightarrow> 'c list \<Rightarrow> IP list \<Rightarrow>
   'c effect list \<times> 'e option \<times> 'c list" where
  "listen_ips listen batchConn params ports effs conns [] = (effs, None, conns)"
| "listen_ips listen batchConn params ports effs conns (ip # ips) =
    (case listen_ports listen batchConn params ip effs conns ports of
       (effs, Some err, conns) \<Rightarrow> (effs, Some err, conns)
     | (effs, None, conns) \<Rightarrow> listen_ips listen batchConn params ports effs conns ips)"

text \<open>\<open>newNet\<close> is what \<open>stdnet.NewNet\<close> gives, used when the options set no network.\<close>

definition CreateUDPMuxesFromPorts ::
  "('n \<Rightarrow> bool) \<Rightarrow> ('n \<Rightarrow> bool) \<Rightarrow> 'n list \<Rightarrow> 'e + ('e + 'e iface list) \<Rightarrow> (IP \<Rightarrow> int \<Rightarrow> 'e + 'c) \<Rightarrow> ('c \<Rightarrow> int \<Rightarrow> int \<Rightarrow> 'c) \<Rightarrow> ('c \<Rightarrow> 'm) \<Rightarrow>
   int list \<Rightarrow> (('n, 'e) multiUDPMuxFromPortParam \<Rightarrow> ('n, 'e) multiUDPMuxFromPortParam) list \<Rightarrow> 'c effect list \<times> ('e + 'm list)" where
  "CreateUDPMuxesFromPorts isIPv4 isIPv6 udp4_udp6 newNet listen batchConn newMux ports opts =
    (let params = fold (\<lambda>opt. opt) opts \<lparr>ifFilter = None, ipFilter = None, networks = udp4_udp6, readBufferSize = 0,
           writeBufferSize = 0, includeLoopback = False, net = None, batchWriteSize = 0, batchWriteInterval = 0\<rparr>
     in case (case net params of Some n \<Rightarrow> Inr n | None \<Rightarrow> newNet) of
          Inl err \<Rightarrow> ([], Inl err)
        | Inr n \<Rightarrow>
           (case localInterfaces n (ifFilter params) (ipFilter params) isIPv4 isIPv6 (networks params) (includeLoopback params) of
              Inl err \<Rightarrow> ([], Inl err)
            | Inr ips \<Rightarrow>
               (case listen_ips listen batchConn params ports [] [] ips of
                  (effs, Some err, conns) \<Rightarrow> (effs @ map Closed conns, Inl err)
                | (effs, None, conns) \<Rightarrow> (effs, Inr (map newMux conns)))))"

section \<open>Balancing over the ports of an address\<close>

record multiPortsAddress =
  addresseMuxes :: "addr list"
  currentMux :: u32

text \<open>The counter is an \<open>int32\<close> that wraps, and \<open>%\<close> takes the sign of the dividend: \<open>None\<close> is the panic.\<close>

definition next_addr :: "multiPortsAddress \<Rightarrow> (addr \<times> multiPortsAddress) option" where
  "next_addr mpa =
    (let mpa = mpa\<lparr>currentMux := currentMux mpa + 1\<rparr>;
         len = sint (word_of_nat (length (addresseMuxes mpa)) :: u32)
     in if len = 0 then None
        else let idx = sint (currentMux mpa) smod len
             in if 0 \<le> idx \<and> idx < int (length (addresseMuxes mpa)) then Some (addresseMuxes mpa ! nat idx, mpa) else None)"

text \<open>The map from the text of an address to its group, in the order of the first insertions.\<close>

fun insert_addr :: "(IP \<times> multiPortsAddress) list \<Rightarrow> IP \<Rightarrow> addr \<Rightarrow> (IP \<times> multiPortsAddress) list" where
  "insert_addr [] key addr = [(key, \<lparr>addresseMuxes = [addr], currentMux = 0\<rparr>)]"
| "insert_addr ((k, mpa) # groups) key addr =
    (if k = key then (k, mpa\<lparr>addresseMuxes := addresseMuxes mpa @ [addr]\<rparr>) # groups
     else (k, mpa) # insert_addr groups key addr)"

text \<open>An address that is not a \<open>UDPAddr\<close> is dereferenced as nil.\<close>

fun group_addrs :: "(IP \<times> multiPortsAddress) list \<Rightarrow> addr list \<Rightarrow> (IP \<times> multiPortsAddress) list option" where
  "group_addrs groups [] = Some groups"
| "group_addrs groups (UDPAddr ip port # addrs) = group_addrs (insert_addr groups (ip_key ip) (UDPAddr ip port)) addrs"
| "group_addrs groups (NotUDPAddr # addrs) = None"

record MultiPortsUDPMux =
  multiPortsAddresses :: "multiPortsAddress list"
  standalonePortMuxes :: "addr list list"

text \<open>A mux is the list of the addresses its \<open>GetListenAddresses\<close> gives. Go goes through a map in any order: \<open>order\<close> is
  the order it takes.\<close>

definition NewMultiPortsUDPMux ::
  "((IP \<times> multiPortsAddress) list \<Rightarrow> (IP \<times> multiPortsAddress) list) \<Rightarrow> addr list list \<Rightarrow> addr list list \<Rightarrow> MultiPortsUDPMux option" where
  "NewMultiPortsUDPMux order muxes standalone = do {
     ipToAddrs \<leftarrow> group_addrs [] (concat muxes);
     Some \<lparr>multiPortsAddresses = map snd (order ipToAddrs), standalonePortMuxes = standalone\<rparr> }"

fun next_addrs :: "multiPortsAddress list \<Rightarrow> (addr list \<times> multiPortsAddress list) option" where
  "next_addrs [] = Some ([], [])"
| "next_addrs (mpa # mpas) = do {
     (addr, mpa) \<leftarrow> next_addr mpa;
     (addrs, mpas) \<leftarrow> next_addrs mpas;
     Some (addr # addrs, mpa # mpas) }"

definition GetListenAddresses :: "MultiPortsUDPMux \<Rightarrow> (addr list \<times> MultiPortsUDPMux) option" where
  "GetListenAddresses m = do {
     (addrs, mpas) \<leftarrow> next_addrs (multiPortsAddresses m);
     Some (addrs @ concat (standalonePortMuxes m), m\<lparr>multiPortsAddresses := mpas\<rparr>) }"


section \<open>Round robin over the ports of an address\<close>

text \<open>\<open>k\<close> calls in a row.\<close>

fun next_calls :: "nat \<Rightarrow> multiPortsAddress \<Rightarrow> (addr list \<times> multiPortsAddress) option" where
  "next_calls 0 mpa = Some ([], mpa)"
| "next_calls (Suc k) mpa = do {
     (a, mpa) \<leftarrow> next_addr mpa;
     (as, mpa) \<leftarrow> next_calls k mpa;
     Some (a # as, mpa) }"

lemma sint_small: "n < 2147483648 \<Longrightarrow> sint (word_of_nat n :: u32) = int n"
  by (simp add: signed_of_nat signed_take_bit_int_eq_self)

lemma smod_pos: "0 \<le> a \<Longrightarrow> 0 < b \<Longrightarrow> a smod b = a mod (b :: int)"
  by (cases "a = 0") (simp_all add: signed_modulo_int_def signed_divide_int_def minus_div_mult_eq_mod sgn_if)

lemma smod_neg: "a < 0 \<Longrightarrow> 0 < b \<Longrightarrow> a smod b = - ((- a) mod (b :: int))"
  by (simp add: signed_modulo_int_def signed_divide_int_def minus_div_mult_eq_mod [symmetric])

lemma next_addr_step:
  assumes "currentMux mpa = word_of_nat c" "Suc c < 2147483648" "0 < length (addresseMuxes mpa)" "length (addresseMuxes mpa) < 2147483648"
  shows "next_addr mpa = Some (addresseMuxes mpa ! (Suc c mod length (addresseMuxes mpa)), mpa\<lparr>currentMux := word_of_nat (Suc c)\<rparr>)"
proof -
  have w: "currentMux mpa + 1 = word_of_nat (Suc c)" using assms(1) by simp
  have s: "sint (word_of_nat (Suc c) :: u32) = int (Suc c)" "sint (word_of_nat (length (addresseMuxes mpa)) :: u32) = int (length (addresseMuxes mpa))"
    using assms by (simp_all add: sint_small del: of_nat_Suc)
  have m: "int (Suc c) smod int (length (addresseMuxes mpa)) = int (Suc c mod length (addresseMuxes mpa))"
    using assms(3) by (subst smod_pos) (simp_all add: zmod_int)
  show ?thesis unfolding next_addr_def Let_def w using assms(3)
    by (simp add: s m del: of_nat_Suc)
qed

lemma next_calls_eq:
  assumes "0 < length (addresseMuxes mpa)" "length (addresseMuxes mpa) < 2147483648"
  shows "currentMux mpa = word_of_nat c \<Longrightarrow> c + k < 2147483648 \<Longrightarrow>
    next_calls k mpa = Some (map (\<lambda>i. addresseMuxes mpa ! (i mod length (addresseMuxes mpa))) [Suc c..<Suc (c + k)],
      mpa\<lparr>currentMux := word_of_nat (c + k)\<rparr>)"
  using assms
proof (induction k arbitrary: c mpa)
  case (Suc k)
  have st: "next_addr mpa = Some (addresseMuxes mpa ! (Suc c mod length (addresseMuxes mpa)), mpa\<lparr>currentMux := word_of_nat (Suc c)\<rparr>)"
    using Suc.prems by (intro next_addr_step) simp_all
  have "next_calls k (mpa\<lparr>currentMux := word_of_nat (Suc c)\<rparr>) =
    Some (map (\<lambda>i. addresseMuxes mpa ! (i mod length (addresseMuxes mpa))) [Suc (Suc c)..<Suc (Suc c + k)],
      mpa\<lparr>currentMux := word_of_nat (Suc c + k)\<rparr>)"
    using Suc.IH [of "mpa\<lparr>currentMux := word_of_nat (Suc c)\<rparr>" "Suc c"] Suc.prems by simp
  moreover have "[Suc c..<Suc (c + Suc k)] = Suc c # [Suc (Suc c)..<Suc (Suc c + k)]" by (simp add: upt_rec)
  ultimately show ?case by (simp add: st)
qed simp

text \<open>\<open>L\<close> numbers in a row leave every remainder once.\<close>

lemma mset_mod_window:
  assumes "0 < L"
  shows "mset (map (\<lambda>i. i mod L) [a..<a + L]) = mset [0..<L]"
proof -
  have "distinct (map (\<lambda>i. i mod L) [a..<a + L])"
  proof (rule distinct_map [THEN iffD2], intro conjI inj_onI)
    fix x y assume "x \<in> set [a..<a + L]" "y \<in> set [a..<a + L]" "x mod L = y mod L"
    then have "int L dvd int x - int y" "\<bar>int x - int y\<bar> < int L"
      by (auto simp: mod_eq_dvd_iff [symmetric] zmod_int [symmetric])
    then show "x = y" by (metis abs_dvd_iff abs_of_nat dvd_imp_le_int eq_iff_diff_eq_0 linorder_not_less of_nat_eq_iff abs_ge_zero)
  qed simp
  moreover have "set (map (\<lambda>i. i mod L) [a..<a + L]) \<subseteq> set [0..<L]" using assms by auto
  moreover have "length (map (\<lambda>i. i mod L) [a..<a + L]) = length [0..<L]" by simp
  ultimately have "set (map (\<lambda>i. i mod L) [a..<a + L]) = set [0..<L]"
    by (metis card_subset_eq distinct_card distinct_upt finite_set length_upt)
  then show ?thesis using \<open>distinct (map (\<lambda>i. i mod L) [a..<a + L])\<close> by (simp only: set_eq_iff_mset_eq_distinct [symmetric] distinct_upt)
qed

lemma window_addrs:
  assumes "0 < length as"
  shows "mset (map (\<lambda>i. as ! (i mod length as)) [a..<a + length as]) = mset as"
proof -
  have "map (\<lambda>i. as ! (i mod length as)) [a..<a + length as] = map (nth as) (map (\<lambda>i. i mod length as) [a..<a + length as])" by simp
  then have "mset (map (\<lambda>i. as ! (i mod length as)) [a..<a + length as]) = image_mset (nth as) (mset (map (\<lambda>i. i mod length as) [a..<a + length as]))"
    by (metis mset_map)
  also have "\<dots> = image_mset (nth as) (mset [0..<length as])" by (simp only: mset_mod_window [OF assms])
  also have "\<dots> = mset as" by (metis map_nth mset_map)
  finally show ?thesis .
qed

section \<open>When the counter overflows\<close>

lemma next_addr_negative:
  assumes "sint (currentMux mpa + 1) < 0" "0 < length (addresseMuxes mpa)" "length (addresseMuxes mpa) < 2147483648"
  shows "next_addr mpa = (if int (length (addresseMuxes mpa)) dvd sint (currentMux mpa + 1)
    then Some (addresseMuxes mpa ! 0, mpa\<lparr>currentMux := currentMux mpa + 1\<rparr>) else None)"
proof -
  let ?c = "sint (currentMux mpa + 1)" and ?L = "int (length (addresseMuxes mpa))"
  have s: "sint (word_of_nat (length (addresseMuxes mpa)) :: u32) = ?L" using assms by (simp add: sint_small)
  have m: "?c smod ?L = - ((- ?c) mod ?L)" using assms by (intro smod_neg) simp_all
  have b: "0 \<le> (- ?c) mod ?L" using assms by simp
  have d: "?L dvd ?c \<longleftrightarrow> (- ?c) mod ?L = 0" by (simp add: mod_eq_0_iff_dvd)
  show ?thesis
  proof (cases "(- ?c) mod ?L = 0")
    case True then show ?thesis unfolding next_addr_def Let_def using assms(2) by (simp add: s m d)
  next
    case False
    then have "\<not> 0 \<le> ?c smod ?L" using b unfolding m by linarith
    then show ?thesis unfolding next_addr_def Let_def using assms(2) False by (simp add: s d)
  qed
qed

lemma next_overflow:
  assumes "currentMux mpa = 0x7fffffff" "1 < length (addresseMuxes mpa)" "length (addresseMuxes mpa) < 2147483648"
  shows "next_addr mpa = None \<or> (\<exists>a mpa'. next_addr mpa = Some (a, mpa') \<and> next_addr mpa' = None)"
proof -
  let ?L = "int (length (addresseMuxes mpa))"
  have c: "currentMux mpa + 1 = (0x80000000 :: u32)" using assms(1) by simp
  have s: "sint (0x80000000 :: u32) = - 2147483648" "sint (0x80000001 :: u32) = - 2147483647"
    using int_word_sint [of "0x80000000", where 'a = 32] int_word_sint [of "0x80000001", where 'a = 32] by simp_all
  have L: "0 < length (addresseMuxes mpa)" using assms(2) by linarith
  note n = next_addr_negative [OF _ L assms(3)]
  show ?thesis
  proof (cases "?L dvd - 2147483648")
    case False
    have "sint (currentMux mpa + 1) = - 2147483648" unfolding c by (rule s)
    from n [unfolded this] False have "next_addr mpa = None" by simp
    then show ?thesis ..
  next
    case True
    let ?m = "mpa\<lparr>currentMux := 0x80000000\<rparr>"
    have "sint (currentMux mpa + 1) = - 2147483648" unfolding c by (rule s)
    from n [unfolded this] True have 1: "next_addr mpa = Some (addresseMuxes mpa ! 0, ?m)" by (simp add: assms(1))
    have nd: "\<not> ?L dvd - 2147483647"
    proof
      assume "?L dvd - 2147483647"
      then have "?L dvd (- 2147483647 - (- 2147483648))" using True by (rule dvd_diff)
      then show False using assms(2) by simp
    qed
    have "sint (currentMux ?m + 1) = - 2147483647" using s(2) by simp
    with next_addr_negative [of ?m] L assms(3) nd have "next_addr ?m = None" by simp
    with 1 show ?thesis by blast
  qed
qed

lemma next_calls_add:
  "next_calls (m + n) mpa = do { (as, mpa) \<leftarrow> next_calls m mpa; (bs, mpa) \<leftarrow> next_calls n mpa; Some (as @ bs, mpa) }"
  by (induction m arbitrary: mpa) (auto split: bind_splits)

lemma next_calls_overflow:
  assumes "currentMux mpa = 0" "1 < length (addresseMuxes mpa)" "length (addresseMuxes mpa) < 2147483648"
  shows "next_calls 2147483649 mpa = None"
proof -
  let ?m = "mpa\<lparr>currentMux := 0x7fffffff\<rparr>"
  have c: "currentMux mpa = word_of_nat 0" using assms(1) by simp
  have "next_calls 2147483647 mpa = Some (map (\<lambda>i. addresseMuxes mpa ! (i mod length (addresseMuxes mpa))) [Suc 0..<Suc (0 + 2147483647)], ?m)"
    using next_calls_eq [OF _ assms(3) c, of 2147483647] assms(2) by fastforce
  then obtain as where f: "next_calls 2147483647 mpa = Some (as, ?m)" by blast
  have "next_calls 2 ?m = None" using next_overflow [of ?m] assms(2,3) by (auto simp: numeral_2_eq_2)
  then have "next_calls (2147483647 + 2) mpa = None" unfolding next_calls_add f by simp
  moreover have "(2147483649 :: nat) = 2147483647 + 2" by simp
  ultimately show ?thesis by (simp only:)
qed

section \<open>Grouping the addresses\<close>

text \<open>Groups as the map holds them: one per address, none empty, all members under its key.\<close>

fun in_group :: "IP \<Rightarrow> addr \<Rightarrow> bool" where
  "in_group key (UDPAddr ip port) \<longleftrightarrow> ip_key ip = key"
| "in_group key NotUDPAddr \<longleftrightarrow> False"

definition groups_ok :: "(IP \<times> multiPortsAddress) list \<Rightarrow> bool" where
  "groups_ok gs \<longleftrightarrow> distinct (map fst gs) \<and>
     (\<forall>(key, mpa) \<in> set gs. addresseMuxes mpa \<noteq> [] \<and> currentMux mpa = 0 \<and> (\<forall>a \<in> set (addresseMuxes mpa). in_group key a))"

lemma insert_keys: "set (map fst (insert_addr gs key a)) = insert key (set (map fst gs))"
  by (induction gs key a rule: insert_addr.induct) auto

lemma insert_ok:
  "groups_ok gs \<Longrightarrow> in_group key a \<Longrightarrow> groups_ok (insert_addr gs key a) \<and>
   mset (concat (map (addresseMuxes \<circ> snd) (insert_addr gs key a))) = add_mset a (mset (concat (map (addresseMuxes \<circ> snd) gs)))"
proof (induction gs key a rule: insert_addr.induct)
  case (2 k mpa gs key a)
  have ok: "groups_ok gs" using 2(2) by (auto simp: groups_ok_def)
  show ?case
  proof (cases "k = key")
    case True then show ?thesis using 2(2,3) by (auto simp: groups_ok_def)
  next
    case False
    with 2 ok insert_keys [of gs key a] show ?thesis by (auto simp: groups_ok_def)
  qed
qed (simp add: groups_ok_def)

lemma group_addrs_ok:
  "group_addrs gs addrs = Some gs' \<Longrightarrow> groups_ok gs \<Longrightarrow> groups_ok gs' \<and>
   mset (concat (map (addresseMuxes \<circ> snd) gs')) = mset (concat (map (addresseMuxes \<circ> snd) gs)) + mset addrs"
  by (induction gs addrs rule: group_addrs.induct) (simp_all add: insert_ok)

lemma group_addrs_Some: "NotUDPAddr \<notin> set addrs \<Longrightarrow> \<exists>gs'. group_addrs gs addrs = Some gs'"
  by (induction gs addrs rule: group_addrs.induct) auto

section \<open>Calls of GetListenAddresses\<close>

text \<open>A group after \<open>c\<close> calls, and what the next call gives.\<close>

definition group_at :: "nat \<Rightarrow> multiPortsAddress \<Rightarrow> bool" where
  "group_at c mpa \<longleftrightarrow> currentMux mpa = word_of_nat c \<and> addresseMuxes mpa \<noteq> [] \<and> length (addresseMuxes mpa) < 2147483648"

definition turn :: "nat \<Rightarrow> multiPortsAddress \<Rightarrow> addr" where
  "turn c mpa = addresseMuxes mpa ! (Suc c mod length (addresseMuxes mpa))"

lemma next_addrs_eq:
  "list_all (group_at c) mpas \<Longrightarrow> Suc c < 2147483648 \<Longrightarrow>
   next_addrs mpas = Some (map (turn c) mpas, map (\<lambda>mpa. mpa\<lparr>currentMux := word_of_nat (Suc c)\<rparr>) mpas)"
  by (induction mpas) (simp_all add: group_at_def turn_def next_addr_step)

text \<open>The mux after \<open>c\<close> calls.\<close>

fun listen_calls :: "nat \<Rightarrow> MultiPortsUDPMux \<Rightarrow> MultiPortsUDPMux option" where
  "listen_calls 0 m = Some m"
| "listen_calls (Suc c) m = do { m \<leftarrow> listen_calls c m; (_, m) \<leftarrow> GetListenAddresses m; Some m }"

lemma listen_calls_eq:
  "list_all (group_at 0) (multiPortsAddresses m) \<Longrightarrow> c < 2147483648 \<Longrightarrow>
   listen_calls c m = Some (m\<lparr>multiPortsAddresses := map (\<lambda>mpa. mpa\<lparr>currentMux := word_of_nat c\<rparr>) (multiPortsAddresses m)\<rparr>)"
proof (induction c)
  case 0
  then have "map (\<lambda>mpa. mpa\<lparr>currentMux := 0\<rparr>) (multiPortsAddresses m) = multiPortsAddresses m"
    by (intro map_idI) (simp add: list_all_iff group_at_def)
  then show ?case by simp
next
  case (Suc c)
  let ?gs = "map (\<lambda>mpa. mpa\<lparr>currentMux := word_of_nat c\<rparr>) (multiPortsAddresses m)"
  have "list_all (group_at c) ?gs" using Suc.prems by (simp add: list_all_iff group_at_def)
  with Suc have "next_addrs ?gs = Some (map (turn c) ?gs, map (\<lambda>mpa. mpa\<lparr>currentMux := word_of_nat (Suc c)\<rparr>) ?gs)"
    by (intro next_addrs_eq) simp_all
  then show ?case using Suc by (simp add: GetListenAddresses_def comp_def del: of_nat_Suc)
qed

section \<open>One address per group\<close>

lemma mset_concat_map: "mset xs = mset ys \<Longrightarrow> mset (concat (map f xs)) = mset (concat (map f ys))"
proof -
  assume "mset xs = mset ys"
  then have "sum_mset (image_mset (\<lambda>x. mset (f x)) (mset xs)) = sum_mset (image_mset (\<lambda>x. mset (f x)) (mset ys))" by simp
  then show ?thesis by (simp add: mset_concat sum_mset_sum_list [symmetric] comp_def)
qed

lemma groups_ok_perm: "groups_ok gs \<Longrightarrow> mset os = mset gs \<Longrightarrow> groups_ok os"
proof -
  assume g: "groups_ok gs" and m: "mset os = mset gs"
  have "mset (map fst os) = mset (map fst gs)" using m by simp
  then have "distinct (map fst os) = distinct (map fst gs)" by (rule mset_eq_imp_distinct_iff)
  moreover have "set os = set gs" using m by (rule mset_eq_setD)
  ultimately show ?thesis using g by (simp add: groups_ok_def)
qed

lemma group_length: "(key, mpa) \<in> set os \<Longrightarrow> length (addresseMuxes mpa) \<le> length (concat (map (addresseMuxes \<circ> snd) os))"
proof -
  assume "(key, mpa) \<in> set os"
  then obtain ys zs where "os = ys @ (key, mpa) # zs" by (meson split_list)
  then show ?thesis by simp
qed

lemma in_group_unique: "in_group k a \<Longrightarrow> in_group k' a \<Longrightarrow> k = k'"
  by (cases a) auto

text \<open>The balanced addresses after \<open>c\<close> calls of groups in the order \<open>os\<close>.\<close>

definition balanced :: "nat \<Rightarrow> (IP \<times> multiPortsAddress) list \<Rightarrow> addr list" where
  "balanced c os = map (turn c) (map snd os)"

lemma turn_member:
  assumes "groups_ok os" "(key, mpa) \<in> set os"
  shows "turn c mpa \<in> set (addresseMuxes mpa)" "in_group key (turn c mpa)"
proof -
  have ne: "addresseMuxes mpa \<noteq> []" "\<forall>a \<in> set (addresseMuxes mpa). in_group key a" using assms by (auto simp: groups_ok_def)
  then show "turn c mpa \<in> set (addresseMuxes mpa)" by (simp add: turn_def)
  with ne(2) show "in_group key (turn c mpa)" by blast
qed

lemma balanced_members: "groups_ok os \<Longrightarrow> set (balanced c os) \<subseteq> set (concat (map (addresseMuxes \<circ> snd) os))"
  by (force simp: balanced_def dest: turn_member(1))

lemma balanced_unique:
  assumes ok: "groups_ok os" and a: "UDPAddr ip port \<in> set (concat (map (addresseMuxes \<circ> snd) os))"
  shows "\<exists>!i. i < length (balanced c os) \<and> in_group (ip_key ip) (balanced c os ! i)"
proof -
  obtain key mpa where k: "(key, mpa) \<in> set os" "UDPAddr ip port \<in> set (addresseMuxes mpa)" using a by auto
  then have "in_group key (UDPAddr ip port)" using ok by (fastforce simp: groups_ok_def)
  then have key: "key = ip_key ip" by simp
  have at: "in_group (ip_key ip) (balanced c os ! i) \<longleftrightarrow> fst (os ! i) = ip_key ip" if "i < length os" for i
  proof -
    have "in_group (fst (os ! i)) (balanced c os ! i)"
      using turn_member(2) [OF ok, of "fst (os ! i)" "snd (os ! i)"] that by (simp add: balanced_def)
    then show ?thesis using in_group_unique by metis
  qed
  obtain i where i: "i < length os" "fst (os ! i) = ip_key ip" using k(1) key by (metis fst_conv in_set_conv_nth)
  have dk: "distinct (map fst os)" using ok by (simp add: groups_ok_def)
  have len: "length (balanced c os) = length os" by (simp add: balanced_def)
  show ?thesis
  proof (intro ex1I [of _ i] conjI)
    show "i < length (balanced c os)" "in_group (ip_key ip) (balanced c os ! i)" using i at by (simp_all add: len)
    fix j assume "j < length (balanced c os) \<and> in_group (ip_key ip) (balanced c os ! j)"
    then have j0: "j < length os" "in_group (ip_key ip) (balanced c os ! j)" by (simp_all add: len)
    then have j: "j < length os" "fst (os ! j) = fst (os ! i)" using at [OF j0(1)] i by simp_all
    then show "j = i" using nth_eq_iff_index_eq [OF dk, of j i] i by simp
  qed
qed

lemma turn_counter [simp]: "turn c (mpa\<lparr>currentMux := x\<rparr>) = turn c mpa"
  by (simp add: turn_def)

lemma GetListenAddresses_at:
  assumes "list_all (group_at 0) (multiPortsAddresses m)" "multiPortsAddresses m = map snd os" "Suc c < 2147483648"
  shows "\<exists>m' m''. listen_calls c m = Some m' \<and> GetListenAddresses m' = Some (balanced c os @ concat (standalonePortMuxes m), m'')"
proof -
  let ?gs = "map (\<lambda>mpa. mpa\<lparr>currentMux := word_of_nat c\<rparr>) (multiPortsAddresses m)"
  have "list_all (group_at c) ?gs" using assms(1) by (simp add: list_all_iff group_at_def)
  from next_addrs_eq [OF this assms(3)]
  have "\<exists>m''. GetListenAddresses (m\<lparr>multiPortsAddresses := ?gs\<rparr>) = Some (balanced c os @ concat (standalonePortMuxes m), m'')"
    by (simp add: GetListenAddresses_def balanced_def assms(2) comp_def)
  then show ?thesis using listen_calls_eq [OF assms(1), of c] assms(3) by auto
qed

section \<open>Properties\<close>

text \<open>
  C28. The ports of an address are taken in turn: after any number \<open>k\<close> of calls as many calls as there are ports return
  every one exactly once. The turn ends with the counter: with two ports or more, call number \<open>2 ^ 31\<close> or the one
  after it computes a negative index and panics.
\<close>

theorem multiports_round_robin:
  assumes "currentMux mpa = 0" "addresseMuxes mpa \<noteq> []" "k + length (addresseMuxes mpa) < 2147483648"
  shows "(\<exists>as mpa' bs mpa''. next_calls k mpa = Some (as, mpa') \<and>
      next_calls (length (addresseMuxes mpa)) mpa' = Some (bs, mpa'') \<and> mset bs = mset (addresseMuxes mpa)) \<and>
    (1 < length (addresseMuxes mpa) \<longrightarrow> next_calls 2147483649 mpa = None)"
proof
  let ?L = "length (addresseMuxes mpa)"
  let ?m = "mpa\<lparr>currentMux := word_of_nat k\<rparr>"
  have L: "0 < ?L" "?L < 2147483648" and c: "currentMux mpa = word_of_nat 0" using assms by simp_all
  have 1: "next_calls k mpa = Some (map (\<lambda>i. addresseMuxes mpa ! (i mod ?L)) [Suc 0..<Suc (0 + k)], ?m)"
    using next_calls_eq [OF L c, of k] assms(3) by simp
  have 2: "next_calls ?L ?m = Some (map (\<lambda>i. addresseMuxes mpa ! (i mod ?L)) [Suc k..<Suc (k + ?L)], ?m\<lparr>currentMux := word_of_nat (k + ?L)\<rparr>)"
    using next_calls_eq [of ?m k ?L] L assms(3) by (simp add: Suc_le_eq)
  have "mset (map (\<lambda>i. addresseMuxes mpa ! (i mod ?L)) [Suc k..<Suc (k + ?L)]) = mset (addresseMuxes mpa)"
    using window_addrs [OF L(1), of "Suc k"] by (simp only: add_Suc)
  with 1 2 show "\<exists>as mpa' bs mpa''. next_calls k mpa = Some (as, mpa') \<and>
      next_calls ?L mpa' = Some (bs, mpa'') \<and> mset bs = mset (addresseMuxes mpa)" by blast
  show "1 < ?L \<longrightarrow> next_calls 2147483649 mpa = None" using next_calls_overflow [OF assms(1)] L(2) by blast
qed

theorem multiports_round_robin_witness:
  "\<exists>as mpa' bs mpa''. next_calls 5 \<lparr>addresseMuxes = [UDPAddr [10, 0, 0, 1] 7881, UDPAddr [10, 0, 0, 1] 7882], currentMux = 0\<rparr> = Some (as, mpa') \<and>
     next_calls 2 mpa' = Some (bs, mpa'') \<and> mset bs = {#UDPAddr [10, 0, 0, 1] 7881, UDPAddr [10, 0, 0, 1] 7882#}"
  using multiports_round_robin [of "\<lparr>addresseMuxes = [UDPAddr [10, 0, 0, 1] 7881, UDPAddr [10, 0, 0, 1] 7882], currentMux = 0\<rparr>" 5]
  by (simp add: numeral_2_eq_2)

text \<open>
  C29. A mux made of muxes that listen on UDP addresses groups them by IP, whatever order the map is gone through, keeping
  every address; each of the first \<open>2 ^ 31 - 1\<close> calls of \<open>GetListenAddresses\<close> then returns exactly one address per IP, one
  of those given for it, followed by all the addresses of the standalone muxes.
\<close>

theorem listen_addresses:
  assumes "\<And>gs. mset (order gs) = mset gs" "NotUDPAddr \<notin> set (concat muxes)" "length (concat muxes) < 2147483648" "Suc c < 2147483648"
  shows "\<exists>m m' m'' bs. NewMultiPortsUDPMux order muxes standalone = Some m \<and>
    mset (concat (map addresseMuxes (multiPortsAddresses m))) = mset (concat muxes) \<and>
    listen_calls c m = Some m' \<and> GetListenAddresses m' = Some (bs @ concat standalone, m'') \<and>
    set bs \<subseteq> set (concat muxes) \<and>
    (\<forall>ip port. UDPAddr ip port \<in> set (concat muxes) \<longrightarrow> (\<exists>!i. i < length bs \<and> in_group (ip_key ip) (bs ! i)))"
proof -
  obtain gs where gs: "group_addrs [] (concat muxes) = Some gs" using group_addrs_Some [OF assms(2)] by blast
  have g: "groups_ok gs" "mset (concat (map (addresseMuxes \<circ> snd) gs)) = mset (concat muxes)"
    using group_addrs_ok [OF gs] by (simp_all add: groups_ok_def)
  define os where "os = order gs"
  have ok: "groups_ok os" and all: "mset (concat (map (addresseMuxes \<circ> snd) os)) = mset (concat muxes)"
    using groups_ok_perm [OF g(1)] mset_concat_map g(2) assms(1) unfolding os_def by metis+
  then have sa: "set (concat (map (addresseMuxes \<circ> snd) os)) = set (concat muxes)" by (metis set_mset_mset)
  have len: "length (concat (map (addresseMuxes \<circ> snd) os)) < 2147483648" using all assms(3) by (metis size_mset)
  define m where "m = \<lparr>multiPortsAddresses = map snd os, standalonePortMuxes = standalone\<rparr>"
  have "list_all (group_at 0) (multiPortsAddresses m)"
    using ok le_less_trans [OF group_length len] by (fastforce simp: list_all_iff m_def group_at_def groups_ok_def)
  from GetListenAddresses_at [OF this, of os c] assms(4) obtain m' m'' where
    "listen_calls c m = Some m'" "GetListenAddresses m' = Some (balanced c os @ concat standalone, m'')"
    by (auto simp: m_def)
  moreover have "NewMultiPortsUDPMux order muxes standalone = Some m" by (simp add: NewMultiPortsUDPMux_def gs m_def os_def)
  moreover have "mset (concat (map addresseMuxes (multiPortsAddresses m))) = mset (concat muxes)" using all by (simp add: m_def)
  moreover note balanced_members [OF ok, of c, unfolded sa] balanced_unique [OF ok, unfolded sa, of _ _ c]
  ultimately show ?thesis by blast
qed

theorem listen_addresses_witness:
  "\<exists>m m' m'' bs. NewMultiPortsUDPMux rev [[UDPAddr [10, 0, 0, 1] 7881, UDPAddr [10, 0, 0, 2] 7881], [UDPAddr [10, 0, 0, 1] 7882]] [[UDPAddr [10, 0, 0, 1] 3478]] = Some m \<and>
     listen_calls 3 m = Some m' \<and> GetListenAddresses m' = Some (bs @ [UDPAddr [10, 0, 0, 1] 3478], m'') \<and>
     (\<exists>!i. i < length bs \<and> in_group [10, 0, 0, 1] (bs ! i))"
proof -
  have "\<exists>m m' m'' bs. NewMultiPortsUDPMux rev [[UDPAddr [10, 0, 0, 1] 7881, UDPAddr [10, 0, 0, 2] 7881], [UDPAddr [10, 0, 0, 1] 7882]] [[UDPAddr [10, 0, 0, 1] 3478]] = Some m \<and>
    mset (concat (map addresseMuxes (multiPortsAddresses m))) = mset (concat [[UDPAddr [10, 0, 0, 1] 7881, UDPAddr [10, 0, 0, 2] 7881], [UDPAddr [10, 0, 0, 1] 7882]]) \<and>
    listen_calls 3 m = Some m' \<and> GetListenAddresses m' = Some (bs @ concat [[UDPAddr [10, 0, 0, 1] 3478]], m'') \<and>
    set bs \<subseteq> set (concat [[UDPAddr [10, 0, 0, 1] 7881, UDPAddr [10, 0, 0, 2] 7881], [UDPAddr [10, 0, 0, 1] 7882]]) \<and>
    (\<forall>ip port. UDPAddr ip port \<in> set (concat [[UDPAddr [10, 0, 0, 1] 7881, UDPAddr [10, 0, 0, 2] 7881], [UDPAddr [10, 0, 0, 1] 7882]]) \<longrightarrow>
      (\<exists>!i. i < length bs \<and> in_group (ip_key ip) (bs ! i)))"
    by (rule listen_addresses) simp_all
  then show ?thesis by (fastforce simp: ip_key_def To4_def)
qed


section \<open>Connections opened and closed\<close>

fun opened_of :: "'c effect \<Rightarrow> ((IP \<times> int) \<times> 'c) list" where
  "opened_of (Opened ip port c) = [((ip, port), c)]"
| "opened_of _ = []"

fun closed_of :: "'c effect \<Rightarrow> 'c list" where
  "closed_of (Closed c) = [c]"
| "closed_of _ = []"

abbreviation opened :: "'c effect list \<Rightarrow> ((IP \<times> int) \<times> 'c) list" where
  "opened effs \<equiv> concat (map opened_of effs)"

abbreviation closed :: "'c effect list \<Rightarrow> 'c list" where
  "closed effs \<equiv> concat (map closed_of effs)"

definition conn_of :: "('c \<Rightarrow> int \<Rightarrow> int \<Rightarrow> 'c) \<Rightarrow> ('n, 'e) multiUDPMuxFromPortParam \<Rightarrow> 'c \<Rightarrow> 'c" where
  "conn_of batchConn params c = (if batchWriteSize params > 0 then batchConn c (batchWriteSize params) (batchWriteInterval params) else c)"

text \<open>The addresses \<open>todo\<close> were opened up to the first that failed.\<close>

definition listened :: "(IP \<Rightarrow> int \<Rightarrow> 'e + 'c) \<Rightarrow> (IP \<times> int) list \<Rightarrow> ((IP \<times> int) \<times> 'c) list \<Rightarrow> 'e option \<Rightarrow> bool" where
  "listened listen todo opens err \<longleftrightarrow> (\<forall>((ip, port), c) \<in> set opens. listen ip port = Inr c) \<and>
     (case err of None \<Rightarrow> map fst opens = todo
      | Some e \<Rightarrow> \<exists>ip port rest. todo = map fst opens @ (ip, port) # rest \<and> listen ip port = Inl e)"

lemma listen_ports_listened:
  "listen_ports listen batchConn params ip effs conns ports = (effs', err, conns') \<Longrightarrow>
   \<exists>opens. opened effs' = opened effs @ opens \<and> closed effs' = closed effs \<and>
     conns' = conns @ map (conn_of batchConn params \<circ> snd) opens \<and> listened listen (map (Pair ip) ports) opens err"
proof (induction ports arbitrary: effs conns)
  case Nil
  then show ?case by (auto simp: listened_def)
next
  case (Cons port ports)
  show ?case
  proof (cases "listen ip port")
    case (Inl e)
    then show ?thesis using Cons.prems by (intro exI [of _ "[]"]) (auto simp: listened_def)
  next
    case (Inr c)
    let ?effs = "effs @ [Opened ip port c] @ (if readBufferSize params > 0 then [ReadBufferSet c (readBufferSize params)] else []) @
      (if writeBufferSize params > 0 then [WriteBufferSet c (writeBufferSize params)] else [])"
    have "listen_ports listen batchConn params ip ?effs (conns @ [conn_of batchConn params c]) ports = (effs', err, conns')"
      using Cons.prems Inr by (simp add: Let_def conn_of_def)
    from Cons.IH [OF this] obtain opens where o:
      "opened effs' = opened ?effs @ opens" "closed effs' = closed ?effs"
      "conns' = (conns @ [conn_of batchConn params c]) @ map (conn_of batchConn params \<circ> snd) opens"
      "listened listen (map (Pair ip) ports) opens err" by blast
    show ?thesis
      by (rule exI [of _ "((ip, port), c) # opens"]) (use o Inr in \<open>auto simp: listened_def split: option.splits\<close>)
  qed
qed

lemma listened_append:
  "listened listen todo opens None \<Longrightarrow> listened listen todo' opens' err \<Longrightarrow> listened listen (todo @ todo') (opens @ opens') err"
  by (auto simp: listened_def split: option.splits)

lemma listened_fail: "listened listen todo opens (Some e) \<Longrightarrow> listened listen (todo @ todo') opens (Some e)"
  by (auto simp: listened_def)

lemma listen_ips_listened:
  "listen_ips listen batchConn params ports effs conns ips = (effs', err, conns') \<Longrightarrow>
   \<exists>opens. opened effs' = opened effs @ opens \<and> closed effs' = closed effs \<and>
     conns' = conns @ map (conn_of batchConn params \<circ> snd) opens \<and> listened listen (List.product ips ports) opens err"
proof (induction ips arbitrary: effs conns)
  case Nil
  then show ?case by (auto simp: listened_def)
next
  case (Cons ip ips)
  obtain effs1 err1 conns1 where l: "listen_ports listen batchConn params ip effs conns ports = (effs1, err1, conns1)"
    by (cases "listen_ports listen batchConn params ip effs conns ports")
  from listen_ports_listened [OF l] obtain opens1 where o1:
    "opened effs1 = opened effs @ opens1" "closed effs1 = closed effs"
    "conns1 = conns @ map (conn_of batchConn params \<circ> snd) opens1" "listened listen (map (Pair ip) ports) opens1 err1" by blast
  show ?case
  proof (cases err1)
    case None
    then have "listen_ips listen batchConn params ports effs1 conns1 ips = (effs', err, conns')" using Cons.prems l by simp
    from Cons.IH [OF this] obtain opens where o:
      "opened effs' = opened effs1 @ opens" "closed effs' = closed effs1"
      "conns' = conns1 @ map (conn_of batchConn params \<circ> snd) opens" "listened listen (List.product ips ports) opens err" by blast
    have "listened listen (List.product (ip # ips) ports) (opens1 @ opens) err"
      using listened_append o1(4) o(4) None by simp
    then show ?thesis by (intro exI [of _ "opens1 @ opens"]) (use o o1 in simp)
  next
    case (Some e)
    have "listened listen (List.product (ip # ips) ports) opens1 err"
      using o1(4) Cons.prems l Some listened_fail by fastforce
    then show ?thesis by (intro exI [of _ opens1]) (use o1 Cons.prems l Some in auto)
  qed
qed

lemma CreateUDPMuxesFromPorts_spec:
  assumes "CreateUDPMuxesFromPorts isIPv4 isIPv6 udp4_udp6 newNet listen batchConn newMux ports opts = (effs, res)"
    and "params = fold (\<lambda>opt. opt) opts \<lparr>ifFilter = None, ipFilter = None, networks = udp4_udp6, readBufferSize = 0,
      writeBufferSize = 0, includeLoopback = False, net = None, batchWriteSize = 0, batchWriteInterval = 0\<rparr>"
  shows "case (case net params of Some n \<Rightarrow> Inr n | None \<Rightarrow> newNet) of
      Inl e \<Rightarrow> effs = [] \<and> res = Inl e
    | Inr n \<Rightarrow>
       (case localInterfaces n (ifFilter params) (ipFilter params) isIPv4 isIPv6 (networks params) (includeLoopback params) of
          Inl e \<Rightarrow> effs = [] \<and> res = Inl e
        | Inr ips \<Rightarrow>
           let conns = map (conn_of batchConn params \<circ> snd) (opened effs) in
           (case res of
              Inr muxes \<Rightarrow> listened listen (List.product ips ports) (opened effs) None \<and> muxes = map newMux conns \<and> closed effs = []
            | Inl e \<Rightarrow> listened listen (List.product ips ports) (opened effs) (Some e) \<and> closed effs = conns))"
proof (cases "case net params of Some n \<Rightarrow> Inr n | None \<Rightarrow> newNet")
  case (Inl e)
  then show ?thesis using assms by (auto simp: CreateUDPMuxesFromPorts_def Let_def)
next
  case n: (Inr n)
  show ?thesis
  proof (cases "localInterfaces n (ifFilter params) (ipFilter params) isIPv4 isIPv6 (networks params) (includeLoopback params)")
    case (Inl e)
    then show ?thesis using assms n by (auto simp: CreateUDPMuxesFromPorts_def Let_def)
  next
    case (Inr ips)
    obtain effs1 err conns where l: "listen_ips listen batchConn params ports [] [] ips = (effs1, err, conns)"
      by (cases "listen_ips listen batchConn params ports [] [] ips")
    have c: "concat (map (\<lambda>x. []) xs) = []" "concat (map (\<lambda>x. [f x]) xs) = map f xs" for f :: "'x \<Rightarrow> 'y" and xs by (induction xs) auto
    have r: "(effs, res) = (case err of Some e \<Rightarrow> (effs1 @ map Closed conns, Inl e) | None \<Rightarrow> (effs1, Inr (map newMux conns)))"
      using assms(1) unfolding CreateUDPMuxesFromPorts_def Let_def assms(2) [symmetric] n by (simp add: Inr l split: option.splits)
    from listen_ips_listened [OF l] r Inr n show ?thesis by (cases err) (auto simp: Let_def c comp_def)
  qed
qed

text \<open>Every local address the code listens on has passed the filter for addresses.\<close>

lemma addrs_loop_filtered:
  "ip \<in> set (addrs_loop v4 v6 (Some f) lo ips addrs) \<Longrightarrow> ip \<in> set ips \<or> f ip"
proof (induction addrs arbitrary: ips)
  case (Cons addr addrs)
  from Cons.IH [OF Cons.prems [unfolded addrs_loop.simps Let_def]] show ?case by (auto split: if_splits)
qed simp

lemma ifaces_loop_filtered:
  "ip \<in> set (ifaces_loop v4 v6 g (Some f) lo ips ifaces) \<Longrightarrow> ip \<in> set ips \<or> f ip"
proof (induction ifaces arbitrary: ips)
  case (Cons i ifaces)
  from Cons.IH [OF Cons.prems [unfolded ifaces_loop.simps Let_def]] show ?case
    by (auto split: if_splits sum.splits dest: addrs_loop_filtered)
qed simp

lemma localInterfaces_filtered:
  "localInterfaces n g (Some f) isIPv4 isIPv6 nets lo = Inr ips \<Longrightarrow> ip \<in> set ips \<Longrightarrow> f ip"
  using ifaces_loop_filtered [where ips = "[]"] by (fastforce simp: localInterfaces_def split: sum.splits)

section \<open>Properties\<close>

text \<open>
  C30. Creating the muxes leaks no connection. The network is the one the options set, or else the default one. With local
  addresses \<open>ips\<close> on it the code listens on every address and port in order; when all succeed there is one mux per
  connection, in that order, and none is closed; when one fails its error is returned and every connection opened
  before it is closed exactly once. When the default network cannot be made, or the network does not give its interfaces,
  that error is returned with nothing opened.
\<close>

theorem create_muxes:
  assumes "CreateUDPMuxesFromPorts isIPv4 isIPv6 udp4_udp6 newNet listen batchConn newMux ports opts = (effs, res)"
    and "params = fold (\<lambda>opt. opt) opts \<lparr>ifFilter = None, ipFilter = None, networks = udp4_udp6, readBufferSize = 0,
      writeBufferSize = 0, includeLoopback = False, net = None, batchWriteSize = 0, batchWriteInterval = 0\<rparr>"
  shows "case (case net params of Some n \<Rightarrow> Inr n | None \<Rightarrow> newNet) of
      Inl e \<Rightarrow> effs = [] \<and> res = Inl e
    | Inr n \<Rightarrow>
       (case localInterfaces n (ifFilter params) (ipFilter params) isIPv4 isIPv6 (networks params) (includeLoopback params) of
          Inl e \<Rightarrow> effs = [] \<and> res = Inl e
        | Inr ips \<Rightarrow>
           let conns = map (conn_of batchConn params \<circ> snd) (opened effs) in
           (case res of
              Inr muxes \<Rightarrow> listened listen (List.product ips ports) (opened effs) None \<and> muxes = map newMux conns \<and> closed effs = []
            | Inl e \<Rightarrow> listened listen (List.product ips ports) (opened effs) (Some e) \<and> closed effs = conns))"
  by (rule CreateUDPMuxesFromPorts_spec [OF assms])

theorem create_muxes_witness:
  "\<exists>effs. CreateUDPMuxesFromPorts (\<lambda>_ :: unit. True) (\<lambda>_. False) [()]
      (Inr (Inr [\<lparr>if_Name = ''eth0'', if_Flags = 1, if_Addrs = Inr [IPNet [10, 0, 0, 1]]\<rparr>]))
      (\<lambda>ip port. if port = 7883 then Inl ''in use'' else Inr port) (\<lambda>c _ _. c) id [7881, 7883, 7882]
      [UDPMuxFromPortWithReadBufferSize 4096] = (effs, Inl ''in use'') \<and>
    opened effs = [(([10, 0, 0, 1], 7881), 7881)] \<and> closed effs = [7881]"
proof -
  let ?n = "Inr [\<lparr>if_Name = ''eth0'', if_Flags = 1, if_Addrs = Inr [IPNet [10, 0, 0, 1 :: byte]] :: string + net_addr list\<rparr>] :: string + string iface list"
  let ?p = "fold (\<lambda>opt. opt) [UDPMuxFromPortWithReadBufferSize 4096] \<lparr>ifFilter = None, ipFilter = None, networks = [()], readBufferSize = 0,
      writeBufferSize = 0, includeLoopback = False, net = None, batchWriteSize = 0, batchWriteInterval = 0\<rparr>"
  have p: "net ?p = None" "batchWriteSize ?p = 0" by (simp_all add: UDPMuxFromPortWithReadBufferSize_def)
  obtain effs res where c: "CreateUDPMuxesFromPorts (\<lambda>_ :: unit. True) (\<lambda>_. False) [()] (Inr ?n)
      (\<lambda>ip port :: int. if port = 7883 then Inl ''in use'' else Inr port) (\<lambda>c _ _. c) id [7881, 7883, 7882]
      [UDPMuxFromPortWithReadBufferSize 4096] = (effs, res)"
    by fastforce
  have li: "localInterfaces ?n (ifFilter ?p) (ipFilter ?p)
      (\<lambda>_ :: unit. True) (\<lambda>_. False) (networks ?p) (includeLoopback ?p) = Inr [[10, 0, 0, 1]]"
    by (simp add: localInterfaces_def UDPMuxFromPortWithReadBufferSize_def FlagUp_def FlagLoopback_def IsLoopback_def To4_def)
  from create_muxes [OF c refl] have
    "case res of Inr muxes \<Rightarrow> listened (\<lambda>ip port :: int. if port = 7883 then Inl ''in use'' else Inr port) [([10, 0, 0, 1], 7881), ([10, 0, 0, 1], 7883), ([10, 0, 0, 1], 7882)] (opened effs) None
     | Inl e \<Rightarrow> listened (\<lambda>ip port :: int. if port = 7883 then Inl ''in use'' else Inr port) [([10, 0, 0, 1], 7881), ([10, 0, 0, 1], 7883), ([10, 0, 0, 1], 7882)] (opened effs) (Some e) \<and>
         closed effs = map snd (opened effs)"
    unfolding p option.case sum.case li by (auto simp: Let_def conn_of_def p comp_def split: sum.splits)
  moreover obtain os where "os = opened effs" by blast
  ultimately have "res = Inl ''in use'' \<and> os = [(([10, 0, 0, 1], 7881), 7881)] \<and> closed effs = [7881]"
    unfolding \<open>os = opened effs\<close> [symmetric]
    by (auto simp: listened_def map_eq_Cons_conv Cons_eq_append_conv split: sum.splits if_splits)
  with c \<open>os = opened effs\<close> show ?thesis by (intro exI [of _ effs]) simp
qed

end
