(* ===== verification/Webrtc_Config.thy ===== *)
theory Webrtc_Config
  imports Rtc_Config Net_CIDR Transport "HOL-Library.AList"
begin

text \<open>
  The settings a node gives to \<^verbatim>\<open>pion/webrtc\<close>, \<^verbatim>\<open>pkg/rtcconfig/webrtc_config.go\<close>: the filters of the configuration, the
  mapping of local to external addresses and the settings themselves, as the list of calls on the setting engine. What
  the calls into \<^verbatim>\<open>pion\<close>, sockets and STUN lookups return is an argument. An outer \<open>None\<close> is a panic, or a call that still waits.
\<close>

section \<open>Filters\<close>

definition InterfaceFilterFromConf :: "InterfacesConfig \<Rightarrow> string \<Rightarrow> bool" where
  "InterfaceFilterFromConf ifs s =
    (if length (Includes ifs) > 0 then s \<in> set (Includes ifs)
     else if length (Excludes ifs) > 0 \<and> s \<in> set (Excludes ifs) then False
     else True)"

datatype 'e webrtc_error = ConfigError "'e config_error" | InvalidCIDR string | ForcedTCP | PionError 'e

fun parse_nets :: "string list \<Rightarrow> 'e webrtc_error + ip_net list" where
  "parse_nets [] = Inr []"
| "parse_nets (ip # ips) =
    (case ParseCIDR ip of
       None \<Rightarrow> Inl (InvalidCIDR ip)
     | Some n \<Rightarrow> (case parse_nets ips of Inl e \<Rightarrow> Inl e | Inr ns \<Rightarrow> Inr (n # ns)))"

definition IPFilterFromConf :: "IPsConfig \<Rightarrow> 'e webrtc_error + (IP \<Rightarrow> bool)" where
  "IPFilterFromConf ips =
    (case parse_nets (Includes ips) of
       Inl e \<Rightarrow> Inl e
     | Inr includes \<Rightarrow> (case parse_nets (Excludes ips) of
         Inl e \<Rightarrow> Inl e
       | Inr excludes \<Rightarrow> Inr (\<lambda>ip.
           if length includes > 0 then list_ex (\<lambda>n. IPNet_Contains n ip) includes
           else if length excludes > 0 \<and> list_ex (\<lambda>n. IPNet_Contains n ip) excludes then False
           else True)))"

section \<open>Address rewrite rules\<close>

datatype rewrite_mode = Unspecified | Append

text \<open>All rules are for host candidates.\<close>

record rewrite_rule =
  External :: "string list"
  Local :: string
  Mode :: rewrite_mode

fun rules_loop :: "rewrite_mode \<Rightarrow> string list \<Rightarrow> rewrite_rule list \<Rightarrow> string list \<Rightarrow> rewrite_rule list \<times> string list" where
  "rules_loop mode [] rules catchAll = (rules, catchAll)"
| "rules_loop mode (ip # ips) rules catchAll =
    (let parts = Split ip (CHR ''/'') in
     if length parts = 2 then rules_loop mode ips (rules @ [\<lparr>External = [parts ! 0], Local = parts ! 1, Mode = mode\<rparr>]) catchAll
     else rules_loop mode ips rules (catchAll @ [ip]))"

definition nat1To1AddressRewriteRules :: "string list \<Rightarrow> bool \<Rightarrow> rewrite_rule list" where
  "nat1To1AddressRewriteRules ips includeInternal =
    (let mode = (if includeInternal then Append else Unspecified);
         (rules, catchAll) = rules_loop mode ips [] []
     in if length catchAll > 0 then rules @ [\<lparr>External = catchAll, Local = [], Mode = mode\<rparr>] else rules)"

definition iceServerForStunServers :: "string list \<Rightarrow> string list" where
  "iceServerForStunServers servers = map (\<lambda>s. ''stun:'' @ s) servers"

section \<open>External addresses of the local ones\<close>

text \<open>\<open>rand k n\<close> is the \<open>k\<close>-th call of \<open>rand.Intn\<close>, which panics unless \<open>n\<close> is positive.\<close>

definition nat_ports :: "(nat \<Rightarrow> int \<Rightarrow> int) \<Rightarrow> RTCConfig \<Rightarrow> int list option" where
  "nat_ports rand conf =
    (if ICEPortRangeStart conf \<noteq> 0 \<and> ICEPortRangeEnd conf \<noteq> 0 then
       let portRangeStart = ucast (ICEPortRangeStart conf) :: u16; portRangeEnd = ucast (ICEPortRangeEnd conf) :: u16;
           n = uint (portRangeEnd - portRangeStart)
       in if n \<le> 0 then None else Some (map (\<lambda>k. rand k n + uint portRangeStart) [0..<5])
     else if Valid (UDPPort conf) then Some [pr_Start (UDPPort conf)]
     else Some [0])"

text \<open>A lookup reports the external address of its local one, the empty string on failure.\<close>

fun lookup_ports :: "(string \<Rightarrow> int \<Rightarrow> 'e + string) \<Rightarrow> ('e \<Rightarrow> bool) \<Rightarrow> string \<Rightarrow> int list \<Rightarrow> string" where
  "lookup_ports getIP inUse localIP [] = []"
| "lookup_ports getIP inUse localIP (port # ports) =
    (case getIP localIP port of
       Inr addr \<Rightarrow> addr
     | Inl err \<Rightarrow> if inUse err then lookup_ports getIP inUse localIP ports else [])"

definition isIPv4 :: "string \<Rightarrow> bool" where
  "isIPv4 ip = (case ParseIP ip of Some p \<Rightarrow> To4 p \<noteq> None | None \<Rightarrow> False)"

record nat_collect =
  pending :: "bool \<Rightarrow> int"
  mapped :: "bool \<Rightarrow> bool"
  firstResolved :: bool
  mappedIPs :: "string list"
  natMapping :: "(string \<times> string) list"
  graceStarted :: nat

definition settled :: "nat_collect \<Rightarrow> bool" where
  "settled c \<longleftrightarrow> \<not> (pending c True > 0 \<and> \<not> mapped c True) \<and> \<not> (pending c False > 0 \<and> \<not> mapped c False)"

definition start_collect :: "string list \<Rightarrow> nat_collect" where
  "start_collect localIPs =
    \<lparr>pending = fold (\<lambda>ip p. p(isIPv4 ip := p (isIPv4 ip) + 1)) localIPs (\<lambda>_. 0), mapped = (\<lambda>_. False),
     firstResolved = False, mappedIPs = [], natMapping = [], graceStarted = 0\<rparr>"

text \<open>A report taken from the channel, the local and the external address; \<open>graceStarted\<close> counts the resets of the timer.\<close>

definition receive :: "string \<Rightarrow> string \<Rightarrow> nat_collect \<Rightarrow> nat_collect" where
  "receive localIP externalIP c =
    (let family = isIPv4 localIP;
         c = c\<lparr>pending := (pending c)(family := pending c family - 1)\<rparr>;
         c = (if externalIP \<noteq> [] then
           let c = c\<lparr>mapped := (mapped c)(family := True)\<rparr> in
           if map_of (natMapping c) externalIP \<noteq> None then c
           else c\<lparr>natMapping := natMapping c @ [(externalIP, localIP)], mappedIPs := mappedIPs c @ [localIP]\<rparr>
           else c)
     in if \<not> firstResolved c \<and> settled c then c\<lparr>firstResolved := True, graceStarted := graceStarted c + 1\<rparr> else c)"

text \<open>What the \<open>select\<close> takes, in order: the report of the \<open>i\<close>-th lookup, or the timer.\<close>

datatype arrival = Report nat | TimerFired

fun collect :: "(nat \<Rightarrow> string \<times> string) \<Rightarrow> nat \<Rightarrow> arrival list \<Rightarrow> nat_collect \<Rightarrow> nat_collect option" where
  "collect reports 0 arrivals c = Some c"
| "collect reports (Suc remaining) [] c = None"
| "collect reports (Suc remaining) (TimerFired # arrivals) c = Some c"
| "collect reports (Suc remaining) (Report i # arrivals) c =
    (case reports i of (localIP, externalIP) \<Rightarrow> collect reports remaining arrivals (receive localIP externalIP c))"

fun fill_unresolved :: "string list \<Rightarrow> (string \<times> string) list \<Rightarrow> (string \<times> string) list" where
  "fill_unresolved [] m = m"
| "fill_unresolved (localIP # ips) m = fill_unresolved ips (if localIP \<in> snd ` set m then m else AList.update localIP localIP m)"

definition external_only :: "(IP \<Rightarrow> bool) option \<Rightarrow> string list \<Rightarrow> IP \<Rightarrow> bool" where
  "external_only originFilter ips ip =
    (if To4 ip = None then (case originFilter of Some f \<Rightarrow> f ip | None \<Rightarrow> True)
     else list_ex (\<lambda>m. ip_Equal ip (case ParseIP m of Some p \<Rightarrow> p | None \<Rightarrow> [])) ips)"

text \<open>\<open>getExternalIP\<close> from a local address and port, with the servers and options of the configuration.\<close>

type_synonym 'e nat_ip_lookup = "string list \<Rightarrow> bool \<Rightarrow> (externalIPOptions \<Rightarrow> externalIPOptions) list \<Rightarrow> string \<Rightarrow> int \<Rightarrow> 'e + string"

definition nat_lookup :: "'e nat_ip_lookup \<Rightarrow> RTCConfig \<Rightarrow> string \<Rightarrow> int \<Rightarrow> 'e + string" where
  "nat_lookup getIP conf =
    getIP (if length (STUNServers conf) = 0 then DefaultStunServers else STUNServers conf) (\<not> SkipExternalIPValidation conf)
      [WithStunPingTimeout (ExternalIPStunTimeout conf), WithValidationTimeout (ExternalIPValidationTimeout conf)]"

text \<open>\<open>order\<close> is the order in which the map is gone through.\<close>

definition getNAT1to1IPsForConf ::
  "'e + 'e iface list \<Rightarrow> (nat \<Rightarrow> int \<Rightarrow> int) \<Rightarrow> 'e nat_ip_lookup \<Rightarrow> ('e \<Rightarrow> bool) \<Rightarrow> arrival list \<Rightarrow>
   ((string \<times> string) list \<Rightarrow> (string \<times> string) list) \<Rightarrow> RTCConfig \<Rightarrow> (string \<Rightarrow> bool) option \<Rightarrow> (IP \<Rightarrow> bool) option \<Rightarrow>
   ('e config_error + string list \<times> (IP \<Rightarrow> bool) option) option" where
  "getNAT1to1IPsForConf interfaces rand getIP inUse arrivals order conf ifFilt ipFilt =
    (case GetLocalIPAddresses interfaces (EnableLoopbackCandidate conf) True ifFilt ipFilt of
       Inl err \<Rightarrow> Some (Inl err)
     | Inr localIPs \<Rightarrow> do {
         udpPorts \<leftarrow> nat_ports rand conf;
         c \<leftarrow> collect (\<lambda>i. (localIPs ! i, lookup_ports (nat_lookup getIP conf) inUse (localIPs ! i) udpPorts)) (length localIPs) arrivals (start_collect localIPs);
         Some (Inr (if natMapping c = [] then ([], ipFilt)
           else (map (\<lambda>(external, localIP). external @ ''/'' @ localIP) (order (fill_unresolved localIPs (natMapping c))),
             if ExternalIPOnly conf then Some (external_only ipFilt (mappedIPs c)) else ipFilt)))
       })"

section \<open>The settings\<close>

datatype network_type = UDP4 | UDP6 | TCP4 | TCP6

text \<open>The calls on the setting engine, and those that open sockets.\<close>

datatype ('c, 'l) setting =
    SetSCTPMaxMessageSize int | SetSCTPMinCwnd u32 | SetSCTPFastRtxWnd u32 | SetSCTPCwndCAStep u32
  | SetInterfaceFilter "string \<Rightarrow> bool" | SetIPFilter "(IP \<Rightarrow> bool) option" | DisableMulticastDNS
  | SetICEAddressRewriteRules "rewrite_rule list" | SetEphemeralUDPPortRange u16 u16 | SetICEUDPMux MultiPortsUDPMux
  | SetICETCPMux 'l | SetNetworkTypes "network_type list" | SetHostAcceptanceMinWait int | SetSrflxAcceptanceMinWait int
  | SetPrflxAcceptanceMinWait int | SetRelayAcceptanceMinWait int | SetIncludeLoopbackCandidate | SetLite | SetNet
  | MuxEffects "'c effect list" | ListenTCP int

text \<open>
  What the calls outside of the repository return. \<open>stdNet\<close>, \<open>listenUDP\<close>, \<open>netBatchConn\<close> and \<open>newUDPMux\<close> are what
  \<open>CreateUDPMuxesFromPorts\<close> uses, \<open>netIsIPv4\<close> and \<open>netIsIPv6\<close> are of \<^verbatim>\<open>ice.NetworkType\<close> and \<open>udpNetworks\<close> its two UDP
  ones; the number tells the first call of it from the second. A mux of \<^verbatim>\<open>pion/ice\<close> is its listen addresses.
\<close>

record ('n, 'e, 'c, 'l) webrtc_env =
  hostInterfaces :: "'e + 'e iface list"
  randIntn :: "nat \<Rightarrow> int \<Rightarrow> int"
  externalIP :: "'e nat_ip_lookup"
  addressInUse :: "'e \<Rightarrow> bool"
  natArrivals :: "arrival list"
  natOrder :: "(string \<times> string) list \<Rightarrow> (string \<times> string) list"
  setRules :: "rewrite_rule list \<Rightarrow> 'e option"
  setPortRange :: "u16 \<Rightarrow> u16 \<Rightarrow> 'e option"
  numCPU :: nat
  netIsIPv4 :: "'n \<Rightarrow> bool"
  netIsIPv6 :: "'n \<Rightarrow> bool"
  udpNetworks :: "'n list"
  stdNet :: "nat \<Rightarrow> 'e + ('e + 'e iface list)"
  listenUDP :: "nat \<Rightarrow> IP \<Rightarrow> int \<Rightarrow> 'e + 'c"
  netBatchConn :: "'c \<Rightarrow> int \<Rightarrow> int \<Rightarrow> 'c"
  newUDPMux :: "'c \<Rightarrow> addr list"
  muxOrder :: "(IP \<times> multiPortsAddress) list \<Rightarrow> (IP \<times> multiPortsAddress) list"
  listenTCP :: "int \<Rightarrow> 'e + 'l"
  newStdnet :: "'e option"

record 'l WebRTCConfig =
  ICEServers :: "string list list"
  UDPMux :: "MultiPortsUDPMux option"
  TCPMuxListener :: "'l option"
  NAT1To1IPs :: "string list"
  conf_UseMDNS :: bool

text \<open>Code that makes calls and may return early with an error.\<close>

type_synonym ('c, 'l, 'e, 'a) pion_setup = "(('c, 'l) setting list \<times> ('e webrtc_error + 'a)) option"

definition call :: "('c, 'l) setting list \<Rightarrow> ('c, 'l, 'e, unit) pion_setup" where
  "call settings = Some (settings, Inr ())"

definition call_err :: "('c, 'l) setting \<Rightarrow> 'e option \<Rightarrow> ('c, 'l, 'e, unit) pion_setup" where
  "call_err s err = Some ([s], case err of Some e \<Rightarrow> Inl (PionError e) | None \<Rightarrow> Inr ())"

definition give :: "'a \<Rightarrow> ('c, 'l, 'e, 'a) pion_setup" where
  "give x = Some ([], Inr x)"

definition fail_with :: "'e webrtc_error \<Rightarrow> ('c, 'l, 'e, 'a) pion_setup" where
  "fail_with e = Some ([], Inl e)"

definition and_then :: "('c, 'l, 'e, 'a) pion_setup \<Rightarrow> ('a \<Rightarrow> ('c, 'l, 'e, 'b) pion_setup) \<Rightarrow> ('c, 'l, 'e, 'b) pion_setup" where
  "and_then m f = (case m of
       None \<Rightarrow> None
     | Some (log, Inl e) \<Rightarrow> Some (log, Inl e)
     | Some (log, Inr x) \<Rightarrow> (case f x of None \<Rightarrow> None | Some (log', r) \<Rightarrow> Some (log @ log', r)))"

definition sctp_settings :: "RTCConfig \<Rightarrow> ('c, 'l) setting list" where
  "sctp_settings conf =
    SetSCTPMaxMessageSize 65535 #
    (if SCTPMinCwnd conf > 0 then [SetSCTPMinCwnd (word_of_int (SCTPMinCwnd conf))] else []) @
    (if SCTPFastRtxWnd conf > 0 then [SetSCTPFastRtxWnd (word_of_int (SCTPFastRtxWnd conf))] else []) @
    (if SCTPCwndCAStep conf > 0 then [SetSCTPCwndCAStep (word_of_int (SCTPCwndCAStep conf))] else [])"

definition interface_filter :: "RTCConfig \<Rightarrow> (string \<Rightarrow> bool) option" where
  "interface_filter conf =
    (if length (Includes (Interfaces conf)) \<noteq> 0 \<or> length (Excludes (Interfaces conf)) \<noteq> 0
     then Some (InterfaceFilterFromConf (Interfaces conf)) else None)"

definition ip_filter :: "RTCConfig \<Rightarrow> ('c, 'l, 'e, (IP \<Rightarrow> bool) option) pion_setup" where
  "ip_filter conf =
    (if length (Includes (IPs conf)) \<noteq> 0 \<or> length (Excludes (IPs conf)) \<noteq> 0 then
       (case IPFilterFromConf (IPs conf) of
          Inl err \<Rightarrow> fail_with err
        | Inr f \<Rightarrow> and_then (call [SetIPFilter (Some f)]) (\<lambda>_. give (Some f)))
     else give None)"

definition SetNAT1To1AddressRewriteRules :: "('n, 'e, 'c, 'l) webrtc_env \<Rightarrow> string list \<Rightarrow> bool \<Rightarrow> ('c, 'l, 'e, unit) pion_setup" where
  "SetNAT1To1AddressRewriteRules env ips includeInternal =
    (let rules = nat1To1AddressRewriteRules ips includeInternal in call_err (SetICEAddressRewriteRules rules) (setRules env rules))"

text \<open>The addresses advertised and the filter afterwards.\<close>

definition nat_settings :: "('n, 'e, 'c, 'l) webrtc_env \<Rightarrow> RTCConfig \<Rightarrow> (string \<Rightarrow> bool) option \<Rightarrow> (IP \<Rightarrow> bool) option \<Rightarrow>
    ('c, 'l, 'e, string list \<times> (IP \<Rightarrow> bool) option) pion_setup" where
  "nat_settings env conf ifFilt ipFilt =
    (if \<not> IsEmpty (conf_NodeIP conf) \<and> (UseExternalIP conf \<or> \<not> NodeIPAutoGenerated conf) then
       if UseExternalIP conf then
         (case getNAT1to1IPsForConf (hostInterfaces env) (randIntn env) (externalIP env) (addressInUse env) (natArrivals env) (natOrder env)
             conf ifFilt ipFilt of
            None \<Rightarrow> None
          | Some (Inl err) \<Rightarrow> fail_with (ConfigError err)
          | Some (Inr (ips, newFilter)) \<Rightarrow>
              and_then (call [SetIPFilter newFilter]) (\<lambda>_.
              and_then (SetNAT1To1AddressRewriteRules env (if length ips = 0 then ToStringSlice (conf_NodeIP conf) else ips) (AdvertiseInternalIP conf)) (\<lambda>_.
              give (ips, newFilter))))
       else and_then (SetNAT1To1AddressRewriteRules env (ToStringSlice (conf_NodeIP conf)) (AdvertiseInternalIP conf)) (\<lambda>_. give ([], ipFilt))
     else give ([], ipFilt))"

definition defaultUDPBufferSize :: int where
  "defaultUDPBufferSize = 16777216"

definition mux_options :: "RTCConfig \<Rightarrow> (string \<Rightarrow> bool) option \<Rightarrow> (IP \<Rightarrow> bool) option \<Rightarrow>
    (('n, 'e) multiUDPMuxFromPortParam \<Rightarrow> ('n, 'e) multiUDPMuxFromPortParam) list" where
  "mux_options conf ifFilt ipFilt =
    [UDPMuxFromPortWithReadBufferSize defaultUDPBufferSize, UDPMuxFromPortWithWriteBufferSize defaultUDPBufferSize] @
    (if EnableLoopbackCandidate conf then [UDPMuxFromPortWithLoopback] else []) @
    (case ipFilt of Some f \<Rightarrow> [UDPMuxFromPortWithIPFilter f] | None \<Rightarrow> []) @
    (case ifFilt of Some f \<Rightarrow> [UDPMuxFromPortWithInterfaceFilter f] | None \<Rightarrow> []) @
    (if BatchSize (BatchIO conf) > 0 then [UDPMuxFromPortWithBatchWrite (BatchSize (BatchIO conf)) (MaxFlushInterval (BatchIO conf))] else [])"

definition create_muxes_call :: "('n, 'e, 'c, 'l) webrtc_env \<Rightarrow> nat \<Rightarrow> int list \<Rightarrow>
    (('n, 'e) multiUDPMuxFromPortParam \<Rightarrow> ('n, 'e) multiUDPMuxFromPortParam) list \<Rightarrow> ('c, 'l, 'e, addr list list) pion_setup" where
  "create_muxes_call env k ports opts =
    (case CreateUDPMuxesFromPorts (netIsIPv4 env) (netIsIPv6 env) (udpNetworks env) (stdNet env k) (listenUDP env k) (netBatchConn env)
        (newUDPMux env) ports opts of
       (effs, res) \<Rightarrow> Some ([MuxEffects effs], case res of Inl e \<Rightarrow> Inl (PionError e) | Inr muxes \<Rightarrow> Inr muxes))"

definition udp_settings :: "('n, 'e, 'c, 'l) webrtc_env \<Rightarrow> RTCConfig \<Rightarrow> (string \<Rightarrow> bool) option \<Rightarrow> (IP \<Rightarrow> bool) option \<Rightarrow>
    ('c, 'l, 'e, network_type list \<times> MultiPortsUDPMux option) pion_setup" where
  "udp_settings env conf ifFilt ipFilt =
    (if \<not> ForceTCP conf then
       if ICEPortRangeStart conf \<noteq> 0 \<and> ICEPortRangeEnd conf \<noteq> 0 then
         let s = ucast (ICEPortRangeStart conf); e = ucast (ICEPortRangeEnd conf) in
         and_then (call_err (SetEphemeralUDPPortRange s e) (setPortRange env s e)) (\<lambda>_. give ([UDP4, UDP6], None))
       else if Valid (UDPPort conf) then
         let opts = mux_options conf ifFilt ipFilt; ports = take (numCPU env) (ToSlice (UDPPort conf)) in
         and_then (create_muxes_call env 0 ports opts) (\<lambda>muxes.
         and_then (if UseStunPortAsICE conf then create_muxes_call env 1 [3478] opts else give []) (\<lambda>standalone.
         case NewMultiPortsUDPMux (muxOrder env) muxes standalone of
           None \<Rightarrow> None
         | Some udpMux \<Rightarrow> and_then (call [SetICEUDPMux udpMux]) (\<lambda>_. give ([UDP4, UDP6], Some udpMux))))
       else give ([UDP4, UDP6], None)
     else give ([], None))"

definition tcp_settings :: "('n, 'e, 'c, 'l) webrtc_env \<Rightarrow> RTCConfig \<Rightarrow> network_type list \<Rightarrow> ('c, 'l, 'e, network_type list \<times> 'l option) pion_setup" where
  "tcp_settings env conf networkTypes =
    (if TCPPort conf \<noteq> 0 then
       and_then (call [ListenTCP (uint (TCPPort conf))]) (\<lambda>_.
       case listenTCP env (uint (TCPPort conf)) of
         Inl err \<Rightarrow> fail_with (PionError err)
       | Inr tcpListener \<Rightarrow> and_then (call [SetICETCPMux tcpListener]) (\<lambda>_. give (networkTypes @ [TCP4, TCP6], Some tcpListener)))
     else give (networkTypes, None))"

definition acceptance_settings :: "RTCConfig \<Rightarrow> ('c, 'l) setting list" where
  "acceptance_settings conf =
    (if HostAcceptanceMinWait conf > 0 then [SetHostAcceptanceMinWait (HostAcceptanceMinWait conf)] else []) @
    (if SrflxAcceptanceMinWait conf > 0 then [SetSrflxAcceptanceMinWait (SrflxAcceptanceMinWait conf)] else []) @
    (if PrflxAcceptanceMinWait conf > 0 then [SetPrflxAcceptanceMinWait (PrflxAcceptanceMinWait conf)] else []) @
    (if RelayAcceptanceMinWait conf > 0 then [SetRelayAcceptanceMinWait (RelayAcceptanceMinWait conf)] else []) @
    (if EnableLoopbackCandidate conf then [SetIncludeLoopbackCandidate] else [])"

definition ice_servers :: "RTCConfig \<Rightarrow> string list list" where
  "ice_servers conf =
    (if UseICELite conf then []
     else if (IsEmpty (conf_NodeIP conf) \<or> NodeIPAutoGenerated conf) \<and> \<not> UseExternalIP conf then
       [iceServerForStunServers (if length (STUNServers conf) > 0 then STUNServers conf else DefaultStunServers)]
     else [])"

text \<open>The setting engine of the result is the log of the calls.\<close>

definition NewWebRTCConfig :: "('n, 'e, 'c, 'l) webrtc_env \<Rightarrow> RTCConfig \<Rightarrow> ('c, 'l, 'e, 'l WebRTCConfig) pion_setup" where
  "NewWebRTCConfig env conf =
    (let ifFilt = interface_filter conf in
     and_then (call (sctp_settings conf @ (case ifFilt of Some f \<Rightarrow> [SetInterfaceFilter f] | None \<Rightarrow> []))) (\<lambda>_.
     and_then (ip_filter conf) (\<lambda>ipFilt.
     and_then (call (if \<not> UseMDNS conf then [DisableMulticastDNS] else [])) (\<lambda>_.
     and_then (nat_settings env conf ifFilt ipFilt) (\<lambda>(nat1to1IPs, ipFilt).
     and_then (udp_settings env conf ifFilt ipFilt) (\<lambda>(networkTypes, udpMux).
     and_then (tcp_settings env conf networkTypes) (\<lambda>(networkTypes, tcpListener).
     if length networkTypes = 0 then fail_with ForcedTCP
     else
     and_then (call (SetNetworkTypes networkTypes # acceptance_settings conf @ (if UseICELite conf then [SetLite] else []))) (\<lambda>_.
     case newStdnet env of
       Some err \<Rightarrow> fail_with (PionError err)
     | None \<Rightarrow> and_then (call [SetNet]) (\<lambda>_. give
         \<lparr>ICEServers = ice_servers conf, UDPMux = udpMux, TCPMuxListener = tcpListener,
          NAT1To1IPs = nat1to1IPs, conf_UseMDNS = UseMDNS conf\<rparr>)))))))))"


section \<open>What the filters decide\<close>

text \<open>A network as an address in its short form and the length of the prefix.\<close>

definition net_ok :: "IP \<times> nat \<Rightarrow> bool" where
  "net_ok nw \<longleftrightarrow> (case nw of (a, n) \<Rightarrow> length a = 4 \<and> n \<le> 32 \<or> length a = 16 \<and> To4 a = None \<and> n \<le> 128)"

definition in_net :: "IP \<Rightarrow> IP \<times> nat \<Rightarrow> bool" where
  "in_net ip nw \<longleftrightarrow> (case nw of (a, n) \<Rightarrow> length (ip_key ip) = length a \<and> same_prefix n a (ip_key ip))"

definition cidrs :: "(IP \<times> nat) list \<Rightarrow> string list" where
  "cidrs nets = map (\<lambda>(a, n). cidr_text a n) nets"

lemma parsed_net:
  assumes "net_ok (a, n)"
  shows "\<exists>nw. ParseCIDR (cidr_text a n) = Some nw \<and> (\<forall>ip. IPNet_Contains nw ip \<longleftrightarrow> in_net ip (a, n))"
proof (cases "length a = 4")
  case True
  then have "n \<le> 32" using assms by (auto simp: net_ok_def)
  then show ?thesis using True
    by (auto simp: ParseCIDR_v4 Contains_v4 in_net_def ip_key_def To4_length split: option.split) (auto simp: To4_def split: if_splits)
next
  case False
  then have a: "length a = 16" "To4 a = None" "n \<le> 128" using assms by (auto simp: net_ok_def)
  then show ?thesis
    by (auto simp: ParseCIDR_v6 Contains_v6 in_net_def ip_key_def dest: To4_length split: option.split)
qed

lemma parse_cidrs:
  "list_all net_ok nets \<Longrightarrow>
    \<exists>ns. parse_nets (cidrs nets) = Inr ns \<and> length ns = length nets \<and> (\<forall>ip. list_ex (\<lambda>n. IPNet_Contains n ip) ns \<longleftrightarrow> list_ex (in_net ip) nets)"
proof (induction nets)
  case (Cons nw nets)
  obtain a n where nw: "nw = (a, n)" by fastforce
  from Cons parsed_net [of a n] nw show ?case by (fastforce simp: cidrs_def)
qed (simp add: cidrs_def)

lemma parse_nets_find:
  "case find (\<lambda>s. ParseCIDR s = None) ss of
     Some s \<Rightarrow> parse_nets ss = (Inl (InvalidCIDR s) :: 'e webrtc_error + _)
   | None \<Rightarrow> \<exists>ns. parse_nets ss = (Inr ns :: 'e webrtc_error + _)"
  by (induction ss) (auto split: option.splits)

lemma find_append: "find P (xs @ ys) = (case find P xs of Some x \<Rightarrow> Some x | None \<Rightarrow> find P ys)"
  by (induction xs) auto

text \<open>
  C31. A filter made from networks in CIDR notation lets exactly the addresses through that share the prefix of an included
  network or, when none is included, of no excluded one; both forms of an IPv4 address count as the same address. The
  first entry that is not a network, if there is one, is the error.
\<close>

theorem ip_filter_networks:
  assumes "list_all net_ok includes" "list_all net_ok excludes"
  shows "(\<exists>f. IPFilterFromConf \<lparr>Includes = cidrs includes, Excludes = cidrs excludes\<rparr> = (Inr f :: 'e webrtc_error + _) \<and>
      (\<forall>ip. f ip \<longleftrightarrow> (if includes \<noteq> [] then list_ex (in_net ip) includes else \<not> list_ex (in_net ip) excludes))) \<and>
    (case find (\<lambda>s. ParseCIDR s = None) (Includes conf @ Excludes conf) of
       Some s \<Rightarrow> IPFilterFromConf conf = (Inl (InvalidCIDR s) :: 'e webrtc_error + _)
     | None \<Rightarrow> \<exists>f. IPFilterFromConf conf = (Inr f :: 'e webrtc_error + _))"
proof (rule conjI)
  obtain ns es where p: "parse_nets (cidrs includes) = (Inr ns :: 'e webrtc_error + _)" "length ns = length includes" "\<And>ip. list_ex (\<lambda>n. IPNet_Contains n ip) ns \<longleftrightarrow> list_ex (in_net ip) includes"
    "parse_nets (cidrs excludes) = (Inr es :: 'e webrtc_error + _)" "length es = length excludes" "\<And>ip. list_ex (\<lambda>n. IPNet_Contains n ip) es \<longleftrightarrow> list_ex (in_net ip) excludes"
    using parse_cidrs [OF assms(1)] parse_cidrs [OF assms(2)] by metis
  then show "\<exists>f. IPFilterFromConf \<lparr>Includes = cidrs includes, Excludes = cidrs excludes\<rparr> = (Inr f :: 'e webrtc_error + _) \<and>
      (\<forall>ip. f ip \<longleftrightarrow> (if includes \<noteq> [] then list_ex (in_net ip) includes else \<not> list_ex (in_net ip) excludes))"
    by (auto simp: IPFilterFromConf_def)
  show "case find (\<lambda>s. ParseCIDR s = None) (Includes conf @ Excludes conf) of
       Some s \<Rightarrow> IPFilterFromConf conf = (Inl (InvalidCIDR s) :: 'e webrtc_error + _)
     | None \<Rightarrow> \<exists>f. IPFilterFromConf conf = (Inr f :: 'e webrtc_error + _)"
    using parse_nets_find [where 'e = 'e, of "Includes conf"] parse_nets_find [where 'e = 'e, of "Excludes conf"]
    by (auto simp: IPFilterFromConf_def find_append split: option.splits)
qed

theorem ip_filter_networks_witness:
  "\<exists>f. IPFilterFromConf \<lparr>Includes = [''10.0.0.0/8''], Excludes = []\<rparr> = (Inr f :: unit webrtc_error + _) \<and>
    f [10, 1, 2, 3] \<and> f (v4InV6Prefix @ [10, 9, 9, 9]) \<and> \<not> f [11, 0, 0, 1] \<and> \<not> f IPv6loopback"
proof -
  have ok: "list_all net_ok [([10, 0, 0, 0], 8)]" by (simp add: net_ok_def)
  have c: "cidrs [([10, 0, 0, 0], 8)] = [''10.0.0.0/8'']" "cidrs [] = []" by code_simp+
  have n: "in_net [10, 1, 2, 3] ([10, 0, 0, 0], 8)" "in_net (v4InV6Prefix @ [10, 9, 9, 9]) ([10, 0, 0, 0], 8)"
    "\<not> in_net IPv6loopback ([10, 0, 0, 0], 8)" "\<not> in_net [11, 0, 0, 1] ([10, 0, 0, 0], 8)" by code_simp+
  have ne: "list_all net_ok []" by simp
  obtain f where f: "IPFilterFromConf \<lparr>Includes = cidrs [([10, 0, 0, 0], 8)], Excludes = cidrs []\<rparr> = (Inr f :: unit webrtc_error + _)"
    "\<And>ip. f ip \<longleftrightarrow> in_net ip ([10, 0, 0, 0], 8)"
    using ip_filter_networks [OF ok ne, where 'e = unit] by auto
  then show ?thesis using n unfolding c by auto
qed

section \<open>Rules for an address mapping\<close>

lemma rules_loop_append:
  "rules_loop mode (xs @ ys) rules catchAll = (case rules_loop mode xs rules catchAll of (r, c) \<Rightarrow> rules_loop mode ys r c)"
  by (induction mode xs rules catchAll rule: rules_loop.induct) (simp_all add: Let_def)

lemma rules_loop_pairs:
  "\<forall>(e, l) \<in> set ms. CHR ''/'' \<notin> set e \<and> CHR ''/'' \<notin> set l \<Longrightarrow>
    rules_loop mode (map (\<lambda>(e, l). e @ CHR ''/'' # l) ms) rules catchAll =
      (rules @ map (\<lambda>(e, l). \<lparr>External = [e], Local = l, Mode = mode\<rparr>) ms, catchAll)"
  by (induction ms arbitrary: rules) (auto simp: Split_two Let_def)

lemma rules_loop_plain:
  "\<forall>s \<in> set ips. CHR ''/'' \<notin> set s \<Longrightarrow> rules_loop mode ips rules catchAll = (rules, catchAll @ ips)"
  by (induction ips arbitrary: catchAll) (auto simp: Split_none Let_def)

definition rewrite_mode_of :: "bool \<Rightarrow> rewrite_mode" where
  "rewrite_mode_of includeInternal = (if includeInternal then Append else Unspecified)"

lemma rules_of_mapping:
  assumes "\<forall>(e, l) \<in> set ms. CHR ''/'' \<notin> set e \<and> CHR ''/'' \<notin> set l" "\<forall>s \<in> set ips. CHR ''/'' \<notin> set s"
  shows "nat1To1AddressRewriteRules (map (\<lambda>(e, l). e @ CHR ''/'' # l) ms @ ips) inc =
    map (\<lambda>(e, l). \<lparr>External = [e], Local = l, Mode = rewrite_mode_of inc\<rparr>) ms @
    (if ips = [] then [] else [\<lparr>External = ips, Local = [], Mode = rewrite_mode_of inc\<rparr>])"
  by (simp add: nat1To1AddressRewriteRules_def rules_loop_append rules_loop_pairs [OF assms(1)] rules_loop_plain [OF assms(2)]
      Let_def flip: rewrite_mode_of_def)


section \<open>Collecting the reports\<close>

text \<open>The reports taken, in order, and whether the loop ends with them.\<close>

fun taken :: "nat \<Rightarrow> arrival list \<Rightarrow> nat list" where
  "taken (Suc n) (Report i # as) = i # taken n as"
| "taken n as = []"

fun comes_to_end :: "nat \<Rightarrow> arrival list \<Rightarrow> bool" where
  "comes_to_end 0 as \<longleftrightarrow> True"
| "comes_to_end (Suc n) [] \<longleftrightarrow> False"
| "comes_to_end (Suc n) (TimerFired # as) \<longleftrightarrow> True"
| "comes_to_end (Suc n) (Report i # as) \<longleftrightarrow> comes_to_end n as"

lemma collect_taken:
  "collect reports n as c =
    (if comes_to_end n as then Some (fold (\<lambda>(l, e). receive l e) (map reports (taken n as)) c) else None)"
  by (induction reports n as c rule: collect.induct) (auto split: prod.split)

text \<open>The local address whose report of \<open>e\<close> came first.\<close>

definition first_local :: "(string \<times> string) list \<Rightarrow> string \<Rightarrow> string option" where
  "first_local rs e = (if e = [] then None else map_option fst (find (\<lambda>r. snd r = e) rs))"

text \<open>What the state says about the reports so far.\<close>

definition reflects :: "string list \<Rightarrow> (string \<times> string) list \<Rightarrow> nat_collect \<Rightarrow> bool" where
  "reflects ips rs c \<longleftrightarrow>
    (\<forall>e. map_of (natMapping c) e = first_local rs e) \<and> distinct (map fst (natMapping c)) \<and>
    mappedIPs c = map snd (natMapping c) \<and>
    (\<forall>f. pending c f = int (length (filter (\<lambda>l. isIPv4 l = f) ips)) - int (length (filter (\<lambda>r. isIPv4 (fst r) = f) rs))) \<and>
    (\<forall>f. mapped c f \<longleftrightarrow> (\<exists>r \<in> set rs. isIPv4 (fst r) = f \<and> snd r \<noteq> [])) \<and>
    (firstResolved c \<longleftrightarrow> rs \<noteq> [] \<and> settled c) \<and> graceStarted c = (if firstResolved c then 1 else 0)"

lemma fold_pending:
  "fold (\<lambda>ip p. p(isIPv4 ip := p (isIPv4 ip) + 1)) ips p f = p f + int (length (filter (\<lambda>l. isIPv4 l = f) ips))"
  by (induction ips arbitrary: p) auto

lemma reflects_start: "reflects ips [] (start_collect ips)"
  by (simp add: reflects_def start_collect_def first_local_def fold_pending)

lemma reflects_receive:
  assumes "reflects ips rs c"
  shows "reflects ips (rs @ [(l, e)]) (receive l e c)"
proof -
  define c1 where "c1 = (let c = c\<lparr>pending := (pending c)(isIPv4 l := pending c (isIPv4 l) - 1)\<rparr> in
    if e \<noteq> [] then
      let c = c\<lparr>mapped := (mapped c)(isIPv4 l := True)\<rparr> in
      if map_of (natMapping c) e \<noteq> None then c
      else c\<lparr>natMapping := natMapping c @ [(e, l)], mappedIPs := mappedIPs c @ [l]\<rparr>
    else c)"
  have r: "receive l e c = (if \<not> firstResolved c1 \<and> settled c1 then c1\<lparr>firstResolved := True, graceStarted := graceStarted c1 + 1\<rparr> else c1)"
    by (simp add: receive_def c1_def Let_def)
  note a = assms [unfolded reflects_def]
  have same: "firstResolved c1 = firstResolved c" "graceStarted c1 = graceStarted c"
    by (simp_all add: c1_def Let_def)
  have p: "pending c1 f = int (length (filter (\<lambda>l. isIPv4 l = f) ips)) - int (length (filter (\<lambda>r. isIPv4 (fst r) = f) (rs @ [(l, e)])))" for f
    using a by (simp add: c1_def Let_def)
  have m: "mapped c1 f \<longleftrightarrow> (\<exists>r \<in> set (rs @ [(l, e)]). isIPv4 (fst r) = f \<and> snd r \<noteq> [])" for f
    using a by (auto simp: c1_def Let_def)
  have stable: "settled c1" if "settled c"
    using that by (auto simp: settled_def c1_def Let_def split: if_splits)
  have n: "map_of (natMapping c1) x = first_local (rs @ [(l, e)]) x" for x
    using a by (auto simp: c1_def Let_def first_local_def find_append map_add_def split: option.splits if_splits)
  have d: "distinct (map fst (natMapping c1))" "mappedIPs c1 = map snd (natMapping c1)"
    using a by (auto simp: c1_def Let_def map_of_eq_None_iff simp flip: set_map)
  have keep: "settled (c1\<lparr>firstResolved := x, graceStarted := y\<rparr>) = settled c1" for x y by (simp add: settled_def)
  show ?thesis
    using n d p m stable a same by (auto simp: r reflects_def keep)
qed

lemma reflects_fold:
  "reflects ips rs c \<Longrightarrow> reflects ips (rs @ rs') (fold (\<lambda>(l, e). receive l e) rs' c)"
proof (induction rs' arbitrary: rs c)
  case (Cons r rs')
  obtain l e where [simp]: "r = (l, e)" by fastforce
  from Cons.IH [OF reflects_receive [OF Cons.prems, of l e]] show ?case by simp
qed simp

lemma collect_reflects:
  "collect reports n as (start_collect ips) = Some c \<Longrightarrow> reflects ips (map reports (taken n as)) c"
  using reflects_fold [OF reflects_start, of ips "map reports (taken n as)"] by (auto simp: collect_taken split: if_splits)

lemma map_of_fill:
  "map_of (fill_unresolved ips m) e =
    (if e \<in> set ips \<and> e \<notin> snd ` set m \<and> map_of m e = None then Some e else map_of m e)"
  if "\<forall>x \<in> set ips. \<forall>y. map_of m x = Some y \<longrightarrow> y = x" "distinct (map fst m)"
  using that
proof (induction ips arbitrary: m)
  case (Cons ip ips)
  show ?case
  proof (cases "ip \<in> snd ` set m")
    case True
    then show ?thesis using Cons by auto
  next
    case False
    have no: "map_of m ip = None"
    proof (rule ccontr)
      assume "map_of m ip \<noteq> None"
      with Cons.prems(1) have "map_of m ip = Some ip" by auto
      then have "(ip, ip) \<in> set m" by (rule map_of_SomeD)
      with False show False by force
    qed
    let ?m = "AList.update ip ip m"
    have u: "map_of ?m = (map_of m)(ip \<mapsto> ip)" by (rule AList.update_conv')
    have "?m = m @ [(ip, ip)]"
      using no by (induction m) (auto split: if_splits)
    then have v: "snd ` set ?m = insert ip (snd ` set m)" by simp
    have "map_of (fill_unresolved ips ?m) e =
      (if e \<in> set ips \<and> e \<notin> snd ` set ?m \<and> map_of ?m e = None then Some e else map_of ?m e)"
      using Cons.prems no by (intro Cons.IH) (auto simp: u v map_of_eq_None_iff image_iff distinct_update split: if_splits)
    then show ?thesis using False no by (auto simp: u v)
  qed
qed simp

lemma distinct_fill: "distinct (map fst m) \<Longrightarrow> distinct (map fst (fill_unresolved ips m))"
  by (induction ips arbitrary: m) (simp_all add: distinct_update)

lemma set_of_map: "distinct (map fst m) \<Longrightarrow> set m = {(e, l). map_of m e = Some l}"
  by (auto simp: map_of_is_SomeI dest: map_of_SomeD)

lemma first_local_None: "(\<forall>e. first_local rs e = None) \<longleftrightarrow> (\<forall>r \<in> set rs. snd r = [])"
proof
  assume *: "\<forall>e. first_local rs e = None"
  show "\<forall>r \<in> set rs. snd r = []"
  proof
    fix r assume r: "r \<in> set rs"
    from * [rule_format, of "snd r"] have "snd r \<noteq> [] \<Longrightarrow> find (\<lambda>x. snd x = snd r) rs = None"
      by (simp add: first_local_def)
    then show "snd r = []" using r find_None by (metis (mono_tags, lifting))
  qed
qed (auto simp: first_local_def find_None_iff)

lemma first_local_in: "first_local rs e = Some l \<Longrightarrow> (l, e) \<in> set rs \<and> e \<noteq> []"
  by (auto simp: first_local_def dest!: find_Some split: if_splits)

definition final_mapping :: "string list \<Rightarrow> (string \<times> string) list \<Rightarrow> (string \<times> string) set" where
  "final_mapping ips rs =
    {(e, l). first_local rs e = Some l \<or> e = l \<and> l \<in> set ips \<and> (\<forall>x. first_local rs x \<noteq> Some l)}"

lemma fill_final:
  assumes "reflects ips rs c" "\<forall>l \<in> set ips. \<forall>y. first_local rs l = Some y \<longrightarrow> y = l"
  shows "set (fill_unresolved ips (natMapping c)) = final_mapping ips rs"
proof -
  have d: "distinct (map fst (natMapping c))" and m: "map_of (natMapping c) = first_local rs"
    using assms(1) by (auto simp: reflects_def)
  have s: "l \<in> snd ` set (natMapping c) \<longleftrightarrow> (\<exists>x. first_local rs x = Some l)" for l
    by (auto simp: set_of_map [OF d] m image_iff)
  have f: "map_of (fill_unresolved ips (natMapping c)) e =
      (if e \<in> set ips \<and> e \<notin> snd ` set (natMapping c) \<and> map_of (natMapping c) e = None then Some e else map_of (natMapping c) e)" for e
    using assms(2) by (intro map_of_fill d) (simp add: m)
  show ?thesis
    using assms(2) unfolding set_of_map [OF distinct_fill [OF d]] f s m final_mapping_def
    by (auto split: if_splits) (metis option.exhaust)
qed

lemma external_only_mapped:
  assumes "reflects ips rs c"
  shows "external_only ipFilt (mappedIPs c) ip \<longleftrightarrow>
    (if To4 ip = None then (case ipFilt of Some g \<Rightarrow> g ip | None \<Rightarrow> True)
     else \<exists>x l p. first_local rs x = Some l \<and> ParseIP l = Some p \<and> ip_Equal ip p)"
proof (cases "To4 ip")
  case None then show ?thesis by (simp add: external_only_def)
next
  case (Some ip4)
  have d: "distinct (map fst (natMapping c))" and m: "map_of (natMapping c) = first_local rs" and mi: "mappedIPs c = map snd (natMapping c)"
    using assms by (auto simp: reflects_def)
  have "length ip = 4 \<or> length ip = 16" using Some by (simp add: To4_def split: if_splits)
  then have no: "\<not> ip_Equal ip []" by (auto simp: ip_Equal_def)
  have "list_ex Q (mappedIPs c) \<longleftrightarrow> (\<exists>x l. first_local rs x = Some l \<and> Q l)" for Q
    by (auto simp: mi m list_ex_iff set_of_map [OF d])
  moreover have "ip_Equal ip (case ParseIP l of Some p \<Rightarrow> p | None \<Rightarrow> []) \<longleftrightarrow> (\<exists>p. ParseIP l = Some p \<and> ip_Equal ip p)" for l
    using no by (simp split: option.split)
  ultimately show ?thesis using Some by (simp add: external_only_def)
qed

text \<open>
  C32. What is advertised of a node behind a NAT. Whatever reports of the lookups are taken before the timer fires, in whatever
  order, the rules map every external address to the local address that reported it first and every local address not chosen
  so to itself; with no external address nothing is mapped. When only external addresses are wanted, the filter lets exactly those IPv4
  addresses through that were mapped. (No local address may turn up as the external address of another one: the entry
  of the other is then overwritten.)
\<close>

theorem nat_mapping:
  assumes "GetLocalIPAddresses interfaces (EnableLoopbackCandidate conf) True ifFilt ipFilt = Inr ips"
    and "nat_ports rand conf = Some ports" "comes_to_end (length ips) as"
    and "set (taken (length ips) as) \<subseteq> {..<length ips}" "\<And>m. mset (order m) = mset m"
    and "rs = map (\<lambda>i. (ips ! i, lookup_ports (nat_lookup getIP conf) inUse (ips ! i) ports)) (taken (length ips) as)"
    and "\<forall>s \<in> set ips \<union> snd ` set rs. CHR ''/'' \<notin> set s"
    and "\<forall>l \<in> set ips. \<forall>y. first_local rs l = Some y \<longrightarrow> y = l"
  shows "\<exists>texts filt. getNAT1to1IPsForConf interfaces rand getIP inUse as order conf ifFilt ipFilt = Some (Inr (texts, filt)) \<and>
    (if \<forall>r \<in> set rs. snd r = [] then texts = [] \<and> filt = ipFilt
     else set (nat1To1AddressRewriteRules texts includeInternal) =
         (\<lambda>(e, l). \<lparr>External = [e], Local = l, Mode = rewrite_mode_of includeInternal\<rparr>) ` final_mapping ips rs \<and>
       (if ExternalIPOnly conf
        then \<exists>f. filt = Some f \<and> (\<forall>ip. f ip \<longleftrightarrow>
          (if To4 ip = None then (case ipFilt of Some g \<Rightarrow> g ip | None \<Rightarrow> True)
           else \<exists>x l p. first_local rs x = Some l \<and> ParseIP l = Some p \<and> ip_Equal ip p))
        else filt = ipFilt))"
proof -
  define c where "c = fold (\<lambda>(l, e). receive l e) rs (start_collect ips)"
  have r: "reflects ips rs c" using reflects_fold [OF reflects_start, of ips rs] by (simp add: c_def)
  have d: "distinct (map fst (natMapping c))" and m: "map_of (natMapping c) = first_local rs" and mi: "mappedIPs c = map snd (natMapping c)"
    using r by (auto simp: reflects_def)
  define texts where "texts = map (\<lambda>(e, l). e @ CHR ''/'' # l) (order (fill_unresolved ips (natMapping c)))"
  have run: "getNAT1to1IPsForConf interfaces rand getIP inUse as order conf ifFilt ipFilt =
      Some (Inr (if natMapping c = [] then ([], ipFilt)
        else (texts, if ExternalIPOnly conf then Some (external_only ipFilt (mappedIPs c)) else ipFilt)))"
    using assms(1-3) by (simp add: getNAT1to1IPsForConf_def collect_taken c_def texts_def assms(6) comp_def case_prod_beta)
  have none: "natMapping c = [] \<longleftrightarrow> (\<forall>r \<in> set rs. snd r = [])"
    unfolding first_local_None [symmetric] m [symmetric] by (metis map_of.simps(1) map_of_eq_None_iff list.set_intros(1) image_eqI list.set_map neq_Nil_conv)
  have so: "set (order (fill_unresolved ips (natMapping c))) = final_mapping ips rs"
    using fill_final [OF r assms(8)] assms(5) by (metis mset_eq_setD)
  have rin: "l \<in> set ips \<and> e \<in> snd ` set rs" if "first_local rs e = Some l" for e l
    using first_local_in [OF that] assms(4) unfolding assms(6) by force
  have "CHR ''/'' \<notin> set e \<and> CHR ''/'' \<notin> set l" if "(e, l) \<in> final_mapping ips rs" for e l
    using that rin assms(7) unfolding final_mapping_def by blast
  then have "\<forall>(e, l) \<in> set (order (fill_unresolved ips (natMapping c))). CHR ''/'' \<notin> set e \<and> CHR ''/'' \<notin> set l"
    unfolding so by blast
  from rules_of_mapping [OF this, of "[]" includeInternal]
  have rules: "set (nat1To1AddressRewriteRules texts includeInternal) =
      (\<lambda>(e, l). \<lparr>External = [e], Local = l, Mode = rewrite_mode_of includeInternal\<rparr>) ` final_mapping ips rs"
    by (simp add: texts_def so)
  note only = external_only_mapped [OF r, of ipFilt]
  show ?thesis using run none rules only by auto
qed


definition nat_example_ifaces :: "unit iface list" where
  "nat_example_ifaces = [\<lparr>if_Name = ''eth0'', if_Flags = 0, if_Addrs = Inr [IPNet [10, 0, 0, 1], IPNet [10, 0, 0, 2]]\<rparr>]"

definition nat_example_lookup :: "unit nat_ip_lookup" where
  "nat_example_lookup servers validate opts l p = Inr ''203.0.113.9''"

lemma nat_example:
  "GetLocalIPAddresses (Inr nat_example_ifaces) False True None None = Inr [''10.0.0.1'', ''10.0.0.2'']"
  by code_simp

theorem nat_mapping_witness:
  "\<exists>conf texts f. getNAT1to1IPsForConf (Inr nat_example_ifaces) (\<lambda>_ _. 0) nat_example_lookup (\<lambda>_. False) [Report 1, Report 0] rev conf None None =
      Some (Inr (texts, Some f)) \<and>
    set (nat1To1AddressRewriteRules texts False) =
      {\<lparr>External = [''203.0.113.9''], Local = ''10.0.0.2'', Mode = Unspecified\<rparr>,
       \<lparr>External = [''10.0.0.1''], Local = ''10.0.0.1'', Mode = Unspecified\<rparr>} \<and>
    f [10, 0, 0, 2] \<and> \<not> f [10, 0, 0, 1] \<and> f IPv6loopback"
proof -
  obtain conf0 :: RTCConfig where True by simp
  define conf where "conf = conf0\<lparr>ICEPortRangeStart := 0, UDPPort := \<lparr>pr_Start = 7882, pr_End = 0\<rparr>, ExternalIPOnly := True, EnableLoopbackCandidate := False\<rparr>"
  define ips where "ips = [''10.0.0.1'', ''10.0.0.2'']"
  define rs where "rs = [(''10.0.0.2'', ''203.0.113.9''), (''10.0.0.1'', ''203.0.113.9'')]"
  have t: "taken (length ips) [Report 1, Report 0] = [1, 0]" "comes_to_end (length ips) [Report 1, Report 0]" by (simp_all add: ips_def)
  have fl: "first_local rs x = (if x = ''203.0.113.9'' then Some ''10.0.0.2'' else None)" for x
    unfolding rs_def by (auto simp: first_local_def)
  have fm: "final_mapping ips rs = {(''203.0.113.9'', ''10.0.0.2''), (''10.0.0.1'', ''10.0.0.1'')}"
    unfolding final_mapping_def fl ips_def by auto
  have p: "ParseIP ''10.0.0.2'' = Some (v4InV6Prefix @ [10, 0, 0, 2])" by code_simp
  have q: "To4 [10, 0, 0, 2] \<noteq> None" "To4 [10, 0, 0, 1] \<noteq> None" "To4 IPv6loopback = None"
    "ip_Equal [10, 0, 0, 2] (v4InV6Prefix @ [10, 0, 0, 2])" "\<not> ip_Equal [10, 0, 0, 1] (v4InV6Prefix @ [10, 0, 0, 2])" by code_simp+
  have c: "EnableLoopbackCandidate conf = False" "ExternalIPOnly conf" "nat_ports (\<lambda>_ _. 0) conf = Some [7882]"
    by (simp_all add: conf_def nat_ports_def Valid_def)
  have h: "GetLocalIPAddresses (Inr nat_example_ifaces) (EnableLoopbackCandidate conf) True None None = Inr ips"
    unfolding c(1) ips_def by (rule nat_example)
  have r: "rs = map (\<lambda>i. (ips ! i, lookup_ports (nat_lookup nat_example_lookup conf) (\<lambda>_. False) (ips ! i) [7882])) (taken (length ips) [Report 1, Report 0])"
    by (simp add: t(1)) (simp add: rs_def ips_def nat_lookup_def nat_example_lookup_def)
  have s: "set (taken (length ips) [Report 1, Report 0]) \<subseteq> {..<length ips}" by (simp add: t(1)) (simp add: ips_def)
  have f: "\<forall>s \<in> set ips \<union> snd ` set rs. CHR ''/'' \<notin> set s" by (simp add: ips_def rs_def)
  have g: "\<forall>l \<in> set ips. \<forall>y. first_local rs l = Some y \<longrightarrow> y = l" by (simp add: fl ips_def)
  have n: "\<not> (\<forall>r \<in> set rs. snd r = [])" by (simp add: rs_def)
  have o: "mset (rev m) = mset m" for m :: "(string \<times> string) list" by simp
  from nat_mapping [OF h c(3) t(2) s o r f g, of False]
  obtain texts ff where res: "getNAT1to1IPsForConf (Inr nat_example_ifaces) (\<lambda>_ _. 0) nat_example_lookup (\<lambda>_. False) [Report 1, Report 0] rev conf None None =
      Some (Inr (texts, Some ff))"
    and rules: "set (nat1To1AddressRewriteRules texts False) = (\<lambda>(e, l). \<lparr>External = [e], Local = l, Mode = rewrite_mode_of False\<rparr>) ` final_mapping ips rs"
    and ff: "\<And>ip. ff ip \<longleftrightarrow> (if To4 ip = None then True else \<exists>x l p. first_local rs x = Some l \<and> ParseIP l = Some p \<and> ip_Equal ip p)"
    unfolding if_not_P [OF n] if_P [OF c(2)] option.case by blast
  have rules': "set (nat1To1AddressRewriteRules texts False) =
      {\<lparr>External = [''203.0.113.9''], Local = ''10.0.0.2'', Mode = Unspecified\<rparr>,
       \<lparr>External = [''10.0.0.1''], Local = ''10.0.0.1'', Mode = Unspecified\<rparr>}"
    unfolding rules fm by (simp add: rewrite_mode_of_def)
  have ff': "ff ip \<longleftrightarrow> To4 ip = None \<or> ip_Equal ip (v4InV6Prefix @ [10, 0, 0, 2])" for ip
    by (auto simp: ff fl p)
  have "ff [10, 0, 0, 2]" "\<not> ff [10, 0, 0, 1]" "ff IPv6loopback" unfolding ff' using q by simp_all
  with res rules' show ?thesis by (intro exI conjI)
qed

text \<open>Two local addresses, one of which is what the other is seen as from outside: the entry of the other is lost.\<close>

lemma mapping_overwritten:
  "fill_unresolved [''10.0.0.1'', ''203.0.113.9''] [(''203.0.113.9'', ''10.0.0.1'')] = [(''203.0.113.9'', ''203.0.113.9'')]"
  by code_simp

section \<open>The grace period\<close>

lemma count_taken:
  assumes "distinct is" "set is \<subseteq> {..<length ips}"
  shows "int (length (filter P ips)) - int (length (filter (\<lambda>i. P (ips ! i)) is)) =
    int (card {i. i < length ips \<and> P (ips ! i) \<and> i \<notin> set is})"
proof -
  have a: "length (filter P ips) = card {i. i < length ips \<and> P (ips ! i)}" by (rule length_filter_conv_card)
  have "length (filter (\<lambda>i. P (ips ! i)) is) = card {i \<in> set is. P (ips ! i)}"
    using assms(1) by (metis distinct_card distinct_filter set_filter)
  moreover have "{i \<in> set is. P (ips ! i)} \<subseteq> {i. i < length ips \<and> P (ips ! i)}" using assms(2) by auto
  moreover have "{i. i < length ips \<and> P (ips ! i) \<and> i \<notin> set is} = {i. i < length ips \<and> P (ips ! i)} - {i \<in> set is. P (ips ! i)}" by auto
  ultimately show ?thesis unfolding a by (simp add: card_Diff_subset card_mono of_nat_diff)
qed

text \<open>
  C33. The timer is cut to the grace period at most once, and exactly when every family of local addresses has an
  address mapped or no lookup left: a fast result in one family does not cut short the lookups in the other.
\<close>

theorem nat_grace_period:
  assumes "collect (\<lambda>i. (ips ! i, ext i)) (length ips) as (start_collect ips) = Some c"
    and "distinct (taken (length ips) as)" "set (taken (length ips) as) \<subseteq> {..<length ips}"
  shows "graceStarted c \<le> 1 \<and>
    (graceStarted c = 1 \<longleftrightarrow> taken (length ips) as \<noteq> [] \<and>
      (\<forall>v4. (\<exists>i \<in> set (taken (length ips) as). isIPv4 (ips ! i) = v4 \<and> ext i \<noteq> []) \<or>
        (\<forall>i < length ips. isIPv4 (ips ! i) = v4 \<longrightarrow> i \<in> set (taken (length ips) as))))"
proof -
  define ts where "ts = taken (length ips) as"
  have r: "reflects ips (map (\<lambda>i. (ips ! i, ext i)) ts) c" using collect_reflects [OF assms(1)] by (simp add: ts_def)
  have p: "pending c f = int (card {i. i < length ips \<and> isIPv4 (ips ! i) = f \<and> i \<notin> set ts})" for f
    using r count_taken [of ts ips "\<lambda>l. isIPv4 l = f"] assms(2,3) by (simp add: reflects_def ts_def filter_map comp_def)
  have m: "mapped c f \<longleftrightarrow> (\<exists>i \<in> set ts. isIPv4 (ips ! i) = f \<and> ext i \<noteq> [])" for f
    using r by (auto simp: reflects_def)
  have z: "pending c f > 0 \<longleftrightarrow> \<not> (\<forall>i < length ips. isIPv4 (ips ! i) = f \<longrightarrow> i \<in> set ts)" for f
    unfolding p by (auto simp: card_gt_0_iff)
  have "settled c \<longleftrightarrow> (\<forall>f. mapped c f \<or> \<not> pending c f > 0)" unfolding settled_def by (metis (full_types))
  then have s: "settled c \<longleftrightarrow> (\<forall>f. (\<exists>i \<in> set ts. isIPv4 (ips ! i) = f \<and> ext i \<noteq> []) \<or> (\<forall>i < length ips. isIPv4 (ips ! i) = f \<longrightarrow> i \<in> set ts))"
    unfolding m z by blast
  have "graceStarted c = (if ts \<noteq> [] \<and> settled c then 1 else 0)" using r by (simp add: reflects_def)
  then show ?thesis by (simp only: s flip: ts_def) simp
qed

definition grace_example_ips :: "string list" where
  "grace_example_ips = map ip_String [[10, 0, 0, 1], IPv6loopback, [10, 0, 0, 2]]"

definition grace_example_ext :: "nat \<Rightarrow> string" where
  "grace_example_ext i = [''203.0.113.9'', [], ''203.0.113.8''] ! i"

lemma grace_example:
  "length grace_example_ips = 3" "isIPv4 (grace_example_ips ! 0)" "\<not> isIPv4 (grace_example_ips ! 1)" "isIPv4 (grace_example_ips ! 2)"
  "grace_example_ext 0 \<noteq> []" "grace_example_ext 1 = []" "grace_example_ext 2 \<noteq> []"
  using parsed_family [of "[10, 0, 0, 1]"] parsed_family [of "[10, 0, 0, 2]"] parsed_family [of IPv6loopback]
  by (simp_all add: grace_example_ips_def grace_example_ext_def isIPv4_def) (simp_all add: To4_def IPv6loopback_def v4InV6Prefix_def)

lemma collect_ends: "comes_to_end n as \<Longrightarrow> \<exists>c. collect reports n as c0 = Some c"
  by (simp add: collect_taken)

theorem nat_grace_period_witness:
  "(\<exists>c. collect (\<lambda>i. (grace_example_ips ! i, grace_example_ext i)) 3 [Report 0, Report 1, Report 2] (start_collect grace_example_ips) = Some c \<and> graceStarted c = 1) \<and>
   (\<exists>c. collect (\<lambda>i. (grace_example_ips ! i, grace_example_ext i)) 3 [Report 0, Report 2, TimerFired] (start_collect grace_example_ips) = Some c \<and> graceStarted c = 0)"
proof
  note ex = grace_example
  have n3: "i < 3 \<longleftrightarrow> i = 0 \<or> i = 1 \<or> i = (2 :: nat)" for i by auto
  have t: "taken 3 [Report 0, Report 1, Report 2] = [0, 1, 2]" "taken 3 [Report 0, Report 2, TimerFired] = [0, 2]"
    and e: "comes_to_end 3 [Report 0, Report 1, Report 2]" "comes_to_end 3 [Report 0, Report 2, TimerFired]"
    by (simp_all add: numeral_3_eq_3)
  obtain c where c: "collect (\<lambda>i. (grace_example_ips ! i, grace_example_ext i)) 3 [Report 0, Report 1, Report 2] (start_collect grace_example_ips) = Some c"
    using collect_ends [OF e(1)] by blast
  show "\<exists>c. collect (\<lambda>i. (grace_example_ips ! i, grace_example_ext i)) 3 [Report 0, Report 1, Report 2] (start_collect grace_example_ips) = Some c \<and> graceStarted c = 1"
    using nat_grace_period [of grace_example_ips, unfolded ex(1), OF c, unfolded t] c by (simp add: n3)
  obtain c where c: "collect (\<lambda>i. (grace_example_ips ! i, grace_example_ext i)) 3 [Report 0, Report 2, TimerFired] (start_collect grace_example_ips) = Some c"
    using collect_ends [OF e(2)] by blast
  have "graceStarted c \<noteq> 1"
    using nat_grace_period [of grace_example_ips, unfolded ex(1), OF c, unfolded t] ex by (auto simp: n3)
  then show "\<exists>c. collect (\<lambda>i. (grace_example_ips ! i, grace_example_ext i)) 3 [Report 0, Report 2, TimerFired] (start_collect grace_example_ips) = Some c \<and> graceStarted c = 0"
    using nat_grace_period [of grace_example_ips, unfolded ex(1), OF c, unfolded t] c by (auto simp: n3)
qed


section \<open>The settings as a whole\<close>

lemma and_then_Inr:
  "and_then m f = Some (log, Inr y) \<longleftrightarrow> (\<exists>l1 x l2. m = Some (l1, Inr x) \<and> f x = Some (l2, Inr y) \<and> log = l1 @ l2)"
  by (auto simp: and_then_def split: option.splits sum.splits)

lemma call_Inr [simp]: "call ss = Some (log, Inr u) \<longleftrightarrow> log = ss"
  by (auto simp: call_def)

lemma call_err_Inr [simp]: "call_err s err = Some (log, Inr u) \<longleftrightarrow> log = [s] \<and> err = None"
  by (auto simp: call_err_def split: option.split)

lemma give_Inr [simp]: "give x = Some (log, Inr y) \<longleftrightarrow> log = [] \<and> x = y"
  by (auto simp: give_def)

lemma fail_with_Inr [simp]: "fail_with e \<noteq> Some (log, Inr y)"
  by (simp add: fail_with_def)

text \<open>The filter the ICE agent ends up with.\<close>

definition agent_filter :: "('c, 'l) setting list \<Rightarrow> (IP \<Rightarrow> bool) option \<Rightarrow> (IP \<Rightarrow> bool) option" where
  "agent_filter log f = fold (\<lambda>s f. case s of SetIPFilter g \<Rightarrow> g | _ \<Rightarrow> f) log f"

definition network_settings :: "('c, 'l) setting list \<Rightarrow> network_type list list" where
  "network_settings log = concat (map (\<lambda>s. case s of SetNetworkTypes ns \<Rightarrow> [ns] | _ \<Rightarrow> []) log)"

lemma agent_filter_simps [simp]:
  "agent_filter [] f = f" "agent_filter (xs @ ys) f = agent_filter ys (agent_filter xs f)"
  "agent_filter (s # ss) f = agent_filter ss (case s of SetIPFilter g \<Rightarrow> g | _ \<Rightarrow> f)"
  by (simp_all add: agent_filter_def)

lemma network_settings_simps [simp]:
  "network_settings [] = []" "network_settings (xs @ ys) = network_settings xs @ network_settings ys"
  "network_settings (s # ss) = (case s of SetNetworkTypes ns \<Rightarrow> [ns] | _ \<Rightarrow> []) @ network_settings ss"
  by (simp_all add: network_settings_def)

lemma plain_settings [simp]:
  "agent_filter (sctp_settings conf) f = f" "network_settings (sctp_settings conf) = []"
  "agent_filter (acceptance_settings conf) f = f" "network_settings (acceptance_settings conf) = []"
  "agent_filter (case h of Some f \<Rightarrow> [SetInterfaceFilter f] | None \<Rightarrow> []) f = f"
  "network_settings (case h of Some f \<Rightarrow> [SetInterfaceFilter f] | None \<Rightarrow> []) = []"
  by (simp_all add: sctp_settings_def acceptance_settings_def split: option.split)

text \<open>What the calls of \<open>CreateUDPMuxesFromPorts\<close> did, call by call.\<close>

definition mux_effects :: "('c, 'l) setting list \<Rightarrow> 'c effect list list" where
  "mux_effects log = concat (map (\<lambda>s. case s of MuxEffects effs \<Rightarrow> [effs] | _ \<Rightarrow> []) log)"

lemma mux_effects_simps [simp]:
  "mux_effects [] = []" "mux_effects (xs @ ys) = mux_effects xs @ mux_effects ys"
  "mux_effects (s # ss) = (case s of MuxEffects effs \<Rightarrow> [effs] | _ \<Rightarrow> []) @ mux_effects ss"
  by (simp_all add: mux_effects_def)

lemma plain_mux_effects [simp]:
  "mux_effects (sctp_settings conf) = []" "mux_effects (acceptance_settings conf) = []"
  "mux_effects (case h of Some f \<Rightarrow> [SetInterfaceFilter f] | None \<Rightarrow> []) = []"
  by (simp_all add: sctp_settings_def acceptance_settings_def split: option.split)

lemma ip_filter_stage:
  "ip_filter conf = Some (l, Inr f) \<Longrightarrow> agent_filter l None = f \<and> network_settings l = [] \<and> mux_effects l = []"
  by (auto simp: ip_filter_def and_then_Inr split: if_splits sum.splits)

lemma nat_stage:
  "nat_settings env conf ifFilt ipFilt = Some (l, Inr p) \<Longrightarrow> agent_filter l ipFilt = snd p \<and> network_settings l = [] \<and> mux_effects l = []"
  by (auto simp: nat_settings_def and_then_Inr SetNAT1To1AddressRewriteRules_def Let_def split: if_splits sum.splits option.splits)

text \<open>
  A call listened, on each of the \<open>ports\<close>, on the local addresses that pass the filter
  for interfaces of the configuration and the filter \<open>f\<close>, and closed nothing; and the muxes are made of the connections.
\<close>

definition listening :: "('n, 'e, 'c, 'l) webrtc_env \<Rightarrow> RTCConfig \<Rightarrow> (IP \<Rightarrow> bool) option \<Rightarrow> nat \<Rightarrow> int list \<Rightarrow> 'c effect list \<Rightarrow> bool" where
  "listening env conf f k ports effs \<longleftrightarrow> (\<exists>n ips. stdNet env k = Inr n \<and>
     localInterfaces n (interface_filter conf) f (netIsIPv4 env) (netIsIPv6 env) (udpNetworks env) (EnableLoopbackCandidate conf) = Inr ips \<and>
     map fst (opened effs) = List.product ips ports \<and>
     (\<forall>((ip, port), c) \<in> set (opened effs). listenUDP env k ip port = Inr c) \<and> closed effs = [])"

definition muxes_over :: "('n, 'e, 'c, 'l) webrtc_env \<Rightarrow> RTCConfig \<Rightarrow> 'c effect list \<Rightarrow> addr list list" where
  "muxes_over env conf effs = map (\<lambda>(at, c). newUDPMux env (if BatchSize (BatchIO conf) > 0
     then netBatchConn env c (BatchSize (BatchIO conf)) (MaxFlushInterval (BatchIO conf)) else c)) (opened effs)"

lemma mux_options_params:
  assumes "params = fold (\<lambda>opt. opt) (mux_options conf ifFilt ipFilt) \<lparr>ifFilter = None, ipFilter = None, networks = ns, readBufferSize = 0,
      writeBufferSize = 0, includeLoopback = False, net = None, batchWriteSize = 0, batchWriteInterval = 0\<rparr>"
  shows "ifFilter params = ifFilt" "ipFilter params = ipFilt" "networks params = ns" "net params = None"
    "includeLoopback params = EnableLoopbackCandidate conf"
    "conn_of batch params c = (if BatchSize (BatchIO conf) > 0 then batch c (BatchSize (BatchIO conf)) (MaxFlushInterval (BatchIO conf)) else c)"
  unfolding assms mux_options_def conn_of_def
  by (simp_all add: UDPMuxFromPortWithReadBufferSize_def UDPMuxFromPortWithWriteBufferSize_def UDPMuxFromPortWithLoopback_def
      UDPMuxFromPortWithIPFilter_def UDPMuxFromPortWithInterfaceFilter_def UDPMuxFromPortWithBatchWrite_def split: option.split)

lemma create_muxes_call_Inr:
  assumes "create_muxes_call env k ports (mux_options conf (interface_filter conf) f) = Some (l, Inr muxes)"
  shows "\<exists>effs. l = [MuxEffects effs] \<and> listening env conf f k ports effs \<and> muxes = muxes_over env conf effs"
proof -
  from assms obtain effs where l: "l = [MuxEffects effs]" and
    c: "CreateUDPMuxesFromPorts (netIsIPv4 env) (netIsIPv6 env) (udpNetworks env) (stdNet env k) (listenUDP env k) (netBatchConn env)
        (newUDPMux env) ports (mux_options conf (interface_filter conf) f) = (effs, Inr muxes)"
    by (auto simp: create_muxes_call_def split: prod.splits sum.splits)
  from CreateUDPMuxesFromPorts_spec [OF c refl, unfolded mux_options_params [OF refl]] l show ?thesis
    by (intro exI [of _ effs]) (auto simp: listening_def listened_def muxes_over_def Let_def split: sum.splits)
qed

text \<open>Nothing is listened on but what the filter lets through.\<close>

lemma listening_filtered:
  "listening env conf (Some f) k ports effs \<Longrightarrow> ((ip, port), c) \<in> set (opened effs) \<Longrightarrow> f ip \<and> port \<in> set ports"
proof -
  assume "listening env conf (Some f) k ports effs" and c: "((ip, port), c) \<in> set (opened effs)"
  then obtain n ips where "stdNet env k = Inr n" and n: "localInterfaces n (interface_filter conf) (Some f) (netIsIPv4 env) (netIsIPv6 env) (udpNetworks env)
      (EnableLoopbackCandidate conf) = Inr ips" "map fst (opened effs) = List.product ips ports" unfolding listening_def by blast
  have "(ip, port) \<in> set (map fst (opened effs))" using c by force
  then have "ip \<in> set ips" "port \<in> set ports" unfolding n(2) by auto
  then show "f ip \<and> port \<in> set ports" using localInterfaces_filtered [OF n(1)] by blast
qed

text \<open>The mux over the configured ports, as many as there are processors, with a standalone one on the STUN port if wanted.\<close>

definition udp_mux_made :: "('n, 'e, 'c, 'l) webrtc_env \<Rightarrow> RTCConfig \<Rightarrow> (IP \<Rightarrow> bool) option \<Rightarrow> 'c effect list list \<Rightarrow> MultiPortsUDPMux \<Rightarrow> bool" where
  "udp_mux_made env conf f made m \<longleftrightarrow>
    (\<exists>effs. listening env conf f 0 (take (numCPU env) (ToSlice (UDPPort conf))) effs \<and>
      (if UseStunPortAsICE conf
       then \<exists>effs'. listening env conf f 1 [3478] effs' \<and> made = [effs, effs'] \<and>
         NewMultiPortsUDPMux (muxOrder env) (muxes_over env conf effs) (muxes_over env conf effs') = Some m
       else made = [effs] \<and> NewMultiPortsUDPMux (muxOrder env) (muxes_over env conf effs) [] = Some m))"

lemma udp_mux_made_filtered:
  "udp_mux_made env conf (Some f) made m \<Longrightarrow> effs \<in> set made \<Longrightarrow> ((ip, port), c) \<in> set (opened effs) \<Longrightarrow> f ip"
  using listening_filtered by (fastforce simp: udp_mux_made_def split: if_splits)

lemma udp_stage:
  assumes "udp_settings env conf (interface_filter conf) f = Some (l, Inr q)"
  shows "agent_filter l g = g \<and> network_settings l = [] \<and> fst q = (if ForceTCP conf then [] else [UDP4, UDP6]) \<and>
    (snd q \<noteq> None \<longleftrightarrow> \<not> ForceTCP conf \<and> \<not> (ICEPortRangeStart conf \<noteq> 0 \<and> ICEPortRangeEnd conf \<noteq> 0) \<and> Valid (UDPPort conf)) \<and>
    (case snd q of None \<Rightarrow> mux_effects l = [] | Some m \<Rightarrow> udp_mux_made env conf f (mux_effects l) m)"
proof (cases "\<not> ForceTCP conf \<and> \<not> (ICEPortRangeStart conf \<noteq> 0 \<and> ICEPortRangeEnd conf \<noteq> 0) \<and> Valid (UDPPort conf)")
  case False
  with assms show ?thesis by (auto simp: udp_settings_def and_then_Inr Let_def split: if_splits)
next
  case True
  let ?opts = "mux_options conf (interface_filter conf) f"
  from assms True obtain l1 muxes l2 standalone m where
    s: "create_muxes_call env 0 (take (numCPU env) (ToSlice (UDPPort conf))) ?opts = Some (l1, Inr muxes)"
      "(if UseStunPortAsICE conf then create_muxes_call env 1 [3478] ?opts else give []) = Some (l2, Inr standalone)"
      "NewMultiPortsUDPMux (muxOrder env) muxes standalone = Some m"
    and l: "l = l1 @ l2 @ [SetICEUDPMux m]" "q = ([UDP4, UDP6], Some m)"
    by (auto simp: udp_settings_def and_then_Inr Let_def simp del: if_image_distrib split: option.splits)
  from create_muxes_call_Inr [OF s(1)] obtain effs where
    e: "l1 = [MuxEffects effs]" "listening env conf f 0 (take (numCPU env) (ToSlice (UDPPort conf))) effs" "muxes = muxes_over env conf effs" by blast
  show ?thesis
  proof (cases "UseStunPortAsICE conf")
    case True
    then have "create_muxes_call env 1 [3478] ?opts = Some (l2, Inr standalone)" using s(2) by simp
    from create_muxes_call_Inr [OF this] e s(3) l True \<open>\<not> ForceTCP conf \<and> _\<close> show ?thesis by (auto simp: udp_mux_made_def)
  next
    case False
    then show ?thesis using s(2,3) e l \<open>\<not> ForceTCP conf \<and> _\<close> by (auto simp: udp_mux_made_def)
  qed
qed

lemma tcp_stage:
  "tcp_settings env conf nts = Some (l, Inr r) \<Longrightarrow>
    agent_filter l g = g \<and> network_settings l = [] \<and> mux_effects l = [] \<and> fst r = nts @ (if TCPPort conf = 0 then [] else [TCP4, TCP6]) \<and>
    (snd r \<noteq> None \<longleftrightarrow> TCPPort conf \<noteq> 0)"
  by (auto simp: tcp_settings_def and_then_Inr split: if_splits sum.splits)

text \<open>
  C34. When the settings of a node are made, its candidates are of UDP unless only TCP is allowed and of TCP when it
  has a TCP port, and never of neither; there is a UDP mux exactly when there is a UDP port and no port range. That mux is made
  of connections on exactly the local addresses that pass the configured filter for interfaces and the filter of the ICE agent (also
  when only external addresses are wanted), on each of the configured ports, as many as there are processors, and on the STUN
  port if it is to be used; so no address is listened on that the agent does not let through. Without a UDP mux no
  connection is opened.
\<close>

theorem webrtc_config_networks:
  fixes env :: "('n, 'e, 'c, 'l) webrtc_env"
  assumes "NewWebRTCConfig env conf = Some (log, Inr w)"
  shows "network_settings log = [(if ForceTCP conf then [] else [UDP4, UDP6]) @ (if TCPPort conf = 0 then [] else [TCP4, TCP6])] \<and>
    (\<not> ForceTCP conf \<or> TCPPort conf \<noteq> 0) \<and> (TCPMuxListener w \<noteq> None \<longleftrightarrow> TCPPort conf \<noteq> 0) \<and>
    (UDPMux w \<noteq> None \<longleftrightarrow> \<not> ForceTCP conf \<and> \<not> (ICEPortRangeStart conf \<noteq> 0 \<and> ICEPortRangeEnd conf \<noteq> 0) \<and> Valid (UDPPort conf)) \<and>
    (case UDPMux w of
       None \<Rightarrow> mux_effects log = []
     | Some m \<Rightarrow> udp_mux_made env conf (agent_filter log None) (mux_effects log) m) \<and>
    (\<forall>effs \<in> set (mux_effects log). \<forall>((ip, port), c) \<in> set (opened effs).
      case agent_filter log None of Some f \<Rightarrow> f ip | None \<Rightarrow> True)"
proof -
  let ?fin = "\<lambda>p q r. (if length (fst r) = 0 then fail_with ForcedTCP
        else and_then (call (SetNetworkTypes (fst r) # acceptance_settings conf @ (if UseICELite conf then [SetLite] else []))) (\<lambda>_.
          case newStdnet env of
            Some err \<Rightarrow> fail_with (PionError err)
          | None \<Rightarrow> and_then (call [SetNet]) (\<lambda>_. give
              \<lparr>ICEServers = ice_servers conf, UDPMux = snd q, TCPMuxListener = snd r,
               NAT1To1IPs = fst p, conf_UseMDNS = UseMDNS conf\<rparr>)))"
  let ?l0 = "sctp_settings conf @ (case interface_filter conf of Some f \<Rightarrow> [SetInterfaceFilter f] | None \<Rightarrow> [])"
  let ?l3 = "if \<not> UseMDNS conf then [DisableMulticastDNS] else []"
  have "\<exists>l2 f1 l4 p l5 q l6 r l7. (ip_filter conf :: ('c, 'l, 'e, _) pion_setup) = Some (l2, Inr f1) \<and> nat_settings env conf (interface_filter conf) f1 = Some (l4, Inr p) \<and>
      udp_settings env conf (interface_filter conf) (snd p) = Some (l5, Inr q) \<and> tcp_settings env conf (fst q) = Some (l6, Inr r) \<and>
      ?fin p q r = Some (l7, Inr w) \<and> log = ?l0 @ l2 @ ?l3 @ l4 @ l5 @ l6 @ l7"
    using assms unfolding NewWebRTCConfig_def Let_def and_then_Inr [of "call _"] and_then_Inr [of "ip_filter _"] and_then_Inr [of "nat_settings _ _ _ _"]
      and_then_Inr [of "udp_settings _ _ _ _"] and_then_Inr [of "tcp_settings _ _ _"] case_prod_beta call_Inr
    by (elim exE conjE) (intro exI conjI, assumption+, simp)
  then obtain l2 f1 l4 p l5 q l6 r l7 where
    s: "(ip_filter conf :: ('c, 'l, 'e, _) pion_setup) = Some (l2, Inr f1)" "nat_settings env conf (interface_filter conf) f1 = Some (l4, Inr p)"
      "udp_settings env conf (interface_filter conf) (snd p) = Some (l5, Inr q)" "tcp_settings env conf (fst q) = Some (l6, Inr r)"
    and e: "?fin p q r = Some (l7, Inr w)" and l: "log = ?l0 @ l2 @ ?l3 @ l4 @ l5 @ l6 @ l7" by blast
  from e have n: "fst r \<noteq> []" "UDPMux w = snd q" "TCPMuxListener w = snd r"
      "l7 = SetNetworkTypes (fst r) # acceptance_settings conf @ (if UseICELite conf then [SetLite] else []) @ [SetNet]"
    by (auto simp: and_then_Inr split: if_splits option.splits)
  note st = ip_filter_stage [OF s(1)] nat_stage [OF s(2)] udp_stage [OF s(3)] tcp_stage [OF s(4)]
  have f: "agent_filter log None = snd p" "network_settings log = [fst r]" "mux_effects log = mux_effects l5"
    unfolding l using st by (simp_all add: n(4))
  have m: "case snd q of None \<Rightarrow> mux_effects l5 = [] | Some m \<Rightarrow> udp_mux_made env conf (snd p) (mux_effects l5) m" using st(3) by blast
  have "case snd p of Some f \<Rightarrow> f ip | None \<Rightarrow> True"
    if "effs \<in> set (mux_effects l5)" "((ip, port), c) \<in> set (opened effs)" for effs ip port c
    using m udp_mux_made_filtered [OF _ that] that(1) by (cases "snd q"; cases "snd p") simp_all
  then have g: "\<forall>effs \<in> set (mux_effects l5). \<forall>((ip, port), c) \<in> set (opened effs). case snd p of Some f \<Rightarrow> f ip | None \<Rightarrow> True"
    by blast
  show ?thesis unfolding f n(2,3) using st n(1) m by (intro conjI g) auto
qed

definition example_conf :: RTCConfig where
  "example_conf = \<lparr>UDPPort = \<lparr>pr_Start = 7882, pr_End = 0\<rparr>, TCPPort = 7881, ICEPortRangeStart = 0, ICEPortRangeEnd = 0,
     UseStunPortAsICE = False, conf_NodeIP = \<lparr>V4 = ''10.0.0.1'', V6 = []\<rparr>, NodeIPAutoGenerated = True, STUNServers = [],
     UseExternalIP = False, RequireIPv4 = False, SkipExternalIPValidation = False, ExternalIPRetries = 0,
     ExternalIPRetryInterval = 0, ExternalIPStunTimeout = 0, ExternalIPValidationTimeout = 0, AdvertiseInternalIP = False,
     UseICELite = False, Interfaces = \<lparr>Includes = [], Excludes = [''docker0'']\<rparr>, IPs = \<lparr>Includes = [], Excludes = [''192.168.0.0/16'']\<rparr>,
     EnableLoopbackCandidate = False, UseMDNS = False, ExternalIPOnly = False, BatchIO = \<lparr>BatchSize = 0, MaxFlushInterval = 0\<rparr>,
     SCTPMinCwnd = 0, SCTPFastRtxWnd = 0, SCTPCwndCAStep = 0, HostAcceptanceMinWait = 0, SrflxAcceptanceMinWait = 0,
     PrflxAcceptanceMinWait = 0, RelayAcceptanceMinWait = 0, ForceTCP = False\<rparr>"

definition example_env :: "(int \<Rightarrow> string + unit) \<Rightarrow> (unit, string, addr, unit) webrtc_env" where
  "example_env listen = \<lparr>hostInterfaces = Inr [], randIntn = (\<lambda>_ _. 0), externalIP = (\<lambda>_ _ _ _ _. Inl []), addressInUse = (\<lambda>_. False),
     natArrivals = [], natOrder = id, setRules = (\<lambda>_. None), setPortRange = (\<lambda>_ _. None), numCPU = 4,
     netIsIPv4 = (\<lambda>_. True), netIsIPv6 = (\<lambda>_. False), udpNetworks = [()],
     stdNet = (\<lambda>_. Inr (Inr [\<lparr>if_Name = ''eth0'', if_Flags = 1, if_Addrs = Inr [IPNet [10, 0, 0, 1], IPNet [192, 168, 0, 1]]\<rparr>])),
     listenUDP = (\<lambda>_ ip port. Inr (UDPAddr ip port)), netBatchConn = (\<lambda>c _ _. c), newUDPMux = (\<lambda>c. [c]), muxOrder = id,
     listenTCP = listen, newStdnet = None\<rparr>"

definition example_filter :: "IP \<Rightarrow> bool" where
  "example_filter ip \<longleftrightarrow> \<not> IPNet_Contains \<lparr>net_IP = [192, 168, 0, 0], net_Mask = [255, 255, 0, 0]\<rparr> ip"

lemma example_parsed:
  "parse_nets [''192.168.0.0/16''] = (Inr [\<lparr>net_IP = [192, 168, 0, 0], net_Mask = [255, 255, 0, 0]\<rparr>] :: string webrtc_error + _)"
  by code_simp

lemma example_ip_filter: "IPFilterFromConf (IPs example_conf) = (Inr example_filter :: string webrtc_error + _)"
  by (auto simp: IPFilterFromConf_def example_conf_def example_parsed example_filter_def simp del: parse_nets.simps(2))

text \<open>Of the two addresses of the host, the one in the excluded network is not listened on.\<close>

lemma example_muxes:
  "create_muxes_call (example_env listen) 0 [7882] (mux_options example_conf (interface_filter example_conf) (Some example_filter)) =
    Some ([MuxEffects [Opened [10, 0, 0, 1] 7882 (UDPAddr [10, 0, 0, 1] 7882),
        ReadBufferSet (UDPAddr [10, 0, 0, 1] 7882) 16777216, WriteBufferSet (UDPAddr [10, 0, 0, 1] 7882) 16777216]],
      Inr [[UDPAddr [10, 0, 0, 1] 7882]])"
proof -
  have "CreateUDPMuxesFromPorts (\<lambda>_. True) (\<lambda>_. False) [()]
      (Inr (Inr [\<lparr>if_Name = ''eth0'', if_Flags = 1, if_Addrs = Inr [IPNet [10, 0, 0, 1], IPNet [192, 168, 0, 1]]\<rparr>]))
      (\<lambda>ip port. Inr (UDPAddr ip port)) (\<lambda>c _ _. c) (\<lambda>c. [c]) [7882]
      (mux_options example_conf (interface_filter example_conf) (Some example_filter)) =
    ([Opened [10, 0, 0, 1] 7882 (UDPAddr [10, 0, 0, 1] 7882), ReadBufferSet (UDPAddr [10, 0, 0, 1] 7882) 16777216,
      WriteBufferSet (UDPAddr [10, 0, 0, 1] 7882) 16777216], Inr [[UDPAddr [10, 0, 0, 1] 7882]] :: string + addr list list)"
    by code_simp
  then show ?thesis by (simp add: create_muxes_call_def example_env_def)
qed

lemma example_udp:
  "udp_settings (example_env listen) example_conf (interface_filter example_conf) (Some example_filter) =
    and_then (create_muxes_call (example_env listen) 0 [7882] (mux_options example_conf (interface_filter example_conf) (Some example_filter)))
     (\<lambda>muxes. and_then (give []) (\<lambda>standalone. case NewMultiPortsUDPMux id muxes standalone of
         None \<Rightarrow> None | Some udpMux \<Rightarrow> and_then (call [SetICEUDPMux udpMux]) (\<lambda>_. give ([UDP4, UDP6], Some udpMux))))"
  by (simp add: udp_settings_def example_conf_def example_env_def Valid_def ToSlice_def Let_def)

lemmas example_run = NewWebRTCConfig_def example_udp example_muxes example_ip_filter and_then_def call_def give_def fail_with_def
  ip_filter_def nat_settings_def tcp_settings_def NewMultiPortsUDPMux_def IsEmpty_def Let_def

lemma example_fields:
  "Includes (IPs example_conf) = []" "Excludes (IPs example_conf) = [''192.168.0.0/16'']" "UseMDNS example_conf = False"
  "conf_NodeIP example_conf = \<lparr>V4 = ''10.0.0.1'', V6 = []\<rparr>" "UseExternalIP example_conf = False" "NodeIPAutoGenerated example_conf = True"
  "TCPPort example_conf = 7881" "UseICELite example_conf = False"
  "listenTCP (example_env listen) = listen" "newStdnet (example_env listen) = None"
  by (simp_all add: example_conf_def example_env_def)

lemma example_runs: "\<exists>log w. NewWebRTCConfig (example_env (\<lambda>_. Inr ())) example_conf = Some (log, Inr w)"
  by (simp add: example_run example_fields)

theorem webrtc_config_networks_witness:
  "\<exists>log w. NewWebRTCConfig (example_env (\<lambda>_. Inr ())) example_conf = Some (log, Inr w) \<and>
     network_settings log = [[UDP4, UDP6, TCP4, TCP6]] \<and> TCPMuxListener w \<noteq> None \<and> UDPMux w \<noteq> None \<and>
     (\<exists>effs \<in> set (mux_effects log). listening (example_env (\<lambda>_. Inr ())) example_conf (agent_filter log None) 0 [7882] effs)"
proof -
  obtain log w where r: "NewWebRTCConfig (example_env (\<lambda>_. Inr ())) example_conf = Some (log, Inr w)" using example_runs by blast
  have "\<not> ForceTCP example_conf" "TCPPort example_conf \<noteq> 0" "ICEPortRangeStart example_conf = 0" "Valid (UDPPort example_conf)"
    by (simp_all add: example_conf_def Valid_def)
  moreover have "take (numCPU (example_env (\<lambda>_. Inr ()))) (ToSlice (UDPPort example_conf)) = [7882]" "\<not> UseStunPortAsICE example_conf"
    by (simp_all add: example_conf_def example_env_def ToSlice_def)
  ultimately show ?thesis using webrtc_config_networks [OF r] r by (auto simp: udp_mux_made_def)
qed

text \<open>When listening on the TCP port fails, the UDP muxes made before are left open: nothing closes them and no result refers to them.\<close>

lemma muxes_left_open:
  "\<exists>log. NewWebRTCConfig (example_env (\<lambda>_. Inl ''in use'')) example_conf = Some (log, Inl (PionError ''in use'')) \<and>
    (\<exists>effs. MuxEffects effs \<in> set log \<and> opened effs = [(([10, 0, 0, 1], 7882), UDPAddr [10, 0, 0, 1] 7882)] \<and> closed effs = [])"
  by (simp add: example_run example_fields, rule exI, rule conjI, rule disjI1, rule refl, simp)

end
