(* ===== verification/Socket_Buffer.thy ===== *)
theory Socket_Buffer
  imports Webrtc_Config
begin

text \<open>
  The check of the receive buffer a UDP socket gets, \<^verbatim>\<open>pkg/rtcconfig/rtc_unix.go\<close>. The system's calls are arguments:
  the error of \<open>ListenUDP\<close> and of \<open>File\<close>, and what \<open>GetsockoptInt\<close> returns. The check is its calls on the socket and
  the log line it writes.
\<close>

definition minUDPBufferSize :: int where "minUDPBufferSize = 5000000"

datatype socket_call = ListenedUDP4 | BufferSizeSet int | FileTaken | FileClosed | ConnClosed

text \<open>Deferred calls run last first. Without the file the size is reported as 0, and no error.\<close>

definition getUDPReadBuffer :: "'e option \<Rightarrow> 'e option \<Rightarrow> 'e + int \<Rightarrow> ('e + int) \<times> socket_call list" where
  "getUDPReadBuffer listenErr fileErr sockopt =
    (case listenErr of
       Some err \<Rightarrow> (Inl err, [])
     | None \<Rightarrow> (case fileErr of
         Some _ \<Rightarrow> (Inr 0, [ListenedUDP4, BufferSizeSet defaultUDPBufferSize, ConnClosed])
       | None \<Rightarrow> (sockopt, [ListenedUDP4, BufferSizeSet defaultUDPBufferSize, FileTaken, FileClosed, ConnClosed])))"

datatype buffer_line = TooSmall int int | BufferSize int

definition checkUDPReadBuffer :: "'e option \<Rightarrow> 'e option \<Rightarrow> 'e + int \<Rightarrow> buffer_line list \<times> socket_call list" where
  "checkUDPReadBuffer listenErr fileErr sockopt =
    (case getUDPReadBuffer listenErr fileErr sockopt of
       (Inl _, calls) \<Rightarrow> ([], calls)
     | (Inr val, calls) \<Rightarrow> ([if val < minUDPBufferSize then TooSmall val minUDPBufferSize else BufferSize val], calls))"

text \<open>On Windows nothing is checked.\<close>

definition checkUDPReadBuffer_windows :: "buffer_line list \<times> socket_call list" where
  "checkUDPReadBuffer_windows = ([], [])"

text \<open>Whatever fails, the socket and the file are closed if they were opened, the file first; a size that could not be read for want of the file is
  warned about as if it were 0.\<close>

lemma buffer_check:
  "snd (checkUDPReadBuffer listenErr fileErr sockopt) \<in> {[], [ListenedUDP4, BufferSizeSet 16777216, ConnClosed],
     [ListenedUDP4, BufferSizeSet 16777216, FileTaken, FileClosed, ConnClosed]}"
  "checkUDPReadBuffer None (Some err) sockopt = ([TooSmall 0 5000000], [ListenedUDP4, BufferSizeSet 16777216, ConnClosed])"
  by (auto simp: checkUDPReadBuffer_def getUDPReadBuffer_def defaultUDPBufferSize_def minUDPBufferSize_def split: option.split sum.split)

end
