(* ===== verification/External_IP.thy ===== *)
theory External_IP
  imports Rtc_Config
begin

text \<open>
  Finding the external address of a socket over STUN, the rest of \<^verbatim>\<open>pkg/rtcconfig/ip.go\<close>. One goroutine resolves each
  server, one queries each of its addresses, one probes each address found when it is to be validated, and the caller reads
  the socket. A step is one of their critical sections or blocking operations; they interleave in any order. Resolving,
  sockets and the STUN codec are arguments: what their calls return comes with the step (\<open>choice\<close>) or from \<open>decode\<close>, the
  transaction and the mapped address of a datagram. A datagram is its bytes as a string.
\<close>

section \<open>Probes\<close>

definition probeMagic :: string where
  "probeMagic = ''9#B8D2Nvg2xg5P$ZRwJ+f)*^Nne6*W3WamGY''"

text \<open>What \<open>sendProbe\<close> writes.\<close>

definition probe_packet :: "string \<Rightarrow> string" where
  "probe_packet nodeIP = probeMagic @ nodeIP"

definition parseProbe :: "string \<Rightarrow> string option" where
  "parseProbe b = (if take (length probeMagic) b = probeMagic then Some (drop (length probeMagic) b) else None)"

section \<open>The lookup\<close>

datatype 'e lookup_error = NoServers | NotUDPAddress | NotListening 'e | FromServer string 'e | FromProbe string 'e
  | FromCall 'e | ContextError 'e | ReadError 'e | NoAnswer

text \<open>Where a goroutine is; \<open>rto\<close> is the time to wait for the answer to the next request.\<close>

datatype 'tid task =
    Resolving string
  | Building string addr
  | Sending string 'tid int
  | Awaiting string 'tid int
  | Deleting 'tid
  | Finishing
  | Probing string
  | ProbeAwaiting string

record ('tid, 'e) lookup_state =
  tasks :: "'tid task list"
  wg :: int
  deadlineSet :: bool
  pending_req :: "'tid \<rightharpoonup> string"
  answered :: "'tid set"
  errs :: "'e lookup_error list"
  fallbackIP :: string
  probed :: "string list"
  result :: "('e lookup_error list + string) option"

datatype ('tid, 'e) choice =
    Resolved "'e + string \<times> string" "'e + int" "'e + IP list" | BuildFails 'e | Built 'tid | WriteFails 'e | Written | Answered | StunTimeout | Retransmit
  | EntryDeleted | GroupDone | ProbeFails 'e | ProbeSent | ProbeDeadline 'e | ProbeCancelled

definition add_err :: "'e lookup_error \<Rightarrow> ('tid, 'e) lookup_state \<Rightarrow> ('tid, 'e) lookup_state" where
  "add_err err s = s\<lparr>errs := errs s @ [err]\<rparr>"

text \<open>The first address of each family.\<close>

definition server_addrs :: "IP list \<Rightarrow> IP list" where
  "server_addrs ips =
    (case find (\<lambda>ip. To4 ip \<noteq> None) ips of Some ip \<Rightarrow> [ip_key ip] | None \<Rightarrow> []) @
    (case find (\<lambda>ip. To4 ip = None) ips of Some ip \<Rightarrow> [ip] | None \<Rightarrow> [])"

text \<open>The addresses of a server, from what the calls of \<open>SplitHostPort\<close>, \<open>LookupPort\<close> and \<open>LookupNetIP\<close> return.\<close>

definition resolveSTUNServer :: "'e + string \<times> string \<Rightarrow> 'e + int \<Rightarrow> 'e + IP list \<Rightarrow> 'e + addr list" where
  "resolveSTUNServer hostPort port ips =
    (case hostPort of
       Inl err \<Rightarrow> Inl err
     | Inr _ \<Rightarrow> (case port of
         Inl err \<Rightarrow> Inl err
       | Inr port \<Rightarrow> (case ips of
           Inl err \<Rightarrow> Inl err
         | Inr ips \<Rightarrow> Inr (map (\<lambda>ip. UDPAddr ip (port mod 65536)) (server_addrs ips)))))"

text \<open>A step of a goroutine: where it is next and the goroutines it starts; \<open>None\<close> when the choice does not fit.\<close>

definition task_step :: "('tid, 'e) choice \<Rightarrow> 'tid task \<Rightarrow> ('tid, 'e) lookup_state \<Rightarrow> ('tid task \<times> 'tid task list \<times> ('tid, 'e) lookup_state) option" where
  "task_step c t s = (case t of
     Resolving server \<Rightarrow> (case c of
       Resolved hostPort port ips \<Rightarrow> (case resolveSTUNServer hostPort port ips of
         Inl err \<Rightarrow> Some (Finishing, [], add_err (FromCall err) s)
       | Inr addrs \<Rightarrow> Some (Finishing, map (Building server) addrs, s))
     | _ \<Rightarrow> None)
   | Building server addr \<Rightarrow> (case c of
       BuildFails err \<Rightarrow> Some (Finishing, [], add_err (FromCall err) s)
     | Built tid \<Rightarrow> Some (Sending server tid 500000000, [], s\<lparr>pending_req := (pending_req s)(tid \<mapsto> server)\<rparr>)
     | _ \<Rightarrow> None)
   | Sending server tid rto \<Rightarrow> (case c of
       WriteFails err \<Rightarrow> Some (Deleting tid, [], add_err (FromServer server err) s)
     | Written \<Rightarrow> Some (Awaiting server tid rto, [], s)
     | _ \<Rightarrow> None)
   | Awaiting server tid rto \<Rightarrow> (case c of
       Answered \<Rightarrow> if tid \<in> answered s then Some (Deleting tid, [], s) else None
     | StunTimeout \<Rightarrow> Some (Deleting tid, [], s)
     | Retransmit \<Rightarrow> Some (Sending server tid (wrap64 (rto * 2)), [], s)
     | _ \<Rightarrow> None)
   | Deleting tid \<Rightarrow> (case c of
       EntryDeleted \<Rightarrow> Some (Finishing, [], s\<lparr>pending_req := (pending_req s)(tid := None)\<rparr>)
     | _ \<Rightarrow> None)
   | Probing ip \<Rightarrow> (case c of
       ProbeFails err \<Rightarrow> Some (Finishing, [], add_err (FromProbe ip err) s)
     | ProbeSent \<Rightarrow> Some (ProbeAwaiting ip, [], s)
     | _ \<Rightarrow> None)
   | ProbeAwaiting ip \<Rightarrow> (case c of
       ProbeDeadline err \<Rightarrow> Some (Finishing, [], add_err (FromProbe ip err) s)
     | ProbeCancelled \<Rightarrow> Some (Finishing, [], s)
     | _ \<Rightarrow> None)
   | Finishing \<Rightarrow> None)"

definition spawn :: "'tid task list \<Rightarrow> ('tid, 'e) lookup_state \<Rightarrow> ('tid, 'e) lookup_state" where
  "spawn ts s = s\<lparr>tasks := tasks s @ ts, wg := wg s + int (length ts)\<rparr>"

text \<open>The \<open>i\<close>-th goroutine goes on; \<open>GroupDone\<close> is its \<open>wg.Done\<close>.\<close>

definition run_task :: "nat \<Rightarrow> ('tid, 'e) choice \<Rightarrow> ('tid, 'e) lookup_state \<Rightarrow> ('tid, 'e) lookup_state option" where
  "run_task i c s =
    (if i \<ge> length (tasks s) then None
     else case c of
       GroupDone \<Rightarrow> if tasks s ! i = Finishing then Some (s\<lparr>tasks := take i (tasks s) @ drop (Suc i) (tasks s), wg := wg s - 1\<rparr>) else None
     | _ \<Rightarrow> (case task_step c (tasks s ! i) s of
         None \<Rightarrow> None
       | Some (t, started, s') \<Rightarrow> Some (spawn started (s'\<lparr>tasks := (tasks s)[i := t]\<rparr>))))"

text \<open>The goroutine that waits for the others sets the read deadline, once.\<close>

definition wake_reader :: "('tid, 'e) lookup_state \<Rightarrow> ('tid, 'e) lookup_state option" where
  "wake_reader s = (if wg s = 0 \<and> \<not> deadlineSet s then Some (s\<lparr>deadlineSet := True\<rparr>) else None)"

text \<open>The caller's loop: a datagram read, and an error of the read with the error of the context, if it has one.\<close>

definition on_datagram :: "bool \<Rightarrow> bool \<Rightarrow> (string \<Rightarrow> ('tid \<times> ('e + IP)) option) \<Rightarrow> string \<Rightarrow> ('tid, 'e) lookup_state \<Rightarrow> ('tid, 'e) lookup_state" where
  "on_datagram validate preferIPv4 decode b s =
    (case parseProbe b of
       Some ip \<Rightarrow> if ip \<in> set (probed s) then s\<lparr>result := Some (Inr ip)\<rparr> else s
     | None \<Rightarrow> (case decode b of
         None \<Rightarrow> s
       | Some (tid, xorAddr) \<Rightarrow> (case pending_req s tid of
           None \<Rightarrow> s
         | Some server \<Rightarrow>
             let s = s\<lparr>pending_req := (pending_req s)(tid := None)\<rparr>;
                 startProbe = (case xorAddr of Inr ip \<Rightarrow> validate \<and> ip_String ip \<notin> set (probed s) | Inl err \<Rightarrow> False);
                 s = (case xorAddr of
                   Inr ip \<Rightarrow> if startProbe then spawn [Probing (ip_String ip)] (s\<lparr>probed := probed s @ [ip_String ip]\<rparr>) else s
                 | Inl err \<Rightarrow> s);
                 s = s\<lparr>answered := insert tid (answered s)\<rparr>
             in case xorAddr of
                Inl err \<Rightarrow> add_err (FromServer server err) s
              | Inr ip \<Rightarrow>
                  if validate then s
                  else if preferIPv4 \<and> To4 ip = None then (if fallbackIP s = [] then s\<lparr>fallbackIP := ip_String ip\<rparr> else s)
                  else s\<lparr>result := Some (Inr (ip_String ip))\<rparr>)))"

definition on_read_error :: "'e option \<Rightarrow> 'e \<Rightarrow> bool \<Rightarrow> ('tid, 'e) lookup_state \<Rightarrow> ('tid, 'e) lookup_state" where
  "on_read_error ctxErr err timeout s =
    (if fallbackIP s \<noteq> [] then s\<lparr>result := Some (Inr (fallbackIP s))\<rparr>
     else
       let s = (case ctxErr of
           Some e \<Rightarrow> add_err (ContextError e) s
         | None \<Rightarrow> if \<not> timeout then add_err (ReadError err) s
             else if length (errs s) = 0 then add_err NoAnswer s
             else s)
       in s\<lparr>result := Some (Inl (errs s))\<rparr>)"

section \<open>Starting it\<close>

text \<open>The network to resolve servers in: \<open>''ip''\<close>, \<open>''ip4''\<close> or \<open>''ip6''\<close>.\<close>

definition ip_network :: "string \<Rightarrow> addr option \<Rightarrow> string" where
  "ip_network network laddr =
    (let ipNetwork = ''ip'' @ (if take 3 network = ''udp'' then drop 3 network else network)
     in case laddr of
          Some (UDPAddr ip port) \<Rightarrow>
            if ipNetwork = ''ip'' \<and> ip \<noteq> [] then (if To4 ip \<noteq> None then ''ip4'' else ''ip6'') else ipNetwork
        | _ \<Rightarrow> ipNetwork)"

text \<open>The options of the running lookup: whether addresses are validated, whether IPv4 is preferred, the times after which
  the whole lookup and the requests end, and the one after which a probe does.\<close>

record lookup_params =
  lp_validate :: bool
  lp_preferIPv4 :: bool
  lp_ipNetwork :: string
  lp_timeout :: int
  lp_stunTimeout :: int
  lp_probeTimeout :: int

definition start_lookup :: "string list \<Rightarrow> ('tid, 'e) lookup_state" where
  "start_lookup stunServers =
    \<lparr>tasks = map Resolving stunServers, wg = int (length stunServers), deadlineSet = False, pending_req = Map.empty, answered = {},
     errs = [], fallbackIP = [], probed = [], result = None\<rparr>"

definition findExternalIP :: "(string \<Rightarrow> addr option \<Rightarrow> 'e option) \<Rightarrow> string list \<Rightarrow> addr option \<Rightarrow> bool \<Rightarrow> string \<Rightarrow>
    (externalIPOptions \<Rightarrow> externalIPOptions) list \<Rightarrow> 'e lookup_error + lookup_params \<times> ('tid, 'e) lookup_state" where
  "findExternalIP listenUDP stunServers localAddr validate network opts =
    (let o' = resolveExternalIPOptions opts in
     case localAddr of
       Some NotUDPAddr \<Rightarrow> Inl NotUDPAddress
     | _ \<Rightarrow>
         let validate = (validate \<and> localAddr \<noteq> None); ipNetwork = ip_network network localAddr in
         case listenUDP network localAddr of
           Some err \<Rightarrow> Inl (NotListening err)
         | None \<Rightarrow> Inr (\<lparr>lp_validate = validate, lp_preferIPv4 = (ipNetwork = ''ip''), lp_ipNetwork = ipNetwork,
             lp_timeout = lookupTimeout o' validate, lp_stunTimeout = stunPingTimeout o', lp_probeTimeout = validationTimeout o'\<rparr>,
             start_lookup stunServers))"

definition getExternalIP :: "(string \<Rightarrow> addr option \<Rightarrow> 'e option) \<Rightarrow> string list \<Rightarrow> addr option \<Rightarrow> bool \<Rightarrow> string \<Rightarrow>
    (externalIPOptions \<Rightarrow> externalIPOptions) list \<Rightarrow> 'e lookup_error + lookup_params \<times> ('tid, 'e) lookup_state" where
  "getExternalIP listenUDP stunServers localAddr validate network opts =
    (if length stunServers = 0 then Inl NoServers else findExternalIP listenUDP stunServers localAddr validate network opts)"

definition GetExternalIP where
  "GetExternalIP listenUDP stunServers localAddr opts = getExternalIP listenUDP stunServers localAddr True ''udp'' opts"

definition GetExternalIPv4 where
  "GetExternalIPv4 listenUDP stunServers localAddr opts = getExternalIP listenUDP stunServers localAddr True ''udp4'' opts"

section \<open>Its steps\<close>

datatype ('tid, 'e) lookup_event = Task nat "('tid, 'e) choice" | Wake | Datagram string | ReadFails "'e option" 'e bool

text \<open>The caller reads until it has a result. A read times out only once the deadline is set.\<close>

fun lookup_step :: "lookup_params \<Rightarrow> (string \<Rightarrow> ('tid \<times> ('e + IP)) option) \<Rightarrow> ('tid, 'e) lookup_event \<Rightarrow> ('tid, 'e) lookup_state \<Rightarrow> ('tid, 'e) lookup_state option" where
  "lookup_step lp decode (Task i c) s = run_task i c s"
| "lookup_step lp decode Wake s = wake_reader s"
| "lookup_step lp decode (Datagram b) s = (if result s = None then Some (on_datagram (lp_validate lp) (lp_preferIPv4 lp) decode b s) else None)"
| "lookup_step lp decode (ReadFails ctxErr err timeout) s =
    (if result s = None \<and> (timeout \<longrightarrow> deadlineSet s) then Some (on_read_error ctxErr err timeout s) else None)"

inductive looks_up :: "lookup_params \<Rightarrow> (string \<Rightarrow> ('tid \<times> ('e + IP)) option) \<Rightarrow> string list \<Rightarrow> ('tid, 'e) lookup_event list \<Rightarrow> ('tid, 'e) lookup_state \<Rightarrow> bool"
  for lp decode servers where
  start: "looks_up lp decode servers [] (start_lookup servers)"
| step: "looks_up lp decode servers evs s \<Longrightarrow> lookup_step lp decode ev s = Some s' \<Longrightarrow> looks_up lp decode servers (evs @ [ev]) s'"

inductive_cases looks_up_snoc: "looks_up lp decode servers (evs @ [ev]) s"


lemma parseProbe_packet [simp]: "parseProbe (probe_packet ip) = Some ip"
  by (simp add: parseProbe_def probe_packet_def)

section \<open>What counts the goroutines\<close>

text \<open>A query between registering its transaction and deleting it.\<close>

definition owns :: "'tid \<Rightarrow> 'tid task \<Rightarrow> bool" where
  "owns tid t \<longleftrightarrow> (case t of Sending _ x _ \<Rightarrow> x = tid | Awaiting _ x _ \<Rightarrow> x = tid | Deleting x \<Rightarrow> x = tid | _ \<Rightarrow> False)"

definition group_ok :: "('tid, 'e) lookup_state \<Rightarrow> bool" where
  "group_ok s \<longleftrightarrow> wg s = int (length (tasks s)) \<and>
    (\<forall>tid server. pending_req s tid = Some server \<longrightarrow> (\<exists>t \<in> set (tasks s). owns tid t)) \<and>
    (deadlineSet s \<longrightarrow> tasks s = [])"

lemma spawn_simps [simp]:
  "tasks (spawn ts s) = tasks s @ ts" "wg (spawn ts s) = wg s + int (length ts)" "deadlineSet (spawn ts s) = deadlineSet s"
  "pending_req (spawn ts s) = pending_req s" "answered (spawn ts s) = answered s" "errs (spawn ts s) = errs s"
  "fallbackIP (spawn ts s) = fallbackIP s" "probed (spawn ts s) = probed s" "result (spawn ts s) = result s"
  by (simp_all add: spawn_def)

lemma add_err_simps [simp]:
  "tasks (add_err e s) = tasks s" "wg (add_err e s) = wg s" "deadlineSet (add_err e s) = deadlineSet s"
  "pending_req (add_err e s) = pending_req s" "answered (add_err e s) = answered s" "errs (add_err e s) = errs s @ [e]"
  "fallbackIP (add_err e s) = fallbackIP s" "probed (add_err e s) = probed s" "result (add_err e s) = result s"
  by (simp_all add: add_err_def)

text \<open>A step of a goroutine changes nothing but errors and pending transactions, and a transaction belongs to it.\<close>

lemma task_step_frame:
  assumes "task_step c t s = Some (t', started, s')"
  shows "tasks s' = tasks s" "wg s' = wg s" "deadlineSet s' = deadlineSet s" "answered s' = answered s" "fallbackIP s' = fallbackIP s"
    "probed s' = probed s" "result s' = result s" "c \<noteq> GroupDone"
    "\<exists>es. errs s' = errs s @ es"
    "pending_req s' tid = Some server \<Longrightarrow> owns tid t' \<or> pending_req s tid = Some server \<and> \<not> owns tid t"
    "pending_req s' tid = Some server \<Longrightarrow> pending_req s tid = Some server \<or> c = Built tid"
  using assms
  by (auto simp: task_step_def owns_def split: task.splits choice.splits sum.splits if_splits)

lemma run_task_cases:
  assumes "run_task i c s = Some s'"
  obtains (Done) "c = GroupDone" "i < length (tasks s)" "tasks s ! i = Finishing"
      "s' = s\<lparr>tasks := take i (tasks s) @ drop (Suc i) (tasks s), wg := wg s - 1\<rparr>"
  | (Step) t started s'' where "i < length (tasks s)" "task_step c (tasks s ! i) s = Some (t, started, s'')"
      "s' = spawn started (s''\<lparr>tasks := (tasks s)[i := t]\<rparr>)"
proof (cases "c = GroupDone")
  case True
  then show ?thesis using assms Done by (auto simp: run_task_def split: if_splits)
next
  case False
  then have "run_task i c s = (if i \<ge> length (tasks s) then None else case task_step c (tasks s ! i) s of
      None \<Rightarrow> None | Some (t, started, s') \<Rightarrow> Some (spawn started (s'\<lparr>tasks := (tasks s)[i := t]\<rparr>)))"
    by (cases c) (simp_all add: run_task_def)
  then show ?thesis using assms Step by (auto split: if_splits option.splits prod.splits)
qed

lemma owner_elsewhere:
  assumes "t \<in> set ts" "\<not> owns tid (ts ! i)" "owns tid t"
  shows "\<exists>t \<in> set (ts[i := u]). owns tid t" "\<exists>t \<in> set (take i ts @ drop (Suc i) ts). owns tid t"
proof -
  from assms obtain j where j: "j < length ts" "ts ! j = t" "j \<noteq> i" by (metis in_set_conv_nth)
  then have "ts[i := u] ! j = t" by simp
  then show "\<exists>t \<in> set (ts[i := u]). owns tid t" using j assms(3) by (metis length_list_update nth_mem)
  have "t \<in> set (take i ts @ drop (Suc i) ts)"
  proof (cases "j < i")
    case True then show ?thesis using j by (auto simp: in_set_conv_nth)
  next
    case False
    then have "drop (Suc i) ts ! (j - Suc i) = t" "j - Suc i < length (drop (Suc i) ts)" using j by simp_all
    then show ?thesis by (metis Un_iff nth_mem set_append)
  qed
  then show "\<exists>t \<in> set (take i ts @ drop (Suc i) ts). owns tid t" using assms(3) by blast
qed

lemma run_task_group_ok:
  assumes "group_ok s" "run_task i c s = Some s'"
  shows "group_ok s'"
  using assms(2)
proof (cases rule: run_task_cases)
  case Done
  have "\<not> owns tid (tasks s ! i)" for tid using Done by (simp add: owns_def)
  with owner_elsewhere(2) [of _ "tasks s" _ i] Done assms(1) show ?thesis by (fastforce simp: group_ok_def)
next
  case (Step t started s'')
  note f = task_step_frame [OF Step(2)]
  have "\<exists>t' \<in> set (tasks s'). owns tid t'" if p: "pending_req s' tid = Some server" for tid server
  proof -
    from f(10) [of tid server] p Step(3) consider "owns tid t" | "pending_req s tid = Some server" "\<not> owns tid (tasks s ! i)" by auto
    then show ?thesis
    proof cases
      case 1 then show ?thesis using Step by (auto simp: set_update_memI)
    next
      case 2
      then obtain t' where "t' \<in> set (tasks s)" "owns tid t'" using assms(1) by (auto simp: group_ok_def)
      then show ?thesis using owner_elsewhere(1) [of t' "tasks s" tid i t] 2 Step by auto
    qed
  qed
  then show ?thesis using Step f assms(1) by (auto simp: group_ok_def)
qed

lemma on_datagram_group_ok:
  assumes "group_ok s"
  shows "group_ok (on_datagram v p decode b s)"
proof -
  have "tasks s \<noteq> []" if "pending_req s tid = Some server" for tid server using assms that by (fastforce simp: group_ok_def)
  then show ?thesis using assms
    by (auto simp: on_datagram_def group_ok_def Let_def split: option.splits prod.splits sum.splits if_splits)
qed

lemma wake_reader_group_ok: "group_ok s \<Longrightarrow> wake_reader s = Some s' \<Longrightarrow> group_ok s'"
  by (auto simp: wake_reader_def group_ok_def split: if_splits)

lemma on_read_error_group_ok: "group_ok s \<Longrightarrow> group_ok (on_read_error ctxErr err timeout s)"
  by (simp add: on_read_error_def group_ok_def Let_def split: option.split)

lemma lookup_step_cases:
  assumes "lookup_step lp decode ev s = Some s'"
  obtains (Task) i c where "ev = Task i c" "run_task i c s = Some s'"
  | (Wake) "ev = Wake" "wake_reader s = Some s'"
  | (Datagram) b where "ev = Datagram b" "result s = None" "s' = on_datagram (lp_validate lp) (lp_preferIPv4 lp) decode b s"
  | (ReadFails) ctxErr err timeout where "ev = ReadFails ctxErr err timeout" "result s = None" "timeout \<longrightarrow> deadlineSet s"
      "s' = on_read_error ctxErr err timeout s"
  using assms by (cases ev) (auto split: if_splits)

lemma step_group_ok:
  assumes "group_ok s" "lookup_step lp decode ev s = Some s'"
  shows "group_ok s'"
  using assms(2)
proof (cases rule: lookup_step_cases)
  case Task then show ?thesis using run_task_group_ok [OF assms(1)] by simp
next
  case Wake then show ?thesis using wake_reader_group_ok [OF assms(1)] by simp
next
  case Datagram then show ?thesis using on_datagram_group_ok [OF assms(1)] by simp
next
  case ReadFails then show ?thesis using on_read_error_group_ok [OF assms(1)] by simp
qed

lemma looks_up_group_ok: "looks_up lp decode servers evs s \<Longrightarrow> group_ok s"
proof (induction rule: looks_up.induct)
  case start then show ?case by (simp add: start_lookup_def group_ok_def)
next
  case step then show ?case using step_group_ok by fast
qed


section \<open>Where a result comes from\<close>

definition registered :: "('tid, 'e) lookup_event list \<Rightarrow> 'tid \<Rightarrow> bool" where
  "registered evs tid \<longleftrightarrow> (\<exists>i. Task i (Built tid) \<in> set evs)"

text \<open>The addresses that came in answer to a request.\<close>

definition answers :: "(string \<Rightarrow> ('tid \<times> ('e + IP)) option) \<Rightarrow> ('tid, 'e) lookup_event list \<Rightarrow> IP set" where
  "answers decode evs = {ip. \<exists>evs1 b evs2 tid. evs = evs1 @ Datagram b # evs2 \<and> parseProbe b = None \<and>
     decode b = Some (tid, Inr ip) \<and> registered evs1 tid}"

definition found :: "lookup_params \<Rightarrow> (string \<Rightarrow> ('tid \<times> ('e + IP)) option) \<Rightarrow> ('tid, 'e) lookup_event list \<Rightarrow> string \<Rightarrow> bool" where
  "found lp decode evs r \<longleftrightarrow>
    (if lp_validate lp
     then \<exists>evs1 b evs2. evs = evs1 @ Datagram b # evs2 \<and> parseProbe b = Some r \<and> r \<in> ip_String ` answers decode evs1
     else \<exists>ip \<in> answers decode evs. r = ip_String ip \<and>
       (lp_preferIPv4 lp \<and> To4 ip = None \<longrightarrow> (\<exists>ctxErr err timeout. ReadFails ctxErr err timeout \<in> set evs)))"

definition traced :: "lookup_params \<Rightarrow> (string \<Rightarrow> ('tid \<times> ('e + IP)) option) \<Rightarrow> ('tid, 'e) lookup_event list \<Rightarrow> ('tid, 'e) lookup_state \<Rightarrow> bool" where
  "traced lp decode evs s \<longleftrightarrow>
    (\<forall>tid server. pending_req s tid = Some server \<longrightarrow> registered evs tid) \<and>
    distinct (probed s) \<and> set (probed s) \<subseteq> ip_String ` answers decode evs \<and> (\<not> lp_validate lp \<longrightarrow> probed s = []) \<and>
    (fallbackIP s \<noteq> [] \<longrightarrow> \<not> lp_validate lp \<and> (\<exists>ip \<in> answers decode evs. To4 ip = None \<and> fallbackIP s = ip_String ip)) \<and>
    (\<forall>r. result s = Some (Inr r) \<longrightarrow> found lp decode evs r) \<and>
    (\<forall>es. result s = Some (Inl es) \<longrightarrow> es \<noteq> [] \<and> fallbackIP s = [])"

lemma registered_snoc: "registered (evs @ [ev]) tid \<longleftrightarrow> registered evs tid \<or> (\<exists>i. ev = Task i (Built tid))"
  by (auto simp: registered_def)

lemma answers_mono: "answers decode evs \<subseteq> answers decode (evs @ [ev])"
  by (fastforce simp: answers_def)

lemma answers_new:
  "parseProbe b = None \<Longrightarrow> decode b = Some (tid, Inr ip) \<Longrightarrow> registered evs tid \<Longrightarrow> ip \<in> answers decode (evs @ [Datagram b])"
  unfolding answers_def by blast

lemma found_mono: "found lp decode evs r \<Longrightarrow> found lp decode (evs @ [ev]) r"
proof (cases "lp_validate lp")
  case True
  assume "found lp decode evs r"
  then obtain evs1 b evs2 where "evs = evs1 @ Datagram b # evs2" "parseProbe b = Some r" "r \<in> ip_String ` answers decode evs1"
    using True by (auto simp: found_def)
  then have "evs @ [ev] = evs1 @ Datagram b # (evs2 @ [ev])" "parseProbe b = Some r" "r \<in> ip_String ` answers decode evs1" by simp_all
  then show ?thesis using True unfolding found_def by metis
next
  case False
  assume "found lp decode evs r"
  then show ?thesis using False answers_mono [of decode evs ev] by (fastforce simp: found_def)
qed

text \<open>What an event does not touch stays true of the longer trace.\<close>

lemma traced_frame:
  assumes "traced lp decode evs s"
    and "\<And>tid server. pending_req s' tid = Some server \<Longrightarrow> pending_req s tid = Some server \<or> (\<exists>i. ev = Task i (Built tid))"
    and "probed s' = probed s" "fallbackIP s' = fallbackIP s" "result s' = result s"
  shows "traced lp decode (evs @ [ev]) s'"
  using assms answers_mono [of decode evs ev] found_mono [of lp decode evs _ ev]
  unfolding traced_def registered_snoc by (simp add: assms(3-5)) blast

lemma run_task_traced:
  assumes "traced lp decode evs s" "run_task i c s = Some s'"
  shows "traced lp decode (evs @ [Task i c]) s'"
  using assms(2)
proof (cases rule: run_task_cases)
  case Done then show ?thesis by (intro traced_frame [OF assms(1)]) simp_all
next
  case (Step t started s'')
  note f = task_step_frame [OF Step(2)]
  show ?thesis by (rule traced_frame [OF assms(1)]) (use Step f in auto)
qed

lemma on_datagram_traced:
  assumes "traced lp decode evs s" "result s = None"
  shows "traced lp decode (evs @ [Datagram b]) (on_datagram (lp_validate lp) (lp_preferIPv4 lp) decode b s)"
proof (cases "parseProbe b")
  case (Some r)
  have "found lp decode (evs @ [Datagram b]) r" if "r \<in> set (probed s)"
  proof -
    have "lp_validate lp" "r \<in> ip_String ` answers decode evs" using assms(1) that by (auto simp: traced_def)
    then show ?thesis using Some unfolding found_def by auto
  qed
  moreover have "traced lp decode (evs @ [Datagram b]) s" by (rule traced_frame [OF assms(1)]) simp_all
  ultimately show ?thesis using Some assms(2) by (auto simp: on_datagram_def traced_def)
next
  case None
  note same = traced_frame [OF assms(1), of s "Datagram b"]
  show ?thesis
  proof (cases "\<exists>tid x server. decode b = Some (tid, x) \<and> pending_req s tid = Some server")
    case False
    then have "on_datagram (lp_validate lp) (lp_preferIPv4 lp) decode b s = s"
      using None by (auto simp: on_datagram_def split: option.splits)
    then show ?thesis using same by simp
  next
    case True
    then obtain tid x server where d: "decode b = Some (tid, x)" "pending_req s tid = Some server" by blast
    have reg: "registered evs tid" using assms(1) d(2) by (auto simp: traced_def)
    show ?thesis
    proof (cases x)
      case (Inl err)
      show ?thesis by (rule traced_frame [OF assms(1)]) (simp_all add: on_datagram_def None d Inl Let_def split: if_splits)
    next
      case (Inr ip)
      have new: "ip \<in> answers decode (evs @ [Datagram b])" using answers_new [OF None _ reg] d(1) Inr by simp
      define s1 where "s1 = s\<lparr>pending_req := (pending_req s)(tid := None), answered := insert tid (answered s)\<rparr>"
      have t1: "traced lp decode (evs @ [Datagram b]) s1"
        by (rule traced_frame [OF assms(1)]) (simp_all add: s1_def split: if_splits)
      have r1: "result s1 = None" using assms(2) by (simp add: s1_def)
      have eq: "on_datagram (lp_validate lp) (lp_preferIPv4 lp) decode b s =
        (if lp_validate lp then
           if ip_String ip \<notin> set (probed s1) then spawn [Probing (ip_String ip)] (s1\<lparr>probed := probed s1 @ [ip_String ip]\<rparr>) else s1
         else if lp_preferIPv4 lp \<and> To4 ip = None then (if fallbackIP s1 = [] then s1\<lparr>fallbackIP := ip_String ip\<rparr> else s1)
         else s1\<lparr>result := Some (Inr (ip_String ip))\<rparr>)"
        by (simp add: on_datagram_def None d Inr Let_def s1_def spawn_def)
      consider "lp_validate lp" "ip_String ip \<notin> set (probed s1)" | "lp_validate lp" "ip_String ip \<in> set (probed s1)"
        | "\<not> lp_validate lp" "lp_preferIPv4 lp \<and> To4 ip = None" "fallbackIP s1 = []" | "\<not> lp_validate lp" "lp_preferIPv4 lp \<and> To4 ip = None" "fallbackIP s1 \<noteq> []"
        | "\<not> lp_validate lp" "\<not> (lp_preferIPv4 lp \<and> To4 ip = None)" by blast
      then show ?thesis
      proof cases
        case 1 then show ?thesis using t1 new r1 unfolding eq by (simp add: traced_def)
      next
        case 2 then show ?thesis using t1 unfolding eq by simp
      next
        case 3
        then have "\<exists>x \<in> answers decode (evs @ [Datagram b]). To4 x = None \<and> ip_String ip = ip_String x" using new by blast
        then show ?thesis using t1 r1 3 unfolding eq by (simp add: traced_def)
      next
        case 4 then show ?thesis using t1 unfolding eq by simp
      next
        case 5
        then have "found lp decode (evs @ [Datagram b]) (ip_String ip)" using new by (auto simp: found_def)
        then show ?thesis using t1 5(1) unfolding eq if_not_P [OF 5(1)] if_not_P [OF 5(2)] by (simp add: traced_def)
      qed
    qed
  qed
qed

lemma on_read_error_traced:
  assumes "traced lp decode evs s" "result s = None"
  shows "traced lp decode (evs @ [ReadFails ctxErr err timeout]) (on_read_error ctxErr err timeout s)"
proof (cases "fallbackIP s = []")
  case True
  let ?s = "(on_read_error ctxErr err timeout s)\<lparr>result := None\<rparr>"
  have t: "traced lp decode (evs @ [ReadFails ctxErr err timeout]) ?s"
    by (rule traced_frame [OF assms(1)]) (use True assms(2) in \<open>simp_all add: on_read_error_def Let_def split: option.splits if_splits\<close>)
  obtain es where "result (on_read_error ctxErr err timeout s) = Some (Inl es)" "es \<noteq> []"
    using True by (auto simp: on_read_error_def Let_def split: option.split)
  moreover have "fallbackIP (on_read_error ctxErr err timeout s) = []" using True by (simp add: on_read_error_def Let_def split: option.split)
  ultimately show ?thesis using t by (simp add: traced_def)
next
  case False
  then obtain ip where v: "\<not> lp_validate lp" "ip \<in> answers decode evs" "fallbackIP s = ip_String ip" using assms(1) by (auto simp: traced_def)
  then have "ip \<in> answers decode (evs @ [ReadFails ctxErr err timeout])" using answers_mono by blast
  then have "found lp decode (evs @ [ReadFails ctxErr err timeout]) (fallbackIP s)"
    unfolding found_def if_not_P [OF v(1)] v(3) by (intro bexI) auto
  moreover have "traced lp decode (evs @ [ReadFails ctxErr err timeout]) s" by (rule traced_frame [OF assms(1)]) simp_all
  ultimately show ?thesis using False by (simp add: on_read_error_def traced_def)
qed

lemma looks_up_traced: "looks_up lp decode servers evs s \<Longrightarrow> traced lp decode evs s"
proof (induction rule: looks_up.induct)
  case start then show ?case by (simp add: start_lookup_def traced_def)
next
  case (step evs s ev s')
  from step.hyps(2) show ?case
  proof (cases rule: lookup_step_cases)
    case Task then show ?thesis using run_task_traced [OF step.IH] by simp
  next
    case Wake
    then show ?thesis by (intro traced_frame [OF step.IH]) (auto simp: wake_reader_def split: if_splits)
  next
    case Datagram then show ?thesis using on_datagram_traced [OF step.IH] by simp
  next
    case ReadFails then show ?thesis using on_read_error_traced [OF step.IH] by simp
  qed
qed

text \<open>
  C35. An address is only returned when a server gave it in answer to a request of this lookup; when it is to be validated,
  a probe sent for that address has come back after that; and when IPv4 is preferred an address of the other family is returned
  only at the end of reading.
\<close>

theorem lookup_found:
  assumes "looks_up lp decode servers evs s" "result s = Some (Inr r)"
  shows "if lp_validate lp
    then \<exists>evs1 b evs2. evs = evs1 @ Datagram b # evs2 \<and> parseProbe b = Some r \<and> r \<in> ip_String ` answers decode evs1
    else \<exists>ip \<in> answers decode evs. r = ip_String ip \<and>
      (lp_preferIPv4 lp \<and> To4 ip = None \<longrightarrow> (\<exists>ctxErr err timeout. ReadFails ctxErr err timeout \<in> set evs))"
  using looks_up_traced [OF assms(1)] assms(2) by (simp add: traced_def flip: found_def)

text \<open>
  C36. The group counts exactly the goroutines that have not finished. The reader is woken only when none is left and no
  request can be answered any more: no probe is ever started after that. An address is probed once. A lookup that fails reports an
  error, and fails only without an address to fall back on.
\<close>

theorem lookup_group:
  assumes "looks_up lp decode servers evs s"
  shows "wg s = int (length (tasks s)) \<and> distinct (probed s) \<and>
    (deadlineSet s \<longrightarrow> tasks s = [] \<and> pending_req s = Map.empty \<and>
      (\<forall>b. tasks (on_datagram (lp_validate lp) (lp_preferIPv4 lp) decode b s) = [])) \<and>
    (\<forall>es. result s = Some (Inl es) \<longrightarrow> es \<noteq> [] \<and> fallbackIP s = [])"
proof -
  note g = looks_up_group_ok [OF assms]
  have "pending_req s = Map.empty" if "tasks s = []"
  proof
    fix tid show "pending_req s tid = None" using g that by (cases "pending_req s tid") (auto simp: group_ok_def)
  qed
  moreover have "tasks (on_datagram v p decode b s) = tasks s" if "pending_req s = Map.empty" for v p b
    using that by (auto simp: on_datagram_def split: option.split)
  ultimately show ?thesis using g looks_up_traced [OF assms] by (auto simp: group_ok_def traced_def)
qed


section \<open>The lookup comes to an end\<close>

text \<open>The steps left of a goroutine that sends nothing again.\<close>

definition task_steps :: "'tid task \<Rightarrow> nat" where
  "task_steps t = (case t of Resolving _ \<Rightarrow> 12 | Building _ _ \<Rightarrow> 5 | Sending _ _ _ \<Rightarrow> 4 | Awaiting _ _ _ \<Rightarrow> 3 | Deleting _ \<Rightarrow> 2
     | Finishing \<Rightarrow> 1 | Probing _ \<Rightarrow> 3 | ProbeAwaiting _ \<Rightarrow> 2)"

definition steps_left :: "('tid, 'e) lookup_state \<Rightarrow> nat" where
  "steps_left s = sum_list (map task_steps (tasks s)) + (if deadlineSet s then 0 else 1)"

text \<open>Steps of the goroutines, none of them sending a request again: no timer of theirs runs out any more once the contexts have ended.\<close>

fun winding_down :: "('tid, 'e) lookup_event \<Rightarrow> bool" where
  "winding_down (Task i c) \<longleftrightarrow> c \<noteq> Retransmit"
| "winding_down Wake \<longleftrightarrow> True"
| "winding_down _ \<longleftrightarrow> False"

fun runs_on :: "lookup_params \<Rightarrow> (string \<Rightarrow> ('tid \<times> ('e + IP)) option) \<Rightarrow> ('tid, 'e) lookup_event list \<Rightarrow> ('tid, 'e) lookup_state \<Rightarrow> ('tid, 'e) lookup_state option" where
  "runs_on lp decode [] s = Some s"
| "runs_on lp decode (ev # evs) s = (case lookup_step lp decode ev s of None \<Rightarrow> None | Some s \<Rightarrow> runs_on lp decode evs s)"

lemma looks_up_runs_on:
  "looks_up lp decode servers evs s \<Longrightarrow> runs_on lp decode evs' s = Some s' \<Longrightarrow> looks_up lp decode servers (evs @ evs') s'"
proof (induction evs' arbitrary: evs s)
  case (Cons ev evs')
  from Cons.prems(2) obtain s1 where s1: "lookup_step lp decode ev s = Some s1" "runs_on lp decode evs' s1 = Some s'"
    by (auto split: option.splits)
  from Cons.IH [OF looks_up.step [OF Cons.prems(1) s1(1)] s1(2)] show ?case by simp
qed simp

lemma server_addrs_length: "length (server_addrs ips) \<le> 2"
  by (simp add: server_addrs_def split: option.split)

lemma resolved_length: "resolveSTUNServer hostPort port ips = Inr addrs \<Longrightarrow> length addrs \<le> 2"
  using server_addrs_length by (auto simp: resolveSTUNServer_def split: sum.splits)

lemma building_steps: "sum_list (map task_steps (map (Building server) addrs)) = 5 * length addrs"
  by (induction addrs) (simp_all add: task_steps_def)

lemma task_step_weight:
  assumes "task_step c t s = Some (t', started, s')" "c \<noteq> Retransmit"
  shows "task_steps t' + sum_list (map task_steps started) < task_steps t"
proof (cases "\<exists>server addrs hostPort port ips. t = Resolving server \<and> c = Resolved hostPort port ips \<and> resolveSTUNServer hostPort port ips = Inr addrs")
  case True
  then obtain server addrs where s: "t = Resolving server" "started = map (Building server) addrs" "t' = Finishing" "length addrs \<le> 2"
    using assms(1) resolved_length by (fastforce simp: task_step_def)
  then have "sum_list (map task_steps started) = 5 * length addrs" using building_steps by simp
  then show ?thesis using s by (simp add: task_steps_def)
next
  case False
  then show ?thesis using assms by (auto simp: task_step_def task_steps_def split: task.splits choice.splits sum.splits if_splits)
qed

lemma sum_list_update_less:
  fixes f :: "'a \<Rightarrow> nat"
  shows "i < length xs \<Longrightarrow> sum_list (map f (xs[i := x])) + f (xs ! i) = sum_list (map f xs) + f x"
  by (induction xs arbitrary: i) (auto split: nat.splits)

lemma sum_list_remove:
  fixes f :: "'a \<Rightarrow> nat"
  shows "i < length xs \<Longrightarrow> sum_list (map f (take i xs @ drop (Suc i) xs)) + f (xs ! i) = sum_list (map f xs)"
  by (induction xs arbitrary: i) (auto split: nat.splits simp: less_Suc_eq_0_disj simp flip: add.assoc)

lemma winding_down_step:
  assumes "lookup_step lp decode ev s = Some s'" "winding_down ev"
  shows "steps_left s' < steps_left s" "result s' = result s"
proof -
  from assms(1) have "steps_left s' < steps_left s \<and> result s' = result s"
  proof (cases rule: lookup_step_cases)
    case (Task i c)
    from Task(2) show ?thesis
    proof (cases rule: run_task_cases)
      case Done
      then show ?thesis using sum_list_remove [of i "tasks s" task_steps] by (simp add: steps_left_def task_steps_def)
    next
      case (Step t started s'')
      have c: "c \<noteq> Retransmit" using assms(2) Task(1) by simp
      show ?thesis using task_step_weight [OF Step(2) c] task_step_frame [OF Step(2)] sum_list_update_less [OF Step(1), of task_steps t] Step(3)
        by (simp add: steps_left_def)
    qed
  next
    case Wake then show ?thesis by (auto simp: wake_reader_def steps_left_def split: if_splits)
  qed (use assms(2) in simp_all)
  then show "steps_left s' < steps_left s" "result s' = result s" by simp_all
qed

lemma winding_down_runs:
  "runs_on lp decode evs s = Some s' \<Longrightarrow> list_all winding_down evs \<Longrightarrow> length evs + steps_left s' \<le> steps_left s \<and> result s' = result s"
proof (induction evs arbitrary: s)
  case (Cons ev evs)
  then obtain s1 where "lookup_step lp decode ev s = Some s1" "runs_on lp decode evs s1 = Some s'" by (auto split: option.splits)
  with winding_down_step [of lp decode ev s s1] Cons.IH [of s1] Cons.prems(2) show ?case by auto
qed simp

lemma task_can_step: "\<exists>c r. t \<noteq> Finishing \<longrightarrow> c \<noteq> Retransmit \<and> c \<noteq> GroupDone \<and> task_step c t s = Some r"
proof (cases t)
  case (Resolving x) then show ?thesis by (intro exI [of _ "Resolved (Inl undefined) (Inl undefined) (Inl undefined)"]) (simp add: task_step_def resolveSTUNServer_def)
next
  case (Building x y) then show ?thesis by (intro exI [of _ "Built undefined"]) (simp add: task_step_def)
next
  case Sending then show ?thesis by (intro exI [of _ Written]) (simp add: task_step_def)
next
  case Awaiting then show ?thesis by (intro exI [of _ StunTimeout]) (simp add: task_step_def)
next
  case Deleting then show ?thesis by (intro exI [of _ EntryDeleted]) (simp add: task_step_def)
next
  case Probing then show ?thesis by (intro exI [of _ ProbeSent]) (simp add: task_step_def)
next
  case ProbeAwaiting then show ?thesis by (intro exI [of _ ProbeCancelled]) (simp add: task_step_def)
qed simp

lemma rest_is_end:
  assumes "group_ok s" "\<nexists>ev s'. winding_down ev \<and> lookup_step lp decode ev s = Some s'"
  shows "tasks s = [] \<and> deadlineSet s"
proof (rule ccontr)
  assume n: "\<not> (tasks s = [] \<and> deadlineSet s)"
  show False
  proof (cases "tasks s")
    case Nil
    then have "wake_reader s = Some (s\<lparr>deadlineSet := True\<rparr>)" using n assms(1) by (simp add: wake_reader_def group_ok_def)
    then show False using assms(2) by (metis lookup_step.simps(2) winding_down.simps(2))
  next
    case (Cons t ts)
    have "\<exists>c s'. c \<noteq> Retransmit \<and> run_task 0 c s = Some s'"
    proof (cases "t = Finishing")
      case True then show ?thesis using Cons by (intro exI [of _ GroupDone]) (simp add: run_task_def)
    next
      case False
      then obtain c t' started s'' where c: "c \<noteq> Retransmit" "c \<noteq> GroupDone" "task_step c t s = Some (t', started, s'')"
        using task_can_step [of t s] by (metis prod_cases3)
      then have "run_task 0 c s = Some (spawn started (s''\<lparr>tasks := (tasks s)[0 := t']\<rparr>))"
        using Cons by (cases c) (simp_all add: run_task_def)
      then show ?thesis using c(1) by blast
    qed
    then obtain c s' where "winding_down (Task 0 c)" "lookup_step lp decode (Task 0 c) s = Some s'" by auto
    then show False using assms(2) by blast
  qed
qed

lemma can_wind_down:
  "group_ok s \<Longrightarrow> \<exists>evs s'. runs_on lp decode evs s = Some s' \<and> list_all winding_down evs \<and> tasks s' = [] \<and> deadlineSet s'"
proof (induction "steps_left s" arbitrary: s rule: less_induct)
  case less
  show ?case
  proof (cases "\<exists>ev s'. winding_down ev \<and> lookup_step lp decode ev s = Some s'")
    case False
    then have "tasks s = [] \<and> deadlineSet s" using rest_is_end [OF less.prems] by blast
    then show ?thesis by (intro exI [of _ "[]"]) simp
  next
    case True
    then obtain ev s1 where s1: "winding_down ev" "lookup_step lp decode ev s = Some s1" by blast
    from less.hyps [OF winding_down_step(1) [OF s1(2,1)] step_group_ok [OF less.prems s1(2)]] obtain evs s' where
      "runs_on lp decode evs s1 = Some s'" "list_all winding_down evs" "tasks s' = []" "deadlineSet s'" by blast
    then show ?thesis using s1 by (intro exI [of _ "ev # evs"] exI [of _ s']) simp
  qed
qed

text \<open>
  C37. A lookup ends. From any point on, once requests are not sent again (their context has ended), the goroutines take at most
  \<open>steps_left\<close> steps and come to rest only when all have finished and the reader has been woken; there is such a run, and
  then a read that times out gives the caller its result: the address to fall back on, or the errors met.
\<close>

theorem lookup_ends:
  assumes "looks_up lp decode servers evs s" "result s = None"
  shows "(\<exists>evs' s'. runs_on lp decode evs' s = Some s' \<and> list_all winding_down evs' \<and>
      (\<nexists>ev s''. winding_down ev \<and> lookup_step lp decode ev s' = Some s'')) \<and>
    (\<forall>evs' s'. runs_on lp decode evs' s = Some s' \<and> list_all winding_down evs' \<longrightarrow>
      length evs' \<le> steps_left s \<and>
      ((\<nexists>ev s''. winding_down ev \<and> lookup_step lp decode ev s' = Some s'') \<longrightarrow>
        tasks s' = [] \<and> deadlineSet s' \<and>
        (\<exists>s''. lookup_step lp decode (ReadFails None err True) s' = Some s'' \<and>
          result s'' = Some (if fallbackIP s' \<noteq> [] then Inr (fallbackIP s') else Inl (if errs s' = [] then [NoAnswer] else errs s')))))"
proof (intro conjI allI impI)
  note g = looks_up_group_ok [OF assms(1)]
  obtain evs' s' where r: "runs_on lp decode evs' s = Some s'" "list_all winding_down evs'" "tasks s' = []" "deadlineSet s'"
    using can_wind_down [OF g] by blast
  have w: "wg s' = 0" using looks_up_group_ok [OF looks_up_runs_on [OF assms(1) r(1)]] r(3) by (simp add: group_ok_def)
  have "lookup_step lp decode ev s' = None" if "winding_down ev" for ev
    using that r(3,4) w by (cases ev) (simp_all add: run_task_def wake_reader_def)
  with r(1,2) show "\<exists>evs' s'. runs_on lp decode evs' s = Some s' \<and> list_all winding_down evs' \<and>
      (\<nexists>ev s''. winding_down ev \<and> lookup_step lp decode ev s' = Some s'')" by (metis option.distinct(1))
next
  fix evs' s' assume r: "runs_on lp decode evs' s = Some s' \<and> list_all winding_down evs'"
  note w = winding_down_runs [OF conjunct1 [OF r] conjunct2 [OF r]]
  then show "length evs' \<le> steps_left s" by simp
  assume "\<nexists>ev s''. winding_down ev \<and> lookup_step lp decode ev s' = Some s''"
  then have e: "tasks s' = [] \<and> deadlineSet s'"
    using rest_is_end looks_up_group_ok [OF looks_up_runs_on [OF assms(1) conjunct1 [OF r]]] by blast
  then show "tasks s' = []" "deadlineSet s'" by simp_all
  show "\<exists>s''. lookup_step lp decode (ReadFails None err True) s' = Some s'' \<and>
      result s'' = Some (if fallbackIP s' \<noteq> [] then Inr (fallbackIP s') else Inl (if errs s' = [] then [NoAnswer] else errs s'))"
    using w e assms(2) by (simp add: on_read_error_def Let_def)
qed


definition ex_params :: lookup_params where
  "ex_params = \<lparr>lp_validate = True, lp_preferIPv4 = True, lp_ipNetwork = ''ip'', lp_timeout = 10000000000, lp_stunTimeout = 5000000000,
     lp_probeTimeout = 5000000000\<rparr>"

definition ex_decode :: "string \<Rightarrow> (nat \<times> (unit + IP)) option" where
  "ex_decode b = (if b = ''r'' then Some (7, Inr [203, 0, 113, 9]) else None)"

text \<open>One server is asked, answers, and the probe of its answer comes back.\<close>

definition ex_events :: "(nat, unit) lookup_event list" where
  "ex_events = [Task 0 (Resolved (Inr (''stun'', ''3478'')) (Inr 3478) (Inr [[192, 0, 2, 1]])), Task 0 GroupDone, Task 0 (Built 7), Task 0 Written, Datagram ''r'', Task 1 ProbeSent]"

definition ex_probe :: string where
  "ex_probe = probe_packet ''203.0.113.9''"

lemma ex_facts:
  "ip_String [203, 0, 113, 9] = ''203.0.113.9''" "server_addrs [[192, 0, 2, 1]] = [[192, 0, 2, 1]]"
  "parseProbe ''r'' = None" "parseProbe ex_probe = Some ''203.0.113.9''"
  by code_simp+

lemma ex_run:
  "\<exists>s. runs_on ex_params ex_decode ex_events (start_lookup [''stun:3478'']) = Some s \<and> result s = None \<and> probed s = [''203.0.113.9'']"
  by (simp add: ex_events_def start_lookup_def run_task_def task_step_def resolveSTUNServer_def ex_facts spawn_def on_datagram_def ex_decode_def ex_params_def Let_def)

theorem lookup_found_witness:
  "\<exists>s. looks_up ex_params ex_decode [''stun:3478''] (ex_events @ [Datagram ex_probe]) s \<and> result s = Some (Inr ''203.0.113.9'') \<and>
    (\<exists>evs1 b evs2. ex_events @ [Datagram ex_probe] = evs1 @ Datagram b # evs2 \<and> parseProbe b = Some ''203.0.113.9'' \<and>
      ''203.0.113.9'' \<in> ip_String ` answers ex_decode evs1)"
proof -
  obtain s where s: "runs_on ex_params ex_decode ex_events (start_lookup [''stun:3478'']) = Some s" "result s = None" "probed s = [''203.0.113.9'']"
    using ex_run by blast
  then have l: "looks_up ex_params ex_decode [''stun:3478''] ex_events s" using looks_up_runs_on [OF looks_up.start s(1)] by simp
  have "lookup_step ex_params ex_decode (Datagram ex_probe) s = Some (s\<lparr>result := Some (Inr ''203.0.113.9'')\<rparr>)"
    using s by (simp add: on_datagram_def ex_facts)
  from looks_up.step [OF l this]
  have l': "looks_up ex_params ex_decode [''stun:3478''] (ex_events @ [Datagram ex_probe]) (s\<lparr>result := Some (Inr ''203.0.113.9'')\<rparr>)" .
  have "lp_validate ex_params" by (simp add: ex_params_def)
  with lookup_found [OF l', of "''203.0.113.9''"] l' show ?thesis by auto
qed

theorem lookup_group_witness:
  "\<exists>s. looks_up ex_params ex_decode [''stun:3478''] ex_events s \<and> wg s = int (length (tasks s)) \<and> distinct (probed s) \<and> probed s = [''203.0.113.9'']"
proof -
  obtain s where s: "runs_on ex_params ex_decode ex_events (start_lookup [''stun:3478'']) = Some s" "probed s = [''203.0.113.9'']"
    using ex_run by blast
  then have l: "looks_up ex_params ex_decode [''stun:3478''] ex_events s" using looks_up_runs_on [OF looks_up.start s(1)] by simp
  from lookup_group [OF l] l s(2) show ?thesis by blast
qed

theorem lookup_ends_witness:
  "\<exists>s s'. looks_up ex_params ex_decode [''stun:3478''] [] s \<and>
    (\<exists>evs'. runs_on ex_params ex_decode evs' s = Some s' \<and> length evs' \<le> 13) \<and> tasks s' = [] \<and> deadlineSet s'"
proof -
  have l: "looks_up ex_params ex_decode [''stun:3478''] [] (start_lookup [''stun:3478''])" by (rule looks_up.start)
  have r: "result (start_lookup [''stun:3478''] :: (nat, unit) lookup_state) = None" by (simp add: start_lookup_def)
  have w: "steps_left (start_lookup [''stun:3478''] :: (nat, unit) lookup_state) = 13" by (simp add: start_lookup_def steps_left_def task_steps_def)
  note e = lookup_ends [OF l r, of "()", unfolded w]
  from e obtain evs' s' where run: "runs_on ex_params ex_decode evs' (start_lookup [''stun:3478'']) = Some s' \<and> list_all winding_down evs'"
    and rest: "\<nexists>ev s''. winding_down ev \<and> lookup_step ex_params ex_decode ev s' = Some s''" by blast
  from e run have "length evs' \<le> 13 \<and> ((\<nexists>ev s''. winding_down ev \<and> lookup_step ex_params ex_decode ev s' = Some s'') \<longrightarrow> tasks s' = [] \<and> deadlineSet s')"
    by blast
  then show ?thesis using l run rest by blast
qed

end
