(* ===== verification/Xr.thy ===== *)
theory Xr
  imports Ntp "HOL-Library.Multiset"
begin

text \<open>
  Round-trip times from RTCP extended reports (RFC 3611), \<^verbatim>\<open>pkg/interceptor/rttfromxr.go\<close>. The interceptor sends its clock
  once a second; whoever receives it answers with a DLRR report at once; the answer gives the round-trip time. Each operation is
  a critical section; the packets written and the callbacks made are its effects. The rest of an RTCP packet or report block
  that the code does not look at is a constructor.
\<close>

record DLRRReport =
  dlrr_SSRC :: u32
  dlrr_LastRR :: u32
  dlrr_DLRR :: u32

datatype report_block = ReceiverReferenceTime u64 | DLRR "DLRRReport list" | OtherBlock

record ExtendedReport =
  SenderSSRC :: u32
  Reports :: "report_block list"

datatype rtcp_packet = XR ExtendedReport | OtherPacket

text \<open>\<open>tickers\<close> counts the running goroutines of \<open>start\<close>, \<open>has_writer\<close> says that an RTCP writer is bound.\<close>

record RTTFromXR =
  started :: bool
  remoteTrackSsrcs :: "u32 list"
  localTrackSsrcs :: "u32 list"
  has_writer :: bool
  close_closed :: bool
  tickers :: nat

datatype effect = Wrote "rtcp_packet list" | OnRTT u32

definition NewInterceptor :: RTTFromXR where
  "NewInterceptor = \<lparr>started = False, remoteTrackSsrcs = [], localTrackSsrcs = [], has_writer = False, close_closed = False, tickers = 0\<rparr>"

text \<open>A tick of the goroutine at the time \<open>now\<close>.\<close>

definition tick :: "int \<Rightarrow> RTTFromXR \<Rightarrow> effect list" where
  "tick now r =
    (let senderSsrc = (if length (remoteTrackSsrcs r) > 0 then remoteTrackSsrcs r ! 0 else 0)
     in if senderSsrc = 0 \<or> \<not> has_writer r then []
        else [Wrote [XR \<lparr>SenderSSRC = senderSsrc, Reports = [ReceiverReferenceTime (ToNtpTime now)]\<rparr>]])"

text \<open>What the goroutine wakes up to: the ticker, or the closed channel, on which it returns.\<close>

datatype wake = Tick int | Closing

definition start :: "wake \<Rightarrow> RTTFromXR \<Rightarrow> (effect list \<times> RTTFromXR) option" where
  "start w r =
    (if tickers r = 0 then None
     else case w of
       Tick now \<Rightarrow> Some (tick now r, r)
     | Closing \<Rightarrow> if close_closed r then Some ([], r\<lparr>tickers := tickers r - 1\<rparr>) else None)"

definition BindRemoteStream :: "u32 \<Rightarrow> RTTFromXR \<Rightarrow> RTTFromXR" where
  "BindRemoteStream ssrc r =
    (let r = (if \<not> started r then r\<lparr>started := True, tickers := tickers r + 1\<rparr> else r)
     in r\<lparr>remoteTrackSsrcs := remoteTrackSsrcs r @ [ssrc]\<rparr>)"

text \<open>The loops that remove a stream: its place is taken by the last one.\<close>

definition remove_ssrc :: "u32 \<Rightarrow> u32 list \<Rightarrow> u32 list" where
  "remove_ssrc ssrc xs =
    (case find (\<lambda>i. xs ! i = ssrc) [0..<length xs] of
       Some i \<Rightarrow> let xs = xs[i := xs ! (length xs - 1)] in take (length xs - 1) xs
     | None \<Rightarrow> xs)"

definition UnbindRemoteStream :: "u32 \<Rightarrow> RTTFromXR \<Rightarrow> RTTFromXR" where
  "UnbindRemoteStream ssrc r = r\<lparr>remoteTrackSsrcs := remove_ssrc ssrc (remoteTrackSsrcs r)\<rparr>"

definition BindLocalStream :: "u32 \<Rightarrow> RTTFromXR \<Rightarrow> RTTFromXR" where
  "BindLocalStream ssrc r = r\<lparr>localTrackSsrcs := localTrackSsrcs r @ [ssrc]\<rparr>"

definition UnbindLocalStream :: "u32 \<Rightarrow> RTTFromXR \<Rightarrow> RTTFromXR" where
  "UnbindLocalStream ssrc r = r\<lparr>localTrackSsrcs := remove_ssrc ssrc (localTrackSsrcs r)\<rparr>"

definition BindRTCPWriter :: "bool \<Rightarrow> RTTFromXR \<Rightarrow> RTTFromXR" where
  "BindRTCPWriter writer r = r\<lparr>has_writer := writer\<rparr>"

text \<open>Closing a closed channel panics.\<close>

definition Close :: "RTTFromXR \<Rightarrow> RTTFromXR option" where
  "Close r = (if close_closed r then None else Some (r\<lparr>close_closed := True\<rparr>))"

text \<open>The \<open>float64\<close>s are exact: \<open>ntpDiff\<close> has 32 bits. Only the first report of a DLRR block is used.\<close>

definition xr_rtt :: "int \<Rightarrow> DLRRReport \<Rightarrow> u32" where
  "xr_rtt now d =
    (let nowNTP32 = ucast (drop_bit 16 (ToNtpTime now)) :: u32;
         ntpDiff = nowNTP32 - dlrr_LastRR d - dlrr_DLRR d
     in word_of_int \<lceil>of_int (uint ntpDiff) * 1000 / 65536 :: rat\<rceil>)"

definition handle_block :: "(nat \<Rightarrow> int) \<Rightarrow> RTTFromXR \<Rightarrow> ExtendedReport \<Rightarrow> nat \<Rightarrow> effect list" where
  "handle_block now r xr k =
    (case Reports xr ! k of
       ReceiverReferenceTime ntp \<Rightarrow>
         let responses = map (\<lambda>ssrc. XR \<lparr>SenderSSRC = ssrc, Reports = [DLRR [\<lparr>dlrr_SSRC = SenderSSRC xr,
               dlrr_LastRR = ucast (drop_bit 16 ntp), dlrr_DLRR = 0\<rparr>]]\<rparr>) (localTrackSsrcs r)
         in if length responses > 0 \<and> has_writer r then [Wrote responses] else []
     | DLRR reports \<Rightarrow> (case reports of d # _ \<Rightarrow> [OnRTT (xr_rtt (now k) d)] | [] \<Rightarrow> [])
     | OtherBlock \<Rightarrow> [])"

text \<open>\<open>now k\<close> is the clock reading at block \<open>k\<close>.\<close>

definition handleXR :: "(nat \<Rightarrow> int) \<Rightarrow> RTTFromXR \<Rightarrow> ExtendedReport \<Rightarrow> effect list" where
  "handleXR now r xr = concat (map (handle_block now r xr) [0..<length (Reports xr)])"

text \<open>The reader of \<open>BindRTCPReader\<close> on the outcome of the read and of parsing the packets.\<close>

definition read_rtcp :: "(nat \<Rightarrow> int) \<Rightarrow> RTTFromXR \<Rightarrow> 'e + rtcp_packet list \<Rightarrow> 'e option \<times> effect list" where
  "read_rtcp now r outcome =
    (case outcome of
       Inl err \<Rightarrow> (Some err, [])
     | Inr pkts \<Rightarrow> (None, case find (\<lambda>p. p \<noteq> OtherPacket) pkts of Some (XR xr) \<Rightarrow> handleXR now r xr | _ \<Rightarrow> []))"

section \<open>Streams\<close>

lemma mset_remove_ssrc: "mset (remove_ssrc ssrc xs) = mset xs - {#ssrc#}"
proof (cases "find (\<lambda>i. xs ! i = ssrc) [0..<length xs]")
  case None
  then have "ssrc \<notin> set xs" by (auto simp: find_None_iff in_set_conv_nth)
  then show ?thesis using None by (simp add: remove_ssrc_def)
next
  case (Some i)
  then have i: "i < length xs" "xs ! i = ssrc" by (auto simp: find_Some_iff)
  then have ne: "xs \<noteq> []" by auto
  let ?l = "xs ! (length xs - 1)"
  have l: "last xs = ?l" using ne by (simp add: last_conv_nth)
  have r: "remove_ssrc ssrc xs = butlast (xs[i := ?l])" using Some by (simp add: remove_ssrc_def butlast_conv_take Let_def)
  have "xs[i := ?l] \<noteq> []" using ne by simp
  then have "butlast (xs[i := ?l]) @ [last (xs[i := ?l])] = xs[i := ?l]" by (rule append_butlast_last_id)
  from arg_cong [OF this, of mset] have "mset (xs[i := ?l]) = add_mset (last (xs[i := ?l])) (mset (butlast (xs[i := ?l])))" by simp
  moreover have "last (xs[i := ?l]) = ?l" using ne l by (simp add: last_list_update)
  moreover have "mset (xs[i := ?l]) = add_mset ?l (mset xs - {#ssrc#})" using i by (simp add: mset_update)
  ultimately show ?thesis by (simp add: r)
qed

datatype call = CBindRemote u32 | CUnbindRemote u32 | CBindLocal u32 | CUnbindLocal u32 | CBindWriter bool

fun exec :: "call \<Rightarrow> RTTFromXR \<Rightarrow> RTTFromXR" where
  "exec (CBindRemote ssrc) r = BindRemoteStream ssrc r"
| "exec (CUnbindRemote ssrc) r = UnbindRemoteStream ssrc r"
| "exec (CBindLocal ssrc) r = BindLocalStream ssrc r"
| "exec (CUnbindLocal ssrc) r = UnbindLocalStream ssrc r"
| "exec (CBindWriter w) r = BindRTCPWriter w r"

text \<open>What a client expects: a multiset of streams on each side.\<close>

fun expected :: "call \<Rightarrow> u32 multiset \<times> u32 multiset \<Rightarrow> u32 multiset \<times> u32 multiset" where
  "expected (CBindRemote ssrc) (R, L) = (add_mset ssrc R, L)"
| "expected (CUnbindRemote ssrc) (R, L) = (R - {#ssrc#}, L)"
| "expected (CBindLocal ssrc) (R, L) = (R, add_mset ssrc L)"
| "expected (CUnbindLocal ssrc) (R, L) = (R, L - {#ssrc#})"
| "expected (CBindWriter w) (R, L) = (R, L)"

definition streams :: "RTTFromXR \<Rightarrow> u32 multiset \<times> u32 multiset" where
  "streams r = (mset (remoteTrackSsrcs r), mset (localTrackSsrcs r))"

lemmas xr_ops = BindRemoteStream_def UnbindRemoteStream_def BindLocalStream_def UnbindLocalStream_def BindRTCPWriter_def

lemma exec_streams: "streams (exec c r) = expected c (streams r)"
  by (cases c) (simp_all add: xr_ops streams_def mset_remove_ssrc Let_def)

lemma exec_tickers: "tickers r = (if started r then 1 else 0) \<Longrightarrow> tickers (exec c r) = (if started (exec c r) then 1 else 0)"
  by (cases c) (simp_all add: xr_ops Let_def)

lemma exec_close [simp]: "close_closed (exec c r) = close_closed r"
  by (cases c) (simp_all add: xr_ops Let_def)

lemma fold_exec:
  "tickers r = (if started r then 1 else 0) \<Longrightarrow>
    streams (fold exec cs r) = fold expected cs (streams r) \<and> close_closed (fold exec cs r) = close_closed r \<and> tickers (fold exec cs r) = (if started (fold exec cs r) then 1 else 0) \<and>
    (started (fold exec cs r) \<longleftrightarrow> started r \<or> (\<exists>ssrc. CBindRemote ssrc \<in> set cs))"
proof (induction cs arbitrary: r)
  case (Cons c cs)
  have "started (exec c r) \<longleftrightarrow> started r \<or> (\<exists>ssrc. c = CBindRemote ssrc)" by (cases c) (simp_all add: xr_ops Let_def)
  then show ?case using Cons.IH [OF exec_tickers [OF Cons.prems, of c]] by (auto simp: exec_streams)
qed simp

text \<open>
  C38. Whatever streams are bound and unbound, in any order, the interceptor has exactly those bound and not unbound, each as
  often as it is, on both sides; and one goroutine sends reports from the first remote stream on, however many follow. Closing the interceptor
  lets that goroutine return, and none is left.
\<close>

theorem xr_streams:
  "streams (fold exec cs NewInterceptor) = fold expected cs ({#}, {#}) \<and>
   tickers (fold exec cs NewInterceptor) = (if \<exists>ssrc. CBindRemote ssrc \<in> set cs then 1 else 0) \<and>
   (\<exists>r. Close (fold exec cs NewInterceptor) = Some r \<and> Close r = None \<and>
     start Closing r = (if \<exists>ssrc. CBindRemote ssrc \<in> set cs then Some ([], r\<lparr>tickers := 0\<rparr>) else None))"
  using fold_exec [of NewInterceptor cs] by (simp add: NewInterceptor_def streams_def Close_def start_def)

section \<open>The round trip\<close>

lemma ToNtpTime_era:
  assumes "0 \<le> t" "t < 2 ^ 63" "0 \<le> e" "t + e < 2 ^ 63"
  shows "ToNtpTime (t + e) = ToNtpTime (t mod 4294967296000000000 + e)"
proof -
  have b: "0 \<le> t mod 4294967296000000000" "t mod 4294967296000000000 \<le> t" using assms(1) by (simp_all add: zmod_le_nonneg_dividend)
  have "uint (ToNtpTime (t + e)) = uint (ToNtpTime (t mod 4294967296000000000 + e))"
    using assms b by (simp add: uint_ToNtpTime mod_add_left_eq)
  then show ?thesis by (metis word_of_int_uint)
qed

text \<open>
  C39. Two interceptors measure the round trip: one of them sends at \<open>t\<close> a report under the SSRC of its first remote stream, with
  the NTP time; the other answers it with one packet for each of its local streams, in order and under that stream's SSRC, whose
  only entry names the SSRC of the request and holds the middle 32 bits of its time, with no delay; and when the answers
  arrive at \<open>t + e\<close> the first one reports, once, the time \<open>e\<close> in milliseconds, rounded up, within two units of \<open>2 ^ -16\<close> seconds.
\<close>

theorem xr_round_trip:
  assumes t: "0 \<le> t" "t < 2 ^ 63" "t + e < 2 ^ 63" and e: "1 \<le> e" "e \<le> 32767 * 1000000000"
    and a: "remoteTrackSsrcs a = ssrc # ssrcs" "ssrc \<noteq> 0" "has_writer a" and b: "localTrackSsrcs b \<noteq> []" "has_writer b"
  shows "\<exists>request responses n. tick t a = [Wrote [request]] \<and> read_rtcp nowb b (Inr [request] :: 'e + _) = (None, [Wrote responses]) \<and>
    request = XR \<lparr>SenderSSRC = ssrc, Reports = [ReceiverReferenceTime (ToNtpTime t)]\<rparr> \<and>
    responses = map (\<lambda>stream. XR \<lparr>SenderSSRC = stream, Reports = [DLRR [\<lparr>dlrr_SSRC = ssrc,
      dlrr_LastRR = ucast (drop_bit 16 (ToNtpTime t)), dlrr_DLRR = 0\<rparr>]]\<rparr>) (localTrackSsrcs b) \<and>
    \<bar>n * 1000000000 - e * 65536\<bar> < 2 * 1000000000 \<and> 0 \<le> n \<and>
    read_rtcp (\<lambda>_. t + e) a (Inr responses :: 'e + _) = (None, [OnRTT (word_of_int \<lceil>of_int n * 1000 / 65536 :: rat\<rceil>)])"
proof -
  let ?L = "ToNtpTime t"
  define n where "n = elapsed_units ?L e"
  have n: "0 \<le> n" "\<bar>n * 1000000000 - e * 65536\<bar> < 2 * 1000000000" using elapsed_units_bounds [OF e(1), of ?L] by (simp_all add: n_def)
  have "e * 65536 \<le> 32767 * 1000000000 * 65536" using e(2) by simp
  then have small: "n < 4294967296" using n by linarith
  have D: "Duration ?L = t mod 4294967296000000000" using Duration_ToNtpTime [OF t(1,2)] .
  have le: "t mod 4294967296000000000 \<le> t" "0 \<le> t mod 4294967296000000000" using t(1) by (simp_all add: zmod_le_nonneg_dividend)
  have now: "ToNtpTime (t + e) = ToNtpTime (Duration ?L + e)" unfolding D using t e by (intro ToNtpTime_era) simp_all
  have d: "(ucast (drop_bit 16 (ToNtpTime (t + e))) :: u32) - ucast (drop_bit 16 ?L) = word_of_int n"
    unfolding now n_def using D le t(3) e(1) by (intro elapsed_word) simp_all
  have u: "uint (word_of_int n :: u32) = n" using n(1) small by (simp add: uint_word_of_int)
  have rtt: "xr_rtt (t + e) \<lparr>dlrr_SSRC = s, dlrr_LastRR = ucast (drop_bit 16 ?L), dlrr_DLRR = 0\<rparr> = word_of_int \<lceil>of_int n * 1000 / 65536 :: rat\<rceil>" for s
    by (simp only: xr_rtt_def Let_def DLRRReport.select_convs diff_0_right d u)
  obtain l ls where b': "localTrackSsrcs b = l # ls" using b(1) by (cases "localTrackSsrcs b") auto
  have "tick t a = [Wrote [XR \<lparr>SenderSSRC = ssrc, Reports = [ReceiverReferenceTime ?L]\<rparr>]]" using a by (simp add: tick_def)
  moreover have "read_rtcp nowb b (Inr [XR \<lparr>SenderSSRC = ssrc, Reports = [ReceiverReferenceTime ?L]\<rparr>] :: 'e + _) =
      (None, [Wrote (map (\<lambda>l. XR \<lparr>SenderSSRC = l, Reports = [DLRR [\<lparr>dlrr_SSRC = ssrc, dlrr_LastRR = ucast (drop_bit 16 ?L), dlrr_DLRR = 0\<rparr>]]\<rparr>) (localTrackSsrcs b))])"
    using b by (simp add: read_rtcp_def handleXR_def handle_block_def Let_def)
  moreover have "read_rtcp (\<lambda>_. t + e) a
      (Inr (map (\<lambda>l. XR \<lparr>SenderSSRC = l, Reports = [DLRR [\<lparr>dlrr_SSRC = ssrc, dlrr_LastRR = ucast (drop_bit 16 ?L), dlrr_DLRR = 0\<rparr>]]\<rparr>) (localTrackSsrcs b)) :: 'e + _) =
      (None, [OnRTT (word_of_int \<lceil>of_int n * 1000 / 65536 :: rat\<rceil>)])"
    by (simp add: b' read_rtcp_def handleXR_def handle_block_def rtt)
  ultimately show ?thesis using n by (intro exI [of _ "XR _"] exI conjI) simp_all
qed

text \<open>A round trip of a quarter of a second, to a peer with two streams.\<close>

theorem xr_round_trip_witness:
  "\<exists>request responses n. tick 3900000000123456789 (fold exec [CBindRemote 11, CBindWriter True] NewInterceptor) = [Wrote [request]] \<and>
     read_rtcp (\<lambda>_. 0) (fold exec [CBindLocal 11, CBindLocal 12, CBindWriter True] NewInterceptor) (Inr [request] :: unit + _) = (None, [Wrote responses]) \<and>
     map (\<lambda>p. case p of XR x \<Rightarrow> SenderSSRC x | _ \<Rightarrow> 0) responses = [11, 12] \<and> \<bar>n * 1000000000 - 250000000 * 65536\<bar> < 2 * 1000000000 \<and>
     read_rtcp (\<lambda>_. 3900000000123456789 + 250000000) (fold exec [CBindRemote 11, CBindWriter True] NewInterceptor) (Inr responses :: unit + _) =
       (None, [OnRTT (word_of_int \<lceil>of_int n * 1000 / 65536 :: rat\<rceil>)])"
proof -
  let ?a = "fold exec [CBindRemote 11, CBindWriter True] NewInterceptor"
  let ?b = "fold exec [CBindLocal 11, CBindLocal 12, CBindWriter True] NewInterceptor"
  have a: "remoteTrackSsrcs ?a = 11 # []" "has_writer ?a" and b: "localTrackSsrcs ?b = [11, 12]" "has_writer ?b"
    by (simp_all add: xr_ops NewInterceptor_def Let_def)
  from xr_round_trip [of 3900000000123456789 250000000 ?a 11 "[]" ?b "\<lambda>_. 0", where 'e = unit] a b show ?thesis by fastforce
qed

end
