(* ===== verification/Twcc.thy ===== *)
theory Twcc
  imports Go_Prelude "HOL-Library.Signed_Division"
begin

text \<open>
  The transport-wide congestion control responder, \<^verbatim>\<open>pkg/twcc/twcc.go\<close>, around the recorder of \<^verbatim>\<open>pion/interceptor\<close>, whose
  operations are arguments: \<open>rec\<close> records an arrival, \<open>held\<close> counts the packets held, \<open>build\<close> makes the feedback (\<open>None\<close>
  is the nil slice). Times are \<open>int64\<close> nanoseconds. A method runs under the lock of the responder.
\<close>

definition tccReportDelta :: int where "tccReportDelta = 100000000"
definition tccReportDeltaAfterMark :: int where "tccReportDeltaAfterMark = 50000000"

text \<open>\<open>has_callback\<close> says that \<open>onFeedback\<close> is set.\<close>

record 'r Responder =
  sSSRC :: u32
  lastReport :: int
  recorder :: 'r
  has_callback :: bool

definition NewTransportWideCCResponder :: "(u32 \<Rightarrow> 'r) \<Rightarrow> u32 \<Rightarrow> 'r Responder" where
  "NewTransportWideCCResponder newRecorder ssrc = \<lparr>sSSRC = ssrc, lastReport = 0, recorder = newRecorder ssrc, has_callback = False\<rparr>"

definition OnFeedback :: "bool \<Rightarrow> 'r Responder \<Rightarrow> 'r Responder" where
  "OnFeedback f t = t\<lparr>has_callback := f\<rparr>"

definition due :: "('r \<Rightarrow> int) \<Rightarrow> 'r Responder \<Rightarrow> int \<Rightarrow> bool \<Rightarrow> bool" where
  "due held t timeNS marker \<longleftrightarrow>
    (let delta = wrap64 (timeNS - lastReport t)
     in held (recorder t) > 20 \<and>
        (delta \<ge> tccReportDelta \<or> held (recorder t) > 100 \<or> marker \<and> delta \<ge> tccReportDeltaAfterMark))"

text \<open>The feedback handed to the callback, if any, and the responder; calling a nil callback panics.\<close>

definition Push :: "('r \<Rightarrow> u32 \<Rightarrow> u16 \<Rightarrow> int \<Rightarrow> 'r) \<Rightarrow> ('r \<Rightarrow> int) \<Rightarrow> ('r \<Rightarrow> 'p option \<times> 'r) \<Rightarrow>
    u32 \<Rightarrow> u16 \<Rightarrow> int \<Rightarrow> bool \<Rightarrow> 'r Responder \<Rightarrow> ('p list \<times> 'r Responder) option" where
  "Push rec held build ssrc sn timeNS marker t =
    (let t = t\<lparr>recorder := rec (recorder t) ssrc sn (timeNS sdiv 1000)\<rparr>
     in if due held t timeNS marker then
          (case build (recorder t) of (pkts, r) \<Rightarrow>
            let t = t\<lparr>recorder := r\<rparr> in
            case pkts of
              Some p \<Rightarrow> if has_callback t then Some ([p], t\<lparr>lastReport := timeNS\<rparr>) else None
            | None \<Rightarrow> Some ([], t\<lparr>lastReport := timeNS\<rparr>))
        else Some ([], t))"

section \<open>A run of pushes\<close>

text \<open>Each push is its arguments; the log has the time of each report and the number of packets it covers.\<close>

type_synonym push = "u32 \<times> u16 \<times> int \<times> bool"

fun pushes :: "('r \<Rightarrow> u32 \<Rightarrow> u16 \<Rightarrow> int \<Rightarrow> 'r) \<Rightarrow> ('r \<Rightarrow> int) \<Rightarrow> ('r \<Rightarrow> 'p option \<times> 'r) \<Rightarrow> push list \<Rightarrow> 'r Responder \<Rightarrow> ((int \<times> int) list \<times> 'r Responder) option" where
  "pushes rec held build [] t = Some ([], t)"
| "pushes rec held build ((ssrc, sn, timeNS, marker) # ps) t =
    (let t1 = t\<lparr>recorder := rec (recorder t) ssrc sn (timeNS sdiv 1000)\<rparr>
     in case Push rec held build ssrc sn timeNS marker t of
          None \<Rightarrow> None
        | Some (out, t') \<Rightarrow> (case pushes rec held build ps t' of
            None \<Rightarrow> None
          | Some (log, t'') \<Rightarrow> Some ((if due held t1 timeNS marker then [(timeNS, held (recorder t1))] else []) @ log, t'')))"

text \<open>Reports in order from the last one before: how many packets each covers and how far they are apart.\<close>

fun reports_ok :: "int \<Rightarrow> (int \<times> int) list \<Rightarrow> bool" where
  "reports_ok prev [] \<longleftrightarrow> True"
| "reports_ok prev ((time, n) # log) \<longleftrightarrow> 20 < n \<and> n \<le> 101 \<and> (time - prev \<ge> tccReportDeltaAfterMark \<or> n = 101) \<and> reports_ok time log"

fun times_ok :: "push list \<Rightarrow> bool" where
  "times_ok ps \<longleftrightarrow> list_all (\<lambda>(_, _, time, _). 0 \<le> time \<and> time < 2 ^ 63) ps"

lemma pushes_reports:
  assumes "\<And>r ssrc sn time. held (rec r ssrc sn time) \<le> held r + 1" "\<And>r. held (snd (build r)) = 0"
  shows "has_callback t \<Longrightarrow> held (recorder t) \<le> 100 \<Longrightarrow> 0 \<le> lastReport t \<Longrightarrow> lastReport t < 2 ^ 63 \<Longrightarrow> times_ok ps \<Longrightarrow>
    \<exists>log t'. pushes rec held build ps t = Some (log, t') \<and> reports_ok (lastReport t) log \<and> held (recorder t') \<le> 100"
proof (induction ps arbitrary: t)
  case (Cons p ps)
  obtain ssrc sn time marker where p: "p = (ssrc, sn, time, marker)" by (cases p) auto
  have time: "0 \<le> time" "time < 2 ^ 63" and ps: "times_ok ps" using Cons.prems(5) by (simp_all add: p)
  define t1 where "t1 = t\<lparr>recorder := rec (recorder t) ssrc sn (time sdiv 1000)\<rparr>"
  have h: "held (recorder t1) \<le> 101" using assms(1) [of "recorder t" ssrc sn "time sdiv 1000"] Cons.prems(2) by (simp add: t1_def)
  have f: "lastReport t1 = lastReport t" "has_callback t1" using Cons.prems(1) by (simp_all add: t1_def)
  have d: "wrap64 (time - lastReport t) = time - lastReport t" using time Cons.prems(3,4) by (intro wrap64_id) simp_all
  obtain pkts r where b: "build (recorder t1) = (pkts, r)" by fastforce
  have r: "held r = 0" using assms(2) [of "recorder t1"] b by simp
  show ?case
  proof (cases "due held t1 time marker")
    case False
    then have "Push rec held build ssrc sn time marker t = Some ([], t1)" by (simp add: Push_def t1_def Let_def)
    moreover have "held (recorder t1) \<le> 100"
      using False h time Cons.prems(3,4) by (auto simp: due_def Let_def)
    then obtain log t' where "pushes rec held build ps t1 = Some (log, t')" "reports_ok (lastReport t1) log" "held (recorder t') \<le> 100"
      using Cons.IH [of t1] Cons.prems f ps by auto
    ultimately show ?thesis using False f by (simp add: p Let_def flip: t1_def)
  next
    case True
    let ?t2 = "t1\<lparr>recorder := r, lastReport := time\<rparr>"
    have "\<exists>out. Push rec held build ssrc sn time marker t = Some (out, ?t2)"
      using True b f by (simp add: Push_def Let_def flip: t1_def split: option.split)
    moreover obtain log t' where "pushes rec held build ps ?t2 = Some (log, t')" "reports_ok time log" "held (recorder t') \<le> 100"
      using Cons.IH [of ?t2] f r time ps by auto
    moreover have "20 < held (recorder t1)" "time - lastReport t \<ge> tccReportDeltaAfterMark \<or> held (recorder t1) = 101"
      using True h by (auto simp: due_def f d Let_def tccReportDelta_def tccReportDeltaAfterMark_def)
    ultimately show ?thesis using True h by (auto simp: p Let_def simp flip: t1_def)
  qed
qed simp

text \<open>
  C40. With a callback set and a recorder that adds at most one packet per arrival and is empty after a report, no push panics,
  the recorder never holds more than 100 packets between pushes, and every report covers 21 to 101 packets and comes at
  least 50 ms after the one before, unless it covers 101 packets. Without a callback the first push that has feedback panics.
\<close>

theorem twcc_reports:
  assumes "\<And>r ssrc sn time. held (rec r ssrc sn time) \<le> held r + 1" "\<And>r. held (snd (build r)) = 0" "held (newRecorder s) = 0" "times_ok ps"
  shows "(\<exists>log t. pushes rec held build ps (OnFeedback True (NewTransportWideCCResponder newRecorder s)) = Some (log, t) \<and>
      reports_ok 0 log \<and> held (recorder t) \<le> 100) \<and>
    (\<forall>t ssrc sn time marker. Push rec held build ssrc sn time marker t = None \<longleftrightarrow>
      \<not> has_callback t \<and> due held (t\<lparr>recorder := rec (recorder t) ssrc sn (time sdiv 1000)\<rparr>) time marker \<and>
      fst (build (rec (recorder t) ssrc sn (time sdiv 1000))) \<noteq> None)"
proof (intro conjI allI)
  show "\<exists>log t. pushes rec held build ps (OnFeedback True (NewTransportWideCCResponder newRecorder s)) = Some (log, t) \<and>
      reports_ok 0 log \<and> held (recorder t) \<le> 100"
    using pushes_reports [of held rec build "OnFeedback True (NewTransportWideCCResponder newRecorder s)" ps, OF assms(1,2)] assms(3,4)
    by (simp add: OnFeedback_def NewTransportWideCCResponder_def)
qed (auto simp: Push_def Let_def split: prod.split option.split if_splits)

text \<open>A recorder that counts; 21 packets, the last with a marker.\<close>

definition example_pushes :: "push list" where
  "example_pushes = map (\<lambda>i. (1, word_of_nat i, 1700000000000000000 + 1000000 * int i, i = 20)) [0..<21]"

theorem twcc_reports_witness:
  "\<exists>log t. pushes (\<lambda>r _ _ _. r + 1) (\<lambda>r. r) (\<lambda>r. (Some (), 0)) example_pushes (OnFeedback True (NewTransportWideCCResponder (\<lambda>_. 0) 5)) = Some (log, t) \<and>
     reports_ok 0 log \<and> recorder t \<le> (100 :: int)"
  using twcc_reports [of "\<lambda>r. r" "\<lambda>r _ _ _. r + 1" "\<lambda>r. (Some (), 0)" "\<lambda>_. 0 :: int" 5 example_pushes]
  by (auto simp: example_pushes_def list_all_iff)

end
