(* ===== verification/Nack.thy ===== *)
theory Nack
  imports Go_Time
begin

text \<open>
  The NACK queue, \<^verbatim>\<open>pkg/nack/nack.go\<close>. Clock readings are arguments: \<open>now\<close> is the reading of the method,
  \<open>since i\<close> the one \<open>time.Since\<close> makes for the \<open>i\<close>-th entry; times and durations are nanoseconds. The entries
  are pointers to distinct structs, modelled by value. A \<open>float64\<close> is the rational it denotes: the
  smoothing of the round-trip time is exact in \<open>float64\<close> for every input, and so is the backoff of the
  default parameters (\<open>5/4\<close>, five tries). An RTCP pair is its two fields.
\<close>

section \<open>Parameters and state\<close>

record nackParams =
  maxTries :: byte
  minInterval :: int
  maxInterval :: int
  backoffFactor :: rat
  maxLifeTime :: int

record NackQueueParams =
  DefaultRtt :: u32
  MaxNacks :: nat
  MaxTries :: byte
  MinInterval :: int
  MaxInterval :: int
  BackoffFactor :: rat
  MaxLifetime :: int

definition NackQueueParamsDefault :: NackQueueParams where
  "NackQueueParamsDefault = \<lparr>DefaultRtt = 70, MaxNacks = 100, MaxTries = 5, MinInterval = 20 * 1000000,
     MaxInterval = 400 * 1000000, BackoffFactor = 5 / 4, MaxLifetime = 2 * 60 * 1000000000\<rparr>"

definition rttSmoothingFactor :: rat where "rttSmoothingFactor = 3 / 4"

record nack =
  seqNum :: u16
  bornAt :: int
  tries :: byte
  lastNackedAt :: int

record nackQueue =
  q_params :: NackQueueParams
  q_nackParams :: nackParams
  nacks :: "nack list"
  q_cap :: nat
  q_rtt :: u32

type_synonym NackPair = "u16 \<times> u16"

section \<open>One entry\<close>

definition newNack :: "int \<Rightarrow> u16 \<Rightarrow> nack" where
  "newNack now sn = \<lparr>seqNum = sn, bornAt = now, tries = 0, lastNackedAt = now\<rparr>"

definition requiredInterval :: "nackParams \<Rightarrow> byte \<Rightarrow> u32 \<Rightarrow> int" where
  "requiredInterval p t rtt =
    (let required = (if t > 0 then
           let backoff = wrap64 (float_to_int64 (of_int (uint rtt) * backoffFactor p ^ unat (t - 1)) * 1000000)
           in (if backoff < maxInterval p then backoff else maxInterval p)
         else 0)
     in if required < minInterval p then minInterval p else required)"

text \<open>The results are \<open>shouldSend\<close>, \<open>shouldRemove\<close>, the number and the entry afterwards.\<close>

definition getNack :: "nackParams \<Rightarrow> nack \<Rightarrow> int \<Rightarrow> int \<Rightarrow> u32 \<Rightarrow> bool \<times> bool \<times> u16 \<times> nack" where
  "getNack p n now since rtt =
    (if tries n \<ge> maxTries p \<or> time_sub since (bornAt n) > maxLifeTime p then (False, True, seqNum n, n)
     else if time_sub now (lastNackedAt n) < requiredInterval p (tries n) rtt then (False, False, seqNum n, n)
     else (True, False, seqNum n, n\<lparr>tries := tries n + 1, lastNackedAt := now\<rparr>))"

section \<open>The queue\<close>

definition NewNACKQueue :: "NackQueueParams \<Rightarrow> nackQueue" where
  "NewNACKQueue params = \<lparr>q_params = params,
     q_nackParams = \<lparr>maxTries = MaxTries params, minInterval = MinInterval params, maxInterval = MaxInterval params,
       backoffFactor = BackoffFactor params, maxLifeTime = MaxLifetime params\<rparr>,
     nacks = [], q_cap = MaxNacks params, q_rtt = DefaultRtt params\<rparr>"

definition SetRTT :: "nackQueue \<Rightarrow> u32 \<Rightarrow> nackQueue" where
  "SetRTT q rtt =
    (if rtt = 0 then q\<lparr>q_rtt := DefaultRtt (q_params q)\<rparr>
     else if q_rtt q = 0 then q\<lparr>q_rtt := rtt\<rparr>
     else q\<lparr>q_rtt := word_of_int (float_to_int64
            (rttSmoothingFactor * of_int (uint rtt) + (1 - rttSmoothingFactor) * of_int (uint (q_rtt q))))\<rparr>)"

fun remove_first :: "u16 \<Rightarrow> nack list \<Rightarrow> nack list" where
  "remove_first sn [] = []"
| "remove_first sn (n # ns) = (if seqNum n \<noteq> sn then n # remove_first sn ns else ns)"

definition Remove :: "nackQueue \<Rightarrow> u16 \<Rightarrow> nackQueue" where
  "Remove q sn = q\<lparr>nacks := remove_first sn (nacks q)\<rparr>"

text \<open>With no capacity the queue is full while empty, and the slice expression panics.\<close>

definition Push :: "nackQueue \<Rightarrow> int \<Rightarrow> u16 \<Rightarrow> nackQueue option" where
  "Push q now sn = do {
     ns \<leftarrow> (if length (nacks q) = q_cap q then go_from (nacks q) 1 else Some (nacks q));
     Some (q\<lparr>nacks := ns @ [newNack now sn]\<rparr>) }"

fun push_range_loop :: "nackQueue \<Rightarrow> (nat \<Rightarrow> int) \<Rightarrow> u16 \<Rightarrow> nat \<Rightarrow> nackQueue option" where
  "push_range_loop q clock e 0 = Some q"
| "push_range_loop q clock e (Suc i) = do {
     q \<leftarrow> Push q (clock (Suc i)) (e - of_nat (Suc i));
     push_range_loop q clock e i }"

definition PushRange :: "nackQueue \<Rightarrow> (nat \<Rightarrow> int) \<Rightarrow> u16 \<Rightarrow> u64 \<Rightarrow> nackQueue option" where
  "PushRange q clock e count = push_range_loop q clock e (min (unat count) (q_cap q))"

definition Nacks :: "nackQueue \<Rightarrow> nack list" where
  "Nacks q = nacks q"

section \<open>Building the pairs\<close>

record pairs_acc =
  baseSN :: u16
  np :: NackPair
  isPairActive :: bool
  nps :: "NackPair list"
  snsToPurge :: "u16 list"
  numSeqNumsNacked :: nat

definition pairs_add :: "u16 \<Rightarrow> pairs_acc \<Rightarrow> pairs_acc" where
  "pairs_add sn a =
    (let a = a\<lparr>numSeqNumsNacked := numSeqNumsNacked a + 1\<rparr> in
     if sn - baseSN a > 16 then
       let a = (if isPairActive a then a\<lparr>nps := nps a @ [np a], isPairActive := False\<rparr> else a)
       in a\<lparr>baseSN := sn, np := (sn, 0), isPairActive := True\<rparr>
     else a\<lparr>np := (fst (np a), snd (np a) OR push_bit (unat (sn - baseSN a - 1)) 1)\<rparr>)"

fun pairs_loop ::
  "nackParams \<Rightarrow> int \<Rightarrow> (nat \<Rightarrow> int) \<Rightarrow> u32 \<Rightarrow> nat \<Rightarrow> nack list \<Rightarrow> pairs_acc \<Rightarrow> nack list \<times> pairs_acc" where
  "pairs_loop p now since rtt i [] a = ([], a)"
| "pairs_loop p now since rtt i (n # ns) a =
    (let (shouldSend, shouldRemove, sn, n') = getNack p n now (since i) rtt;
         a = (if shouldRemove then a\<lparr>snsToPurge := snsToPurge a @ [sn]\<rparr>
              else if \<not> shouldSend then a
              else pairs_add sn a);
         (ns', a) = pairs_loop p now since rtt (i + 1) ns a
     in (n' # ns', a))"

definition Pairs :: "nackQueue \<Rightarrow> int \<Rightarrow> (nat \<Rightarrow> int) \<Rightarrow> (NackPair list \<times> nat) \<times> nackQueue" where
  "Pairs q now since =
    (case nacks q of
       [] \<Rightarrow> (([], 0), q)
     | n0 # _ \<Rightarrow>
       let (ns, a) = pairs_loop (q_nackParams q) now since (q_rtt q) 0 (nacks q)
             \<lparr>baseSN = seqNum n0 - 17, np = (0, 0), isPairActive = False, nps = [], snsToPurge = [],
              numSeqNumsNacked = 0\<rparr>;
           pairs = (if isPairActive a then nps a @ [np a] else nps a)
       in ((pairs, numSeqNumsNacked a), fold (\<lambda>sn q. Remove q sn) (snsToPurge a) (q\<lparr>nacks := ns\<rparr>)))"

section \<open>The queue behind a mutex\<close>

text \<open>
  Taking a held lock waits for its holder: for one caller alone that is a call that does not return.
\<close>

record nackQueueSafe =
  lock_held :: bool
  inner :: nackQueue

definition Lock :: "nackQueueSafe \<Rightarrow> nackQueueSafe option" where
  "Lock s = (if lock_held s then None else Some (s\<lparr>lock_held := True\<rparr>))"

definition Unlock :: "nackQueueSafe \<Rightarrow> nackQueueSafe" where
  "Unlock s = s\<lparr>lock_held := False\<rparr>"

definition NewNACKQueueSafe :: "NackQueueParams \<Rightarrow> nackQueueSafe" where
  "NewNACKQueueSafe params = \<lparr>lock_held = False, inner = NewNACKQueue params\<rparr>"

definition safe_SetRTT :: "nackQueueSafe \<Rightarrow> u32 \<Rightarrow> nackQueueSafe option" where
  "safe_SetRTT s rtt = do { s \<leftarrow> Lock s; Some (Unlock (s\<lparr>inner := SetRTT (inner s) rtt\<rparr>)) }"

definition safe_Remove :: "nackQueueSafe \<Rightarrow> u16 \<Rightarrow> nackQueueSafe option" where
  "safe_Remove s sn = do { s \<leftarrow> Lock s; Some (Unlock (s\<lparr>inner := Remove (inner s) sn\<rparr>)) }"

definition safe_Push :: "nackQueueSafe \<Rightarrow> int \<Rightarrow> u16 \<Rightarrow> nackQueueSafe option" where
  "safe_Push s now sn = do { s \<leftarrow> Lock s; q \<leftarrow> Push (inner s) now sn; Some (Unlock (s\<lparr>inner := q\<rparr>)) }"

definition safe_PushRange :: "nackQueueSafe \<Rightarrow> (nat \<Rightarrow> int) \<Rightarrow> u16 \<Rightarrow> u64 \<Rightarrow> nackQueueSafe option" where
  "safe_PushRange s clock e count = do {
     s \<leftarrow> Lock s; q \<leftarrow> PushRange (inner s) clock e count; Some (Unlock (s\<lparr>inner := q\<rparr>)) }"

definition safe_Pairs :: "nackQueueSafe \<Rightarrow> int \<Rightarrow> (nat \<Rightarrow> int) \<Rightarrow> ((NackPair list \<times> nat) \<times> nackQueueSafe) option" where
  "safe_Pairs s now since = do {
     s \<leftarrow> Lock s;
     let (res, q) = Pairs (inner s) now since;
     Some (res, Unlock (s\<lparr>inner := q\<rparr>)) }"

definition safe_Nacks :: "nackQueueSafe \<Rightarrow> (nack list \<times> nackQueueSafe) option" where
  "safe_Nacks s = do { s \<leftarrow> Lock s; Some (nacks (inner s), Unlock s) }"


section \<open>Bounded queues\<close>

definition last_n :: "nat \<Rightarrow> 'a list \<Rightarrow> 'a list" where
  "last_n n xs = drop (length xs - n) xs"

lemma last_n_all [simp]: "length xs \<le> n \<Longrightarrow> last_n n xs = xs"
  by (simp add: last_n_def)

lemma length_last_n [simp]: "length (last_n n xs) = min n (length xs)"
  by (simp add: last_n_def)

lemma last_n_append_left: "n \<le> length ys \<Longrightarrow> last_n n (xs @ ys) = last_n n ys"
  by (simp add: last_n_def)

lemma last_n_idem: "last_n n (last_n n xs @ ys) = last_n n (xs @ ys)"
  by (cases "length xs \<le> n") (simp_all add: last_n_def drop_drop add.commute)

lemma last_n_map: "last_n n (map f xs) = map f (last_n n xs)"
  by (simp add: last_n_def drop_map)

lemma last_n_push:
  "length xs \<le> n \<Longrightarrow> 0 < n \<Longrightarrow> (if length xs = n then drop 1 xs else xs) @ [x] = last_n n (xs @ [x])"
  by (auto simp: last_n_def)

text \<open>
  The interface of \<open>NackQueueInterface\<close> a producer relies on: a push is always accepted and costs at most
  the oldest number.
\<close>

locale nack_queue =
  fixes inv :: "'s \<Rightarrow> bool"
    and sns :: "'s \<Rightarrow> u16 list"
    and cap :: "'s \<Rightarrow> nat"
    and push :: "'s \<Rightarrow> int \<Rightarrow> u16 \<Rightarrow> 's option"
  assumes bounded: "inv s \<Longrightarrow> length (sns s) \<le> cap s"
    and push_total: "inv s \<Longrightarrow> 0 < cap s \<Longrightarrow> \<exists>s'. push s t sn = Some s' \<and> inv s' \<and> cap s' = cap s
      \<and> sns s' = last_n (cap s) (sns s @ [sn])"
begin

lemma push_all:
  "inv s \<Longrightarrow> 0 < cap s \<Longrightarrow> \<exists>s'. fold (\<lambda>(t, sn) so. so \<bind> (\<lambda>s. push s t sn)) xs (Some s) = Some s'
    \<and> inv s' \<and> cap s' = cap s \<and> sns s' = last_n (cap s) (sns s @ map snd xs)"
proof (induction xs arbitrary: s)
  case Nil
  then show ?case using bounded by simp
next
  case (Cons x xs)
  obtain t sn where x: "x = (t, sn)" by (cases x)
  from push_total [OF Cons.prems, of t sn] obtain s1 where
    s1: "push s t sn = Some s1" "inv s1" "cap s1 = cap s" "sns s1 = last_n (cap s) (sns s @ [sn])" by blast
  from Cons.IH [OF s1(2)] s1(3) Cons.prems(2) obtain s' where
    "fold (\<lambda>(t, sn) so. so \<bind> (\<lambda>s. push s t sn)) xs (Some s1) = Some s'" "inv s'" "cap s' = cap s"
    "sns s' = last_n (cap s) (last_n (cap s) (sns s @ [sn]) @ map snd xs)" using s1(4) by auto
  then show ?case by (simp add: x s1(1) last_n_idem)
qed

end

definition q_sns :: "nackQueue \<Rightarrow> u16 list" where
  "q_sns q = map seqNum (nacks q)"

definition q_ok :: "nackQueue \<Rightarrow> bool" where
  "q_ok q \<longleftrightarrow> length (nacks q) \<le> q_cap q \<and> (\<forall>n \<in> set (nacks q). tries n \<le> maxTries (q_nackParams q))"

lemma Push_spec:
  assumes "q_ok q" "0 < q_cap q"
  shows "\<exists>q'. Push q t sn = Some q' \<and> q_ok q' \<and> q_cap q' = q_cap q \<and> q_nackParams q' = q_nackParams q
    \<and> q_params q' = q_params q \<and> q_rtt q' = q_rtt q \<and> q_sns q' = last_n (q_cap q) (q_sns q @ [sn])"
proof (cases "length (nacks q) = q_cap q")
  case True
  then show ?thesis
    using assms last_n_push [of "q_sns q" "q_cap q" sn]
    by (auto simp: Push_def q_ok_def q_sns_def newNack_def drop_map Suc_le_eq dest: in_set_dropD)
next
  case False
  then show ?thesis
    using assms last_n_push [of "q_sns q" "q_cap q" sn] by (auto simp: Push_def q_ok_def q_sns_def newNack_def)
qed

interpretation plain: nack_queue q_ok q_sns q_cap Push
proof
  show "length (q_sns s) \<le> q_cap s" if "q_ok s" for s using that by (simp add: q_ok_def q_sns_def)
  show "\<exists>s'. Push s t sn = Some s' \<and> q_ok s' \<and> q_cap s' = q_cap s \<and> q_sns s' = last_n (q_cap s) (q_sns s @ [sn])"
    if "q_ok s" "0 < q_cap s" for s t sn using Push_spec [OF that] by blast
qed

text \<open>The locked queue with the lock free promises the same, and leaves it free.\<close>

interpretation safe: nack_queue "\<lambda>s. \<not> lock_held s \<and> q_ok (inner s)" "\<lambda>s. q_sns (inner s)" "\<lambda>s. q_cap (inner s)" safe_Push
proof
  show "length (q_sns (inner s)) \<le> q_cap (inner s)" if "\<not> lock_held s \<and> q_ok (inner s)" for s
    using that plain.bounded by blast
  show "\<exists>s'. safe_Push s t sn = Some s' \<and> (\<not> lock_held s' \<and> q_ok (inner s')) \<and> q_cap (inner s') = q_cap (inner s)
      \<and> q_sns (inner s') = last_n (q_cap (inner s)) (q_sns (inner s) @ [sn])"
    if "\<not> lock_held s \<and> q_ok (inner s)" "0 < q_cap (inner s)" for s t sn
    using that Push_spec [of "inner s" t sn] by (auto simp: safe_Push_def Lock_def Unlock_def)
qed

section \<open>PushRange\<close>

text \<open>The \<open>n\<close> numbers before \<open>e\<close>, in order.\<close>

definition before :: "u16 \<Rightarrow> nat \<Rightarrow> u16 list" where
  "before e n = map (\<lambda>i. e - of_nat (n - i)) [0..<n]"

lemma length_before [simp]: "length (before e n) = n"
  by (simp add: before_def)

lemma before_Suc: "before e (Suc n) = (e - of_nat (Suc n)) # before e n"
  by (simp add: before_def upt_conv_Cons map_Suc_upt [symmetric] del: upt_Suc map_Suc_upt)

lemma before_add: "\<exists>xs. before e (k + n) = xs @ before e n"
  by (induction k) (auto simp: before_Suc)

lemma push_range_loop_fold:
  "push_range_loop q clock e n =
    fold (\<lambda>(t, sn) so. so \<bind> (\<lambda>s. Push s t sn)) (zip (map clock (rev [1..<Suc n])) (before e n)) (Some q)"
proof (induction n arbitrary: q)
  case (Suc n)
  have none: "fold (\<lambda>(t, sn) so. so \<bind> (\<lambda>s. Push s t sn)) xs None = None" for xs by (induction xs) auto
  show ?case
    by (cases "Push q (clock (Suc n)) (e - of_nat (Suc n))") (simp_all add: before_Suc Suc none del: upt_Suc add: upt_Suc_append)
qed (simp add: before_def)

lemma PushRange_spec:
  assumes "q_ok q" "0 < q_cap q"
  shows "\<exists>q'. PushRange q clock e count = Some q' \<and> q_ok q' \<and> q_cap q' = q_cap q
    \<and> q_sns q' = last_n (q_cap q) (q_sns q @ before e (unat count))"
proof -
  let ?n = "min (unat count) (q_cap q)"
  have "length (map clock (rev [1..<Suc ?n])) = length (before e ?n)" by (simp only: length_before length_map length_rev length_upt)
  then have "map snd (zip (map clock (rev [1..<Suc ?n])) (before e ?n)) = before e ?n"
    by (rule map_snd_zip)
  with plain.push_all [OF assms, of "zip (map clock (rev [1..<Suc ?n])) (before e ?n)"]
  obtain q' where q': "PushRange q clock e count = Some q'" "q_ok q'" "q_cap q' = q_cap q"
    "q_sns q' = last_n (q_cap q) (q_sns q @ before e ?n)"
    by (auto simp: PushRange_def push_range_loop_fold)
  have "last_n (q_cap q) (q_sns q @ before e ?n) = last_n (q_cap q) (q_sns q @ before e (unat count))"
  proof (cases "unat count \<le> q_cap q")
    case False
    then obtain xs where "before e (unat count) = xs @ before e (q_cap q)"
      using before_add [of e "unat count - q_cap q" "q_cap q"] by auto
    then show ?thesis using False by (simp add: last_n_append_left flip: append_assoc)
  qed simp
  then show ?thesis using q' by auto
qed

section \<open>Remove, SetRTT\<close>

lemma remove_first_subset: "set (remove_first sn ns) \<subseteq> set ns"
  by (induction ns) auto

lemma length_remove_first: "length (remove_first sn ns) \<le> length ns"
  by (induction ns) auto

lemma remove_first_distinct:
  "distinct (map seqNum ns) \<Longrightarrow> remove_first sn ns = filter (\<lambda>n. seqNum n \<noteq> sn) ns"
proof (induction ns)
  case (Cons n ns)
  have "filter (\<lambda>m. seqNum m \<noteq> seqNum n) ns = ns" using Cons.prems by (simp add: filter_id_conv) (metis imageI)
  then show ?case using Cons by auto
qed simp

lemma floor_to_int64: "0 \<le> r \<Longrightarrow> r < 2 ^ 63 \<Longrightarrow> float_to_int64 r = \<lfloor>r\<rfloor>"
  by (auto simp: float_to_int64_def Let_def floor_less_iff)

lemma SetRTT_smooth:
  assumes "rtt \<noteq> 0" "q_rtt q \<noteq> 0"
  shows "uint (q_rtt (SetRTT q rtt)) = (3 * uint rtt + uint (q_rtt q)) div 4"
proof -
  let ?s = "3 * uint rtt + uint (q_rtt q)"
  have b: "0 \<le> uint rtt" "uint rtt < 2 ^ 32" "0 \<le> uint (q_rtt q)" "uint (q_rtt q) < 2 ^ 32"
    using uint_lt2p [of rtt] uint_lt2p [of "q_rtt q"] by simp_all
  have e: "3 / 4 * of_int (uint rtt) + (1 - 3 / 4) * of_int (uint (q_rtt q)) = (of_int ?s / of_int 4 :: rat)"
    by simp
  have "\<lfloor>(of_int ?s / of_int 4 :: rat)\<rfloor> = ?s div 4" by (rule floor_divide_of_int_eq)
  moreover have "0 \<le> (of_int ?s :: rat)" "(of_int ?s :: rat) < of_int (2 ^ 34)"
    using b by (simp_all only: of_int_0_le_iff of_int_less_iff) simp_all
  ultimately have "float_to_int64 (3 / 4 * of_int (uint rtt) + (1 - 3 / 4) * of_int (uint (q_rtt q))) = ?s div 4"
    unfolding e by (subst floor_to_int64) simp_all
  moreover have "0 \<le> ?s div 4" by (simp only: pos_imp_zdiv_nonneg_iff zero_less_numeral) (use b in linarith)
  moreover have "?s div 4 < 2 ^ 32" using b by simp
  ultimately show ?thesis
    using assms by (simp add: SetRTT_def rttSmoothingFactor_def uint_word_of_int_eq take_bit_int_eq_self)
qed


section \<open>What the pairs say\<close>

text \<open>The numbers an RTCP pair asks for (RFC 4585): its base, and one per bit of the mask.\<close>

definition pair_sns :: "NackPair \<Rightarrow> u16 set" where
  "pair_sns pr = insert (fst pr) {fst pr + of_nat i + 1 | i. i < 16 \<and> bit (snd pr) i}"

definition requested :: "NackPair list \<Rightarrow> u16 set" where
  "requested ps = (\<Union>pr \<in> set ps. pair_sns pr)"

text \<open>The numbers due at this call, the entries it drops, and the entries as it leaves them.\<close>

definition sent_sns :: "nackParams \<Rightarrow> int \<Rightarrow> (nat \<Rightarrow> int) \<Rightarrow> u32 \<Rightarrow> nat \<Rightarrow> nack list \<Rightarrow> u16 list" where
  "sent_sns p now since rtt i ns = map (\<lambda>(k, n). seqNum n)
     (filter (\<lambda>(k, n). fst (getNack p n now (since k) rtt)) (zip [i..<i + length ns] ns))"

definition purged_sns :: "nackParams \<Rightarrow> int \<Rightarrow> (nat \<Rightarrow> int) \<Rightarrow> u32 \<Rightarrow> nat \<Rightarrow> nack list \<Rightarrow> u16 list" where
  "purged_sns p now since rtt i ns = map (\<lambda>(k, n). seqNum n)
     (filter (\<lambda>(k, n). fst (snd (getNack p n now (since k) rtt))) (zip [i..<i + length ns] ns))"

definition stepped :: "nackParams \<Rightarrow> int \<Rightarrow> (nat \<Rightarrow> int) \<Rightarrow> u32 \<Rightarrow> nat \<Rightarrow> nack list \<Rightarrow> nack list" where
  "stepped p now since rtt i ns = map (\<lambda>(k, n). snd (snd (snd (getNack p n now (since k) rtt)))) (zip [i..<i + length ns] ns)"

lemma sent_sns_simps [simp]:
  "sent_sns p now since rtt i [] = []"
  "sent_sns p now since rtt i (n # ns) =
    (if fst (getNack p n now (since i) rtt) then [seqNum n] else []) @ sent_sns p now since rtt (Suc i) ns"
  by (simp_all add: sent_sns_def upt_conv_Cons del: upt_Suc)

lemma purged_sns_simps [simp]:
  "purged_sns p now since rtt i [] = []"
  "purged_sns p now since rtt i (n # ns) =
    (if fst (snd (getNack p n now (since i) rtt)) then [seqNum n] else []) @ purged_sns p now since rtt (Suc i) ns"
  by (simp_all add: purged_sns_def upt_conv_Cons del: upt_Suc)

lemma stepped_simps [simp]:
  "stepped p now since rtt i [] = []"
  "stepped p now since rtt i (n # ns) = snd (snd (snd (getNack p n now (since i) rtt))) # stepped p now since rtt (Suc i) ns"
  by (simp_all add: stepped_def upt_conv_Cons del: upt_Suc)

lemma getNack_seqNum: "getNack p n now t rtt = (send, rem, sn, n') \<Longrightarrow> sn = seqNum n \<and> seqNum n' = seqNum n \<and> \<not> (send \<and> rem)"
  by (auto simp: getNack_def split: if_splits)

lemma stepped_seqNum [simp]: "map seqNum (stepped p now since rtt i ns) = map seqNum ns"
proof (induction ns arbitrary: i)
  case (Cons n ns)
  have "seqNum (snd (snd (snd (getNack p n now (since i) rtt)))) = seqNum n" by (simp add: getNack_def)
  then show ?case using Cons by simp
qed simp

lemma pairs_add_purge: "pairs_add sn (a\<lparr>snsToPurge := ps\<rparr>) = (pairs_add sn a)\<lparr>snsToPurge := ps\<rparr>"
  by (simp add: pairs_add_def Let_def)

lemma pairs_add_snsToPurge [simp]: "snsToPurge (pairs_add sn a) = snsToPurge a"
  by (simp add: pairs_add_def Let_def)

lemma fold_pairs_purge: "fold pairs_add sns (a\<lparr>snsToPurge := ps\<rparr>) = (fold pairs_add sns a)\<lparr>snsToPurge := ps\<rparr>"
  by (induction sns arbitrary: a) (simp_all add: pairs_add_purge)

lemma fold_snsToPurge [simp]: "snsToPurge (fold pairs_add sns a) = snsToPurge a"
  by (induction sns arbitrary: a) simp_all

text \<open>The loop of \<open>Pairs\<close> in three independent parts.\<close>

lemma pairs_loop_eq:
  "pairs_loop p now since rtt i ns a =
    (stepped p now since rtt i ns,
     (fold pairs_add (sent_sns p now since rtt i ns) a)\<lparr>snsToPurge := snsToPurge a @ purged_sns p now since rtt i ns\<rparr>)"
proof (induction ns arbitrary: i a)
  case (Cons n ns)
  obtain send rem sn n' where g: "getNack p n now (since i) rtt = (send, rem, sn, n')"
    by (cases "getNack p n now (since i) rtt")
  from getNack_seqNum [OF g] have "sn = seqNum n" "\<not> (send \<and> rem)" by auto
  then show ?case
    by (cases send; cases rem) (simp_all add: g Cons fold_pairs_purge)
qed simp

definition covered :: "pairs_acc \<Rightarrow> u16 set" where
  "covered a = requested (nps a) \<union> (if isPairActive a then pair_sns (np a) else {})"

lemma requested_snoc [simp]: "requested (ps @ [pr]) = requested ps \<union> pair_sns pr"
  by (auto simp: requested_def)

lemma pair_sns_add:
  assumes "sn - b \<le> (16 :: u16)"
  shows "pair_sns (b, m OR push_bit (unat (sn - b - 1)) 1) = insert sn (pair_sns (b, m))"
proof (cases "sn = b")
  case True
  have "16 \<le> unat (- 1 :: u16)" by (simp add: unsigned_minus_1_eq_mask mask_eq_exp_minus_1)
  then have "push_bit (unat (sn - b - 1)) 1 = (0 :: u16)" using True by simp
  then have "m OR push_bit (unat (sn - b - 1)) 1 = m" by (simp only: or.right_neutral)
  then show ?thesis using True by (simp only:) (simp add: pair_sns_def)
next
  case False
  let ?k = "unat (sn - b - 1)"
  have nz: "sn - b \<noteq> 0" using False by simp
  then have "unat (sn - b - 1) = unat (sn - b) - 1" by (simp add: unat_minus_one)
  moreover have "unat (sn - b) \<le> 16" using assms by (simp add: word_le_nat_alt)
  moreover have "0 < unat (sn - b)" using nz by (simp add: unat_gt_0)
  ultimately have k: "?k < 16" by linarith
  have "of_nat ?k = sn - b - 1" by simp
  then have sn: "b + of_nat ?k + 1 = sn" by simp
  have bits: "bit (m OR push_bit ?k 1) i \<longleftrightarrow> bit m i \<or> i = ?k" if "i < 16" for i
    using that k by (auto simp: bit_simps)
  have "{b + of_nat i + 1 | i. i < 16 \<and> bit (m OR push_bit ?k 1) i} = {b + of_nat i + 1 | i. i < 16 \<and> (bit m i \<or> i = ?k)}"
    using bits by blast
  also have "\<dots> = insert (b + of_nat ?k + 1) {b + of_nat i + 1 | i. i < 16 \<and> bit m i}" using k by blast
  finally show ?thesis unfolding pair_sns_def sn by (simp add: insert_commute)
qed

lemma pairs_add_active:
  assumes "isPairActive a" "fst (np a) = baseSN a"
  shows "isPairActive (pairs_add sn a) \<and> fst (np (pairs_add sn a)) = baseSN (pairs_add sn a)
    \<and> covered (pairs_add sn a) = insert sn (covered a)"
proof -
  obtain b m where np: "np a = (b, m)" by (cases "np a")
  then have b: "baseSN a = b" using assms by simp
  show ?thesis
  proof (cases "sn - b > 16")
    case True
    have "pair_sns (sn, 0) = {sn}" by (simp add: pair_sns_def)
    then show ?thesis using True assms np b by (simp add: pairs_add_def covered_def Let_def)
  next
    case False
    then show ?thesis
      using assms np b pair_sns_add [of sn b m] by (simp add: pairs_add_def covered_def Let_def)
  qed
qed

lemma fold_active:
  assumes "isPairActive a" "fst (np a) = baseSN a"
  shows "isPairActive (fold pairs_add sns a) \<and> covered (fold pairs_add sns a) = set sns \<union> covered a"
  using assms
proof (induction sns arbitrary: a)
  case (Cons sn sns)
  then show ?case using pairs_add_active [OF Cons.prems, of sn] by auto
qed simp

text \<open>Until the first pair is open, numbers within reach of the initial base are dropped.\<close>

lemma fold_inactive:
  assumes "\<not> isPairActive a" "nps a = []"
  shows "covered (fold pairs_add sns a) = set (dropWhile (\<lambda>sn. sn - baseSN a \<le> 16) sns)"
  using assms
proof (induction sns arbitrary: a)
  case Nil
  then show ?case by (simp add: covered_def requested_def)
next
  case (Cons sn sns)
  show ?case
  proof (cases "sn - baseSN a \<le> 16")
    case True
    then have "\<not> isPairActive (pairs_add sn a)" "nps (pairs_add sn a) = []" "baseSN (pairs_add sn a) = baseSN a"
      using Cons.prems leD [OF True] by (simp_all add: pairs_add_def Let_def)
    then show ?thesis using Cons.IH [of "pairs_add sn a"] True by simp
  next
    case False
    then have "16 < sn - baseSN a" by simp
    then have a: "isPairActive (pairs_add sn a)" "fst (np (pairs_add sn a)) = baseSN (pairs_add sn a)"
      "covered (pairs_add sn a) = {sn}"
      using Cons.prems leD [of "sn - baseSN a" 16] False by (simp_all add: pairs_add_def Let_def covered_def requested_def pair_sns_def)
    then show ?thesis using fold_active [OF a(1,2), of sns] False by auto
  qed
qed

lemma fold_count: "numSeqNumsNacked (fold pairs_add sns a) = numSeqNumsNacked a + length sns"
proof (induction sns arbitrary: a)
  case (Cons sn sns)
  have "numSeqNumsNacked (pairs_add sn a) = numSeqNumsNacked a + 1" by (simp add: pairs_add_def Let_def)
  then show ?case using Cons by simp
qed simp

lemma fold_remove_distinct:
  "distinct (map seqNum (nacks q)) \<Longrightarrow>
    fold (\<lambda>sn q. Remove q sn) sns q = q\<lparr>nacks := filter (\<lambda>n. seqNum n \<notin> set sns) (nacks q)\<rparr>"
proof (induction sns arbitrary: q)
  case (Cons sn sns)
  have "nacks (Remove q sn) = filter (\<lambda>n. seqNum n \<noteq> sn) (nacks q)"
    using remove_first_distinct [OF Cons.prems] by (simp add: Remove_def)
  moreover from this have "distinct (map seqNum (nacks (Remove q sn)))" using Cons.prems by (simp add: distinct_map_filter)
  moreover have "(Remove q sn)\<lparr>nacks := ns\<rparr> = q\<lparr>nacks := ns\<rparr>" for ns by (simp add: Remove_def)
  ultimately show ?case using Cons.IH by (simp add: conj_commute)
qed simp

text \<open>\<open>Pairs\<close> in terms of these parts.\<close>

lemma requested_covered: "requested (if isPairActive a then nps a @ [np a] else nps a) = covered a"
  by (simp add: covered_def)

lemma Pairs_eq:
  assumes "nacks q = n0 # ns"
  shows "\<exists>ps. Pairs q now since = ((ps, length (sent_sns (q_nackParams q) now since (q_rtt q) 0 (nacks q))),
      fold (\<lambda>sn q. Remove q sn) (purged_sns (q_nackParams q) now since (q_rtt q) 0 (nacks q))
        (q\<lparr>nacks := stepped (q_nackParams q) now since (q_rtt q) 0 (nacks q)\<rparr>))
    \<and> requested ps = set (dropWhile (\<lambda>sn. sn - (seqNum n0 - 17) \<le> 16) (sent_sns (q_nackParams q) now since (q_rtt q) 0 (nacks q)))"
proof -
  let ?init = "\<lparr>baseSN = seqNum n0 - 17, np = (0, 0), isPairActive = False, nps = [], snsToPurge = [], numSeqNumsNacked = 0\<rparr>"
  let ?S = "sent_sns (q_nackParams q) now since (q_rtt q) 0 (nacks q)"
  let ?a = "fold pairs_add ?S ?init"
  have "covered ?a = set (dropWhile (\<lambda>sn. sn - (seqNum n0 - 17) \<le> 16) ?S)"
    by (subst fold_inactive) simp_all
  then have "requested (if isPairActive ?a then nps ?a @ [np ?a] else nps ?a)
      = set (dropWhile (\<lambda>sn. sn - (seqNum n0 - 17) \<le> 16) ?S)" unfolding requested_covered .
  moreover have "numSeqNumsNacked ?a = length ?S" using fold_count [of ?S ?init] by simp
  then have "Pairs q now since = ((if isPairActive ?a then nps ?a @ [np ?a] else nps ?a, length ?S),
      fold (\<lambda>sn q. Remove q sn) (purged_sns (q_nackParams q) now since (q_rtt q) 0 (nacks q))
        (q\<lparr>nacks := stepped (q_nackParams q) now since (q_rtt q) 0 (nacks q)\<rparr>))"
    by (simp add: Pairs_def assms pairs_loop_eq Let_def del: sent_sns_simps purged_sns_simps stepped_simps)
  ultimately show ?thesis by blast
qed


section \<open>The schedule of one entry\<close>

text \<open>
  The times at which an entry is sent over a sequence of calls (each with its two clock readings and
  the round-trip time).
\<close>

fun schedule :: "nackParams \<Rightarrow> nack \<Rightarrow> (int \<times> int \<times> u32) list \<Rightarrow> int list" where
  "schedule p n [] = []"
| "schedule p n ((now, since, rtt) # cs) =
    (let (send, rem, sn, n') = getNack p n now since rtt
     in if rem then [] else (if send then [now] else []) @ schedule p n' cs)"

fun spaced :: "int \<Rightarrow> int \<Rightarrow> int list \<Rightarrow> bool" where
  "spaced d prev [] = True"
| "spaced d prev (t # ts) \<longleftrightarrow> d \<le> t - prev \<and> spaced d t ts"

lemma requiredInterval_ge: "minInterval p \<le> requiredInterval p t rtt"
  by (simp add: requiredInterval_def Let_def)

lemma unat_less_256: "unat (x :: byte) < 256"
proof -
  have "int (unat x) = uint x" "uint x < 256" using uint_lt2p [of x] by simp_all
  then show ?thesis by linarith
qed

lemma getNack_send:
  assumes "getNack p n now since rtt = (True, rem, sn, n')"
  shows "\<not> rem" "tries n < maxTries p" "unat (tries n') = unat (tries n) + 1" "lastNackedAt n' = now"
    "0 \<le> minInterval p \<Longrightarrow> minInterval p \<le> now - lastNackedAt n"
    "time_sub since (bornAt n) \<le> maxLifeTime p" "bornAt n' = bornAt n"
proof -
  have c: "\<not> rem" "tries n < maxTries p" "n' = n\<lparr>tries := tries n + 1, lastNackedAt := now\<rparr>"
    "\<not> time_sub now (lastNackedAt n) < requiredInterval p (tries n) rtt" "time_sub since (bornAt n) \<le> maxLifeTime p"
    using assms by (auto simp: getNack_def split: if_splits)
  show "\<not> rem" "tries n < maxTries p" "lastNackedAt n' = now" "time_sub since (bornAt n) \<le> maxLifeTime p"
    "bornAt n' = bornAt n" using c by simp_all
  have "unat (tries n) + 1 < 2 ^ LENGTH(8)"
    using c(2) unat_less_256 [of "maxTries p"] by (simp add: word_less_nat_alt)
  then show "unat (tries n') = unat (tries n) + 1" using c(3) by (simp add: unat_word_ariths(1))
  have "minInterval p \<le> time_sub now (lastNackedAt n)"
    using c(4) requiredInterval_ge [of p "tries n" rtt] by linarith
  then show "0 \<le> minInterval p \<Longrightarrow> minInterval p \<le> now - lastNackedAt n"
    by (auto simp: time_sub_def split: if_splits)
qed

lemma schedule_bounds:
  assumes m: "0 \<le> minInterval p" and t: "tries n \<le> maxTries p"
  shows "length (schedule p n cs) \<le> unat (maxTries p) - unat (tries n) \<and> spaced (minInterval p) (lastNackedAt n) (schedule p n cs)"
  using t
proof (induction cs arbitrary: n)
  case (Cons c cs)
  obtain now since rtt where c: "c = (now, since, rtt)" by (cases c)
  obtain send rem sn n' where g: "getNack p n now since rtt = (send, rem, sn, n')"
    by (cases "getNack p n now since rtt")
  show ?case
  proof (cases send)
    case True
    have g': "getNack p n now since rtt = (True, rem, sn, n')" using g True by simp
    note S = getNack_send [OF g']
    have "tries n' \<le> maxTries p" using S(2,3) by (simp add: word_le_nat_alt word_less_nat_alt)
    from Cons.IH [OF this] S m show ?thesis by (auto simp add: c g True word_less_nat_alt)
  next
    case False
    then have "n' = n" using g by (auto simp: getNack_def split: if_splits)
    then show ?thesis using Cons.IH [OF Cons.prems] False by (simp add: c g)
  qed
qed simp

section \<open>Every queue a client can build\<close>

inductive nq_reachable :: "NackQueueParams \<Rightarrow> nackQueue \<Rightarrow> bool" for params where
  new: "nq_reachable params (NewNACKQueue params)"
| rtt: "nq_reachable params q \<Longrightarrow> nq_reachable params (SetRTT q rtt)"
| remove: "nq_reachable params q \<Longrightarrow> nq_reachable params (Remove q sn)"
| push: "nq_reachable params q \<Longrightarrow> Push q now sn = Some q' \<Longrightarrow> nq_reachable params q'"
| pushrange: "nq_reachable params q \<Longrightarrow> PushRange q clock e count = Some q' \<Longrightarrow> nq_reachable params q'"
| pairs: "nq_reachable params q \<Longrightarrow> nq_reachable params (snd (Pairs q now since))"

definition nq_inv :: "NackQueueParams \<Rightarrow> nackQueue \<Rightarrow> bool" where
  "nq_inv params q \<longleftrightarrow> q_ok q \<and> q_cap q = MaxNacks params \<and> q_params q = params \<and>
     q_nackParams q = q_nackParams (NewNACKQueue params)"

lemma nq_inv_new [inv_intros]: "nq_inv params (NewNACKQueue params)"
  by (simp add: nq_inv_def q_ok_def NewNACKQueue_def)

lemma nq_inv_rtt [inv_intros]: "nq_inv params q \<Longrightarrow> nq_inv params (SetRTT q rtt)"
  by (auto simp: nq_inv_def q_ok_def SetRTT_def)

lemma nq_inv_remove [inv_intros]: "nq_inv params q \<Longrightarrow> nq_inv params (Remove q sn)"
  using remove_first_subset [of sn "nacks q"] length_remove_first [of sn "nacks q"]
  by (auto simp: nq_inv_def q_ok_def Remove_def)

lemma Push_Some_cap: "q_ok q \<Longrightarrow> Push q now sn = Some q' \<Longrightarrow> 0 < q_cap q"
  by (auto simp: Push_def q_ok_def go_from_def bind_eq_Some_conv split: if_splits)

lemma nq_inv_push [inv_intros]: "nq_inv params q \<Longrightarrow> Push q now sn = Some q' \<Longrightarrow> nq_inv params q'"
  using Push_spec [of q now sn] Push_Some_cap [of q now sn q'] by (auto simp: nq_inv_def)

lemma nq_inv_push_range_loop: "nq_inv params q \<Longrightarrow> push_range_loop q clock e n = Some q' \<Longrightarrow> nq_inv params q'"
  by (induction n arbitrary: q) (auto simp: bind_eq_Some_conv intro: nq_inv_push)

lemma nq_inv_pushrange [inv_intros]: "nq_inv params q \<Longrightarrow> PushRange q clock e count = Some q' \<Longrightarrow> nq_inv params q'"
  by (auto simp: PushRange_def intro: nq_inv_push_range_loop)

lemma stepped_tries:
  assumes "\<forall>n \<in> set ns. tries n \<le> maxTries p"
  shows "\<forall>n \<in> set (stepped p now since rtt i ns). tries n \<le> maxTries p"
  using assms
proof (induction ns arbitrary: i)
  case (Cons n ns)
  have "tries (snd (snd (snd (getNack p n now (since i) rtt)))) \<le> maxTries p"
  proof -
    obtain send rem sn n' where g: "getNack p n now (since i) rtt = (send, rem, sn, n')"
      by (cases "getNack p n now (since i) rtt")
    show ?thesis
    proof (cases send)
      case True
      have g': "getNack p n now (since i) rtt = (True, rem, sn, n')" using g True by simp
      from getNack_send [OF g'] show ?thesis
        by (simp add: g word_le_nat_alt word_less_nat_alt)
    next
      case False
      then have "n' = n" using g by (auto simp: getNack_def split: if_splits)
      then show ?thesis using Cons.prems g by simp
    qed
  qed
  then show ?case using Cons by simp
qed simp

lemma nq_inv_purge: "nq_inv params q \<Longrightarrow> nq_inv params (fold (\<lambda>sn q. Remove q sn) sns q)"
  by (induction sns arbitrary: q) (auto intro: nq_inv_remove)

lemma nq_inv_pairs [inv_intros]:
  assumes inv: "nq_inv params q"
  shows "nq_inv params (snd (Pairs q now since))"
proof (cases "nacks q")
  case Nil
  then show ?thesis using inv by (simp add: Pairs_def)
next
  case (Cons n0 ns)
  let ?q = "q\<lparr>nacks := stepped (q_nackParams q) now since (q_rtt q) 0 (nacks q)\<rparr>"
  have "length (nacks ?q) = length (nacks q)" by (simp add: stepped_def)
  then have "nq_inv params ?q"
    using inv stepped_tries [of "nacks q" "q_nackParams q" now since "q_rtt q" 0] by (auto simp: nq_inv_def q_ok_def)
  then show ?thesis using Pairs_eq [OF Cons, of now since] nq_inv_purge by (metis snd_conv)
qed

lemma nq_reachable_inv: "nq_reachable params q \<Longrightarrow> nq_inv params q"
  by (induction rule: nq_reachable.induct) (auto intro: inv_intros)

section \<open>Backoff\<close>

lemma requiredInterval_default:
  fixes rtt :: u32
  assumes t: "0 < t" "t < 5"
  shows "requiredInterval (q_nackParams (NewNACKQueue NackQueueParamsDefault)) t rtt =
    max 20000000 (min 400000000 (\<lfloor>of_int (uint rtt) * (5 / 4 :: rat) ^ (unat t - 1)\<rfloor> * 1000000))"
proof -
  have k: "unat (t - 1) = unat t - 1" using t by (simp add: unat_minus_one)
  have "unat t < unat (5 :: byte)" using t(2) by (simp only: word_less_nat_alt)
  then have k3: "unat t - 1 \<le> 3" by simp
  let ?r = "of_int (uint rtt) * (5 / 4 :: rat) ^ (unat t - 1)"
  have b: "0 \<le> uint rtt" "uint rtt < 4294967296" using uint_lt2p [of rtt] by simp_all
  have p: "(5 / 4 :: rat) ^ (unat t - 1) \<le> (5 / 4) ^ 3" using k3 by (intro power_increasing) simp_all
  have "(0 :: rat) \<le> of_int (uint rtt)" "(of_int (uint rtt) :: rat) < of_int 4294967296"
    using b by (simp_all only: of_int_0_le_iff of_int_less_iff)
  then have r: "0 \<le> ?r" "?r < of_int 8589934592"
    using mult_mono [of "of_int (uint rtt) :: rat" 4294967296, OF _ p] by (simp_all add: power3_eq_cube)
  then have "float_to_int64 ?r = \<lfloor>?r\<rfloor>" by (intro floor_to_int64) simp_all
  moreover have "0 \<le> \<lfloor>?r\<rfloor>" "\<lfloor>?r\<rfloor> < 8589934592" using r by (simp_all add: floor_less_iff)
  then have "wrap64 (\<lfloor>?r\<rfloor> * 1000000) = \<lfloor>?r\<rfloor> * 1000000" by (intro wrap64_id) linarith+
  ultimately show ?thesis
    using t(1) k by (simp add: requiredInterval_def NewNACKQueue_def NackQueueParamsDefault_def Let_def word_less_nat_alt)
qed

lemma Pairs_in_order:
  assumes "nacks q = n0 # ns" "\<forall>n \<in> set ns. 17 \<le> seqNum n - seqNum n0 + 17"
  shows "\<exists>ps. Pairs q now since = ((ps, length (sent_sns (q_nackParams q) now since (q_rtt q) 0 (nacks q))),
      fold (\<lambda>sn q. Remove q sn) (purged_sns (q_nackParams q) now since (q_rtt q) 0 (nacks q))
        (q\<lparr>nacks := stepped (q_nackParams q) now since (q_rtt q) 0 (nacks q)\<rparr>)) \<and>
    requested ps = set (sent_sns (q_nackParams q) now since (q_rtt q) 0 (nacks q))"
proof -
  let ?S = "sent_sns (q_nackParams q) now since (q_rtt q) 0 (nacks q)"
  have "set ?S \<subseteq> seqNum ` set (nacks q)"
    unfolding sent_sns_def by (auto dest: set_zip_rightD)
  moreover have "17 \<le> n - seqNum n0 + 17" if "n \<in> seqNum ` set (nacks q)" for n
    using that assms by auto
  ultimately have far: "17 \<le> n - seqNum n0 + 17" if "n \<in> set ?S" for n using that by blast
  have "\<not> n - (seqNum n0 - 17) \<le> 16" if "n \<in> set ?S" for n
  proof
    assume "n - (seqNum n0 - 17) \<le> 16"
    moreover have "n - (seqNum n0 - 17) = n - seqNum n0 + 17" by simp
    ultimately have "n - seqNum n0 + 17 \<le> 16" by simp
    with far [OF that] have "(17 :: u16) \<le> 16" by (rule order_trans)
    then show False by simp
  qed
  then have "dropWhile (\<lambda>sn. sn - (seqNum n0 - 17) \<le> 16) ?S = ?S"
    by (cases ?S) auto
  then show ?thesis using Pairs_eq [OF assms(1), of now since] by (simp only:)
qed

section \<open>Properties\<close>

text \<open>
  C10. \<open>Pairs\<close> exactly: the RTCP pairs request precisely the numbers due, except that numbers due before
  the first pair is open and within 17 below the first entry are dropped; the count is the number of
  entries sent, dropped ones included.
\<close>

theorem pairs_request:
  assumes "nacks q = n0 # ns"
  shows "\<exists>ps q'. Pairs q now since = ((ps, length (sent_sns (q_nackParams q) now since (q_rtt q) 0 (nacks q))), q') \<and>
    requested ps = set (dropWhile (\<lambda>sn. sn - (seqNum n0 - 17) \<le> 16)
      (sent_sns (q_nackParams q) now since (q_rtt q) 0 (nacks q)))"
  using Pairs_eq [OF assms, of now since] by blast

text \<open>
  When no entry lies in the 17 numbers below the first, as for losses pushed in order, the pairs
  request exactly the numbers due.
\<close>

theorem pairs_request_in_order:
  assumes "nacks q = n0 # ns" "\<forall>n \<in> set ns. 17 \<le> seqNum n - seqNum n0 + 17"
  shows "\<exists>ps q'. Pairs q now since = ((ps, length (sent_sns (q_nackParams q) now since (q_rtt q) 0 (nacks q))), q') \<and>
    requested ps = set (sent_sns (q_nackParams q) now since (q_rtt q) 0 (nacks q))"
  using Pairs_in_order [OF assms, of now since] by blast

text \<open>
  With distinct numbers in the queue, \<open>Pairs\<close> drops exactly the entries that ran out of tries or
  lifetime and keeps every other one, updated, in order.
\<close>

theorem pairs_keep:
  assumes "distinct (map seqNum (nacks q))"
  shows "nacks (snd (Pairs q now since)) =
    filter (\<lambda>n. seqNum n \<notin> set (purged_sns (q_nackParams q) now since (q_rtt q) 0 (nacks q)))
      (stepped (q_nackParams q) now since (q_rtt q) 0 (nacks q))"
proof (cases "nacks q")
  case Nil
  then show ?thesis by (simp add: Pairs_def)
next
  case (Cons n0 ns)
  let ?q = "q\<lparr>nacks := stepped (q_nackParams q) now since (q_rtt q) 0 (nacks q)\<rparr>"
  have "distinct (map seqNum (nacks ?q))" using assms by simp
  from fold_remove_distinct [OF this] Pairs_eq [OF Cons, of now since] show ?thesis by auto
qed

text \<open>
  C11. \<open>PushRange\<close> pushes only the newest numbers that fit, and that is no restriction: the queue is the
  one that pushing every number of the range would leave, its newest \<open>MaxNacks\<close> numbers.
\<close>

theorem push_range:
  assumes "q_ok q" "0 < q_cap q"
  shows "\<exists>q'. PushRange q clock e count = Some q' \<and> q_ok q' \<and>
    map seqNum (nacks q') = last_n (q_cap q) (map seqNum (nacks q) @ map (\<lambda>i. e - of_nat (unat count - i)) [0..<unat count])"
  using PushRange_spec [OF assms, of clock e count] unfolding q_sns_def before_def by blast

text \<open>
  Every queue a client can build holds at most \<open>MaxNacks\<close> entries, each tried at most \<open>MaxTries\<close> times;
  pushing fails only with no capacity at all.
\<close>

theorem nack_queue_bounds:
  assumes "nq_reachable params q"
  shows "length (nacks q) \<le> MaxNacks params \<and> (\<forall>n \<in> set (nacks q). tries n \<le> MaxTries params)
    \<and> (Push q now sn = None \<longleftrightarrow> MaxNacks params = 0)"
proof -
  have inv: "q_ok q" "q_cap q = MaxNacks params" "q_nackParams q = q_nackParams (NewNACKQueue params)"
    using nq_reachable_inv [OF assms] by (auto simp: nq_inv_def)
  have "Push q now sn = None \<longleftrightarrow> MaxNacks params = 0"
  proof (cases "MaxNacks params = 0")
    case True
    then have "nacks q = []" using inv by (simp add: q_ok_def)
    then show ?thesis using True inv by (simp add: Push_def go_from_def)
  next
    case False
    then show ?thesis using Push_spec [OF inv(1), of now sn] inv(2) by auto
  qed
  then show ?thesis using inv by (auto simp: q_ok_def NewNACKQueue_def)
qed

text \<open>
  The schedule of an entry: however often and whenever it is asked for, it is sent at most
  \<open>maxTries\<close> times, first at least \<open>minInterval\<close> after it was pushed and then at least \<open>minInterval\<close> apart.
\<close>

theorem nack_schedule:
  assumes "0 \<le> minInterval p"
  shows "length (schedule p (newNack t0 sn) cs) \<le> unat (maxTries p) \<and> spaced (minInterval p) t0 (schedule p (newNack t0 sn) cs)"
  using schedule_bounds [OF assms, of "newNack t0 sn" cs] by (simp add: newNack_def)

text \<open>
  With the default parameters the interval before the next try is the round-trip time scaled by
  \<open>1.25\<close> per earlier retry, in whole milliseconds, clamped between 20 and 400 milliseconds.
\<close>

theorem default_backoff:
  fixes rtt :: u32
  assumes "0 < t" "t < 5"
  shows "requiredInterval (q_nackParams (NewNACKQueue NackQueueParamsDefault)) t rtt =
    max (MinInterval NackQueueParamsDefault) (min (MaxInterval NackQueueParamsDefault)
      (\<lfloor>of_int (uint rtt) * BackoffFactor NackQueueParamsDefault ^ (unat t - 1)\<rfloor> * 1000000))"
  using requiredInterval_default [OF assms, of rtt] by (simp add: NackQueueParamsDefault_def)

text \<open>
  The smoothed round-trip time is a weighted mean, rounded down: it lies between the old value and
  the new sample, never overflows, and a zero sample resets it to the default.
\<close>

theorem smoothed_rtt:
  "(rtt \<noteq> 0 \<and> q_rtt q \<noteq> 0 \<longrightarrow> uint (q_rtt (SetRTT q rtt)) = (3 * uint rtt + uint (q_rtt q)) div 4 \<and>
      min rtt (q_rtt q) \<le> q_rtt (SetRTT q rtt) \<and> q_rtt (SetRTT q rtt) \<le> max rtt (q_rtt q)) \<and>
   (rtt \<noteq> 0 \<and> q_rtt q = 0 \<longrightarrow> q_rtt (SetRTT q rtt) = rtt) \<and>
   (rtt = 0 \<longrightarrow> q_rtt (SetRTT q rtt) = DefaultRtt (q_params q))"
proof (intro conjI impI)
  assume a: "rtt \<noteq> 0 \<and> q_rtt q \<noteq> 0"
  then show s: "uint (q_rtt (SetRTT q rtt)) = (3 * uint rtt + uint (q_rtt q)) div 4" by (intro SetRTT_smooth) auto
  show "min rtt (q_rtt q) \<le> q_rtt (SetRTT q rtt)" "q_rtt (SetRTT q rtt) \<le> max rtt (q_rtt q)"
    unfolding word_le_def min_def max_def s by (auto simp: s)
qed (auto simp: SetRTT_def)

text \<open>
  The dropped case of \<open>pairs_request\<close> on a queue: the first entry is not due yet, the second lies just below
  it and is due; it is counted and its try is spent, but no pair requests it.
\<close>

lemma pairs_drop_below_first:
  "let q = (NewNACKQueue NackQueueParamsDefault)\<lparr>nacks := [newNack 90000000 100, newNack 0 95]\<rparr>;
       (r, q') = Pairs q 100000000 (\<lambda>_. 100000000)
   in r = ([], 1) \<and> map tries (nacks q') = [0, 1]"
  by code_simp

section \<open>Witnesses\<close>

definition sample_queue :: nackQueue where
  "sample_queue = (NewNACKQueue NackQueueParamsDefault)\<lparr>nacks := [newNack 0 65533, newNack 0 2, newNack 90000000 4, newNack 0 30]\<rparr>"

lemma sample_queue_ok: "q_ok sample_queue" "q_cap sample_queue = 100"
  by (simp_all add: q_ok_def sample_queue_def newNack_def NewNACKQueue_def NackQueueParamsDefault_def)

theorem pairs_request_witness:
  "\<exists>ps q'. Pairs sample_queue 100000000 (\<lambda>_. 100000000) = ((ps, length (sent_sns (q_nackParams sample_queue) 100000000 (\<lambda>_. 100000000) (q_rtt sample_queue) 0 (nacks sample_queue))), q') \<and>
    requested ps = set (dropWhile (\<lambda>sn. sn - (65533 - 17) \<le> 16)
      (sent_sns (q_nackParams sample_queue) 100000000 (\<lambda>_. 100000000) (q_rtt sample_queue) 0 (nacks sample_queue)))"
  using pairs_request [of sample_queue "newNack 0 65533" "[newNack 0 2, newNack 90000000 4, newNack 0 30]"
      100000000 "\<lambda>_. 100000000"] by (simp add: sample_queue_def newNack_def)

theorem pairs_request_in_order_witness:
  "\<exists>ps q'. Pairs sample_queue 100000000 (\<lambda>_. 100000000) = ((ps, length (sent_sns (q_nackParams sample_queue) 100000000 (\<lambda>_. 100000000) (q_rtt sample_queue) 0 (nacks sample_queue))), q') \<and>
    requested ps = set (sent_sns (q_nackParams sample_queue) 100000000 (\<lambda>_. 100000000) (q_rtt sample_queue) 0 (nacks sample_queue))"
  by (rule pairs_request_in_order [of sample_queue "newNack 0 65533" "[newNack 0 2, newNack 90000000 4, newNack 0 30]"])
    (simp_all add: sample_queue_def newNack_def)

theorem pairs_keep_witness:
  "nacks (snd (Pairs sample_queue 200000000000 (\<lambda>_. 0))) =
    filter (\<lambda>n. seqNum n \<notin> set (purged_sns (q_nackParams sample_queue) 200000000000 (\<lambda>_. 0) (q_rtt sample_queue) 0 (nacks sample_queue)))
      (stepped (q_nackParams sample_queue) 200000000000 (\<lambda>_. 0) (q_rtt sample_queue) 0 (nacks sample_queue))"
  by (rule pairs_keep) (simp add: sample_queue_def newNack_def)

theorem push_range_witness:
  "\<exists>q'. PushRange sample_queue (\<lambda>_. 5) 3 200 = Some q' \<and> q_ok q' \<and>
    map seqNum (nacks q') = last_n (q_cap sample_queue) (map seqNum (nacks sample_queue) @ map (\<lambda>i. 3 - of_nat (unat (200 :: u64) - i)) [0..<unat (200 :: u64)])"
  by (rule push_range) (simp_all add: sample_queue_ok)

theorem nack_queue_bounds_witness:
  "let q = SetRTT (NewNACKQueue NackQueueParamsDefault) 40 in
    length (nacks q) \<le> MaxNacks NackQueueParamsDefault \<and> (\<forall>n \<in> set (nacks q). tries n \<le> MaxTries NackQueueParamsDefault)
    \<and> (Push q 3 7 = None \<longleftrightarrow> MaxNacks NackQueueParamsDefault = 0)"
  unfolding Let_def by (rule nack_queue_bounds) (intro nq_reachable.intros)

theorem nack_schedule_witness:
  "length (schedule (q_nackParams sample_queue) (newNack 0 7) [(30000000, 30000000, 70), (40000000, 40000000, 70)]) \<le> unat (5 :: byte)
   \<and> spaced 20000000 0 (schedule (q_nackParams sample_queue) (newNack 0 7) [(30000000, 30000000, 70), (40000000, 40000000, 70)])"
  using nack_schedule [of "q_nackParams sample_queue" 0 7 "[(30000000, 30000000, 70), (40000000, 40000000, 70)]"]
  by (simp add: sample_queue_def NewNACKQueue_def NackQueueParamsDefault_def del: schedule.simps)

theorem default_backoff_witness:
  "requiredInterval (q_nackParams (NewNACKQueue NackQueueParamsDefault)) 2 100 = 125000000"
  by (subst default_backoff) (simp_all add: NackQueueParamsDefault_def)

theorem smoothed_rtt_witness: "q_rtt (SetRTT (NewNACKQueue NackQueueParamsDefault) 0) = 70"
  using smoothed_rtt [of 0 "NewNACKQueue NackQueueParamsDefault"] by (simp add: NewNACKQueue_def NackQueueParamsDefault_def)

end
