(* ===== verification/Bucket.thy ===== *)
theory Bucket
  imports Go_Prelude
begin

text \<open>
  The RTP packet ring buffer, \<^verbatim>\<open>pkg/bucket/bucket.go\<close>. \<open>'e\<close> is the length of the sequence-number type
  \<open>ET\<close> the client uses, \<open>'t\<close> that of the type \<open>T\<close> written in the packet. The slots are the code's slices of
  one backing array, here a list of byte lists of one length; the size and sequence-number accessors
  are function fields of the record, as in the Go struct. The packet a method returns aliases a slot:
  it is modelled as the slot's index and the packet's length.
\<close>

section \<open>Errors, accessors, state\<close>

datatype bucket_error =
    ErrNoBucket | ErrBufferTooSmall | ErrPacketTooOld | ErrPacketTooNew | ErrRTXPacket
  | ErrRTXPacketSize | ErrPacketMismatch | ErrPacketSizeInvalid | ErrPacketTooLarge

definition pktSizeLimit :: nat where "pktSizeLimit = 256 * 1024"

definition put8 :: "byte list \<Rightarrow> u64 \<Rightarrow> byte list option" where
  "put8 buf value = (if buf = [] then None else Some (buf[0 := ucast value]))"

definition get8 :: "byte list \<Rightarrow> u64 option" where
  "get8 buf = map_option ucast (go_at buf 0)"

definition put16 :: "byte list \<Rightarrow> u64 \<Rightarrow> byte list option" where "put16 = put_be 2"
definition get16 :: "byte list \<Rightarrow> u64 option" where "get16 = get_be 2"
definition put32 :: "byte list \<Rightarrow> u64 \<Rightarrow> byte list option" where "put32 = put_be 4"
definition get32 :: "byte list \<Rightarrow> u64 option" where "get32 = get_be 4"
definition put64 :: "byte list \<Rightarrow> u64 \<Rightarrow> byte list option" where "put64 = put_be 8"
definition get64 :: "byte list \<Rightarrow> u64 option" where "get64 = get_be 8"

record (overloaded) ('e, 't) bucket =
  bk_T :: "'t itself"
  maxPktSize :: nat
  seqNumOffset :: nat
  pktSizeHeader :: nat
  invalidPktSize :: u64
  putSize :: "byte list \<Rightarrow> u64 \<Rightarrow> byte list option"
  getSize :: "byte list \<Rightarrow> u64 option"
  putSeqNum :: "byte list \<Rightarrow> u64 \<Rightarrow> byte list option"
  getSeqNum :: "byte list \<Rightarrow> u64 option"
  halfRange :: "'e word"
  slots :: "byte list list"
  bk_init :: bool
  resyncOnNextPacket :: bool
  bk_step :: int
  headSN :: "'e word"
  initCapacity :: nat
  maxSteps :: nat

section \<open>Creation\<close>

fun createSlots_loop :: "(byte list \<Rightarrow> u64 \<Rightarrow> byte list option) \<Rightarrow> u64 \<Rightarrow> nat \<Rightarrow> nat \<Rightarrow> byte list list option" where
  "createSlots_loop put invalid pktSize 0 = Some []"
| "createSlots_loop put invalid pktSize (Suc n) = do {
     slot \<leftarrow> put (replicate pktSize 0) invalid;
     rest \<leftarrow> createSlots_loop put invalid pktSize n;
     Some (slot # rest) }"

definition createSlots :: "('e::len, 't::len) bucket \<Rightarrow> byte list list option" where
  "createSlots b = createSlots_loop (putSize b) (invalidPktSize b) (maxPktSize b + pktSizeHeader b) (initCapacity b)"

text \<open>\<open>Some None\<close> is the \<open>nil\<close> bucket.\<close>

definition NewBucket :: "nat \<Rightarrow> nat \<Rightarrow> nat \<Rightarrow> ('e::len, 't::len) bucket option option" where
  "NewBucket capacity maxPkt offset =
    (if maxPkt > pktSizeLimit then Some None
     else
       let (hdr, invalid, puts, gets) =
             (if maxPkt < 256 then (1, 0xff, put8, get8)
              else if maxPkt < 65536 then (2, 0xffff, put16, get16)
              else (4, 0xffffffff, put32, get32));
           (putn, getn) =
             (if LENGTH('t) div 8 = 1 then (put8, get8)
              else if LENGTH('t) div 8 = 2 then (put16, get16)
              else if LENGTH('t) div 8 = 4 then (put32, get32)
              else (put64, get64));
           b = \<lparr>bk_T = TYPE('t), maxPktSize = maxPkt, seqNumOffset = offset, pktSizeHeader = hdr,
                invalidPktSize = invalid, putSize = puts, getSize = gets, putSeqNum = putn, getSeqNum = getn,
                halfRange = push_bit (LENGTH('e) - 1) 1, slots = [], bk_init = False,
                resyncOnNextPacket = False, bk_step = 0, headSN = 0, initCapacity = capacity,
                maxSteps = capacity\<rparr>
       in do {
         ss \<leftarrow> createSlots b;
         Some (Some (b\<lparr>slots := ss\<rparr>)) })"

section \<open>Slots\<close>

text \<open>The two loops of \<open>wrap\<close>; with no slots they would not end, which is \<open>None\<close>.\<close>

partial_function (option) wrap_up :: "int \<Rightarrow> int \<Rightarrow> int option" where
  "wrap_up m slot = (if slot < 0 then wrap_up m (slot + m) else Some slot)"

partial_function (option) wrap_down :: "int \<Rightarrow> int \<Rightarrow> int option" where
  "wrap_down m slot = (if slot \<ge> m then wrap_down m (slot - m) else Some slot)"

declare wrap_up.simps [code] wrap_down.simps [code]

definition wrap :: "('e::len, 't::len) bucket \<Rightarrow> int \<Rightarrow> nat option" where
  "wrap b slot = do {
     slot \<leftarrow> wrap_up (int (maxSteps b)) slot;
     slot \<leftarrow> wrap_down (int (maxSteps b)) slot;
     Some (nat slot) }"

fun invalidate_loop :: "('e::len, 't::len) bucket \<Rightarrow> int \<Rightarrow> nat \<Rightarrow> nat \<Rightarrow> ('e, 't) bucket option" where
  "invalidate_loop b startSlot i 0 = Some b"
| "invalidate_loop b startSlot i (Suc n) = do {
     idx \<leftarrow> wrap b (startSlot + int i);
     slot \<leftarrow> go_at (slots b) idx;
     slot \<leftarrow> putSize b slot (invalidPktSize b);
     invalidate_loop (b\<lparr>slots := (slots b)[idx := slot]\<rparr>) startSlot (Suc i) n }"

definition invalidate :: "('e::len, 't::len) bucket \<Rightarrow> int \<Rightarrow> int \<Rightarrow> ('e, 't) bucket option" where
  "invalidate b startSlot numSlots =
    (let numSlots = (if numSlots > int (maxSteps b) then int (maxSteps b) else numSlots)
     in invalidate_loop b startSlot 0 (nat numSlots))"

definition store :: "('e::len, 't::len) bucket \<Rightarrow> nat \<Rightarrow> byte list \<Rightarrow> (('e, 't) bucket \<times> (nat \<times> nat)) option" where
  "store b idx pkt = do {
     slot \<leftarrow> go_at (slots b) idx;
     slot \<leftarrow> putSize b slot (of_nat (length pkt));
     tail \<leftarrow> go_from slot (pktSizeHeader b);
     let slot = take (pktSizeHeader b) slot @ go_copy tail pkt;
     _ \<leftarrow> go_slice slot (pktSizeHeader b) (pktSizeHeader b + length pkt);
     Some (b\<lparr>slots := (slots b)[idx := slot]\<rparr>, (idx, length pkt)) }"

section \<open>Adding packets\<close>

type_synonym ('e, 't) add_result = "(('e, 't) bucket \<times> (bucket_error + nat \<times> nat)) option"

definition push :: "('e::len, 't::len) bucket \<Rightarrow> 'e word \<Rightarrow> int \<Rightarrow> byte list \<Rightarrow> ('e, 't) add_result" where
  "push b sn diff pkt = do {
     b \<leftarrow> invalidate (b\<lparr>headSN := sn\<rparr>) (bk_step b) diff;
     idx \<leftarrow> wrap b (wrap64 (bk_step b + diff));
     (b, stored) \<leftarrow> store b idx pkt;
     next \<leftarrow> wrap b (wrap64 (wrap64 (bk_step b + diff) + 1));
     Some (b\<lparr>bk_step := int next\<rparr>, Inr stored) }"

definition set_packet :: "('e::len, 't::len) bucket \<Rightarrow> 'e word \<Rightarrow> int \<Rightarrow> byte list \<Rightarrow> ('e, 't) add_result" where
  "set_packet b sn diff pkt =
    (if diff \<ge> int (maxSteps b) then Some (b, Inl ErrPacketTooOld)
     else do {
       idx \<leftarrow> wrap b (bk_step b - diff - 1);
       slot \<leftarrow> go_at (slots b) idx;
       size \<leftarrow> getSize b slot;
       if size \<noteq> invalidPktSize b then
         if go_int size \<noteq> int (length pkt) then Some (b, Inl ErrRTXPacketSize)
         else do {
           field \<leftarrow> go_from slot (pktSizeHeader b + seqNumOffset b);
           storedSN \<leftarrow> getSeqNum b field;
           if (ucast storedSN :: 't word) = ucast sn then Some (b, Inl ErrRTXPacket)
           else Some (b, Inl ErrPacketMismatch) }
       else do {
         (b, stored) \<leftarrow> store b idx pkt;
         Some (b, Inr stored) } })"

definition addPacket :: "('e::len, 't::len) bucket \<Rightarrow> byte list \<Rightarrow> 'e word \<Rightarrow> ('e, 't) add_result" where
  "addPacket b pkt sn =
    (if int (length pkt) > int (maxPktSize b) - int (pktSizeHeader b) then Some (b, Inl ErrPacketTooLarge)
     else
       let b = (if \<not> bk_init b then b\<lparr>headSN := sn - 1, bk_init := True\<rparr> else b)
       in do {
         b \<leftarrow> (if resyncOnNextPacket b
               then invalidate (b\<lparr>resyncOnNextPacket := False, headSN := sn - 1\<rparr>) 0 (int (maxSteps b))
               else Some b);
         let diff = sn - headSN b;
         if diff = 0 \<or> diff > halfRange b then set_packet b sn (go_int (headSN b - sn)) pkt
         else push b sn (wrap64 (go_int diff - 1)) pkt })"

definition AddPacket :: "('e::len, 't::len) bucket \<Rightarrow> byte list \<Rightarrow> ('e, 't) add_result" where
  "AddPacket b pkt = do {
     field \<leftarrow> go_from pkt (seqNumOffset b);
     sn \<leftarrow> getSeqNum b field;
     addPacket b pkt (ucast sn) }"

definition AddPacketWithSequenceNumber ::
  "('e::len, 't::len) bucket \<Rightarrow> byte list \<Rightarrow> 'e word \<Rightarrow> ('e, 't) add_result" where
  "AddPacketWithSequenceNumber b pkt sn = do {
     (b, res) \<leftarrow> addPacket b pkt sn;
     case res of
       Inl err \<Rightarrow> Some (b, Inl err)
     | Inr (idx, len) \<Rightarrow> do {
         slot \<leftarrow> go_at (slots b) idx;
         storedPkt \<leftarrow> go_slice slot (pktSizeHeader b) (pktSizeHeader b + len);
         field \<leftarrow> go_from storedPkt (seqNumOffset b);
         field \<leftarrow> putSeqNum b field (ucast sn);
         let storedPkt = take (seqNumOffset b) storedPkt @ field;
         let slot = take (pktSizeHeader b) slot @ storedPkt @ drop (pktSizeHeader b + len) slot;
         Some (b\<lparr>slots := (slots b)[idx := slot]\<rparr>, Inr (idx, len)) } }"

section \<open>Reading packets\<close>

definition get :: "('e::len, 't::len) bucket \<Rightarrow> 'e word \<Rightarrow> int \<Rightarrow> (bucket_error + byte list) option" where
  "get b sn diff =
    (if diff < 0 then Some (Inl ErrPacketTooNew)
     else if diff \<ge> int (maxSteps b) then Some (Inl ErrPacketTooOld)
     else do {
       idx \<leftarrow> wrap b (bk_step b - diff - 1);
       slot \<leftarrow> go_at (slots b) idx;
       sz \<leftarrow> getSize b slot;
       if sz = invalidPktSize b then Some (Inl ErrPacketSizeInvalid)
       else do {
         field \<leftarrow> go_from slot (pktSizeHeader b + seqNumOffset b);
         cacheSN \<leftarrow> getSeqNum b field;
         if (ucast cacheSN :: 't word) \<noteq> ucast sn then Some (Inl ErrPacketMismatch)
         else do {
           p \<leftarrow> go_slice slot (pktSizeHeader b) (pktSizeHeader b + nat (go_int sz));
           Some (Inr p) } } })"

text \<open>
  The caller's buffer is its backing array (whose length is the capacity) and its length; the result
  is the number of bytes and the array after the copy. \<open>None\<close> for the bucket is the nil receiver.
\<close>

definition GetPacket ::
  "('e::len, 't::len) bucket option \<Rightarrow> byte list \<Rightarrow> nat \<Rightarrow> 'e word \<Rightarrow> ((bucket_error + nat) \<times> byte list) option" where
  "GetPacket bo buf len sn =
    (case bo of
       None \<Rightarrow> Some (Inl ErrNoBucket, buf)
     | Some b \<Rightarrow>
         let diff = headSN b - sn in do {
           res \<leftarrow> (if diff > halfRange b then get b sn (- go_int (sn - headSN b)) else get b sn (go_int diff));
           case res of
             Inl err \<Rightarrow> Some (Inl err, buf)
           | Inr p \<Rightarrow>
               let n = length p in
               if length buf < n then Some (Inl ErrBufferTooSmall, buf)
               else
                 let len = (if len < n then n else len)
                 in Some (Inr n, go_copy (take len buf) p @ drop len buf) })"

definition ResyncOnNextPacket :: "('e::len, 't::len) bucket \<Rightarrow> ('e, 't) bucket" where
  "ResyncOnNextPacket b = b\<lparr>resyncOnNextPacket := True\<rparr>"

definition HeadSequenceNumber :: "('e::len, 't::len) bucket \<Rightarrow> 'e word" where
  "HeadSequenceNumber b = headSN b"

definition Capacity :: "('e::len, 't::len) bucket \<Rightarrow> nat" where
  "Capacity b = maxSteps b"

section \<open>Growing\<close>

text \<open>
  The loop of \<open>Grow\<close> runs \<open>i\<close> from the last old slot down to \<open>step\<close>; \<open>n\<close> counts the iterations left. The
  size is read from the old slice and the swap is made in the grown one. (When \<open>append\<close> grows in
  place both share an array; a slot is swapped before any lower one is read, so the reads agree.)
\<close>

fun grow_loop :: "('e::len, 't::len) bucket \<Rightarrow> nat \<Rightarrow> byte list list \<Rightarrow> byte list list option" where
  "grow_loop b 0 gs = Some gs"
| "grow_loop b (Suc n) gs =
    (let i = nat (bk_step b) + n in do {
       slot \<leftarrow> go_at (slots b) i;
       sz \<leftarrow> getSize b slot;
       gs \<leftarrow> (if sz \<noteq> invalidPktSize b then do {
                hi \<leftarrow> go_at gs (i + initCapacity b);
                lo \<leftarrow> go_at gs i;
                Some (gs[i + initCapacity b := lo, i := hi]) }
              else Some gs);
       grow_loop b n gs })"

definition Grow :: "('e::len, 't::len) bucket \<Rightarrow> (('e, 't) bucket \<times> nat) option" where
  "Grow b = do {
     newSlots \<leftarrow> createSlots b;
     gs \<leftarrow> grow_loop b (maxSteps b - nat (bk_step b)) (slots b @ newSlots);
     let b = b\<lparr>slots := gs, maxSteps := maxSteps b + initCapacity b\<rparr>;
     Some (b, maxSteps b) }"

section \<open>The accessor interface\<close>

text \<open>
  What the bucket relies on of a pair of accessors for an unsigned field of \<open>width\<close> bytes at the front
  of a slice: writing touches the field only, reading depends on the field only, reading back gives
  the value truncated to the field, and both panic on a slice that is too short.
\<close>

locale uint_codec =
  fixes width :: nat
    and put :: "byte list \<Rightarrow> u64 \<Rightarrow> byte list option"
    and get :: "byte list \<Rightarrow> u64 option"
  assumes put_field: "width \<le> length buf \<Longrightarrow> \<exists>f. length f = width \<and> put buf v = Some (f @ drop width buf)"
    and get_put: "put buf v = Some buf' \<Longrightarrow> get buf' = Some (take_bit (8 * width) v)"
    and get_field: "length f = width \<Longrightarrow> get (f @ rest) = get f"
    and get_defined: "width \<le> length buf \<Longrightarrow> \<exists>v. get buf = Some v"
    and get_bounded: "get buf = Some v \<Longrightarrow> take_bit (8 * width) v = v"
    and put_short: "length buf < width \<Longrightarrow> put buf v = None"
    and get_short: "length buf < width \<Longrightarrow> get buf = None"
begin

lemma get_prefix: "width \<le> length p \<Longrightarrow> get (p @ rest) = get p"
  using get_field [of "take width p" "drop width p @ rest"] get_field [of "take width p" "drop width p"]
  by (simp flip: append_assoc)

lemma put_then_tail:
  assumes "width \<le> length buf"
  shows "\<exists>buf'. put buf v = Some buf' \<and> length buf' = length buf \<and> drop width buf' = drop width buf
    \<and> get buf' = Some (take_bit (8 * width) v) \<and> (\<forall>tail. get (take width buf' @ tail) = get buf')"
proof -
  from put_field [OF assms, of v] obtain f where f: "length f = width" "put buf v = Some (f @ drop width buf)"
    by blast
  then show ?thesis
    using assms get_put [OF f(2)] get_field [OF f(1)] by simp
qed

lemma put_None_iff: "put buf v = None \<longleftrightarrow> length buf < width"
  using put_short put_field [of buf v] by (metis not_le option.distinct(1))

lemma get_None_iff: "get buf = None \<longleftrightarrow> length buf < width"
  using get_short get_defined [of buf] by (metis not_le option.distinct(1))

end

lemma be_val_bounded: "take_bit (8 * length bs) (be_val bs) = be_val bs"
proof (induction bs rule: rev_induct)
  case (snoc x bs)
  have x: "\<not> bit x n" if "8 \<le> n" for n using that bit_imp_le_length [of x n] by auto
  have "take_bit (8 + 8 * length bs) (push_bit 8 (be_val bs) OR ucast x) =
      push_bit 8 (take_bit (8 * length bs) (be_val bs)) OR (ucast x :: u64)"
    by (rule bit_word_eqI) (auto simp: bit_simps x)
  then show ?case by (simp add: be_val_snoc snoc)
qed (simp add: be_val_def)

lemma be_val_take_bounded: "n \<le> length buf \<Longrightarrow> take_bit (8 * n) (be_val (take n buf)) = be_val (take n buf)"
  using be_val_bounded [of "take n buf"] by (simp add: min_absorb2)

lemma put_be_codec: "uint_codec n (put_be n) (get_be n)"
  by unfold_locales (auto simp: put_be_def get_be_def be_val_be_bytes be_val_take_bounded split: if_splits)

interpretation c16: uint_codec 2 put16 get16
  unfolding put16_def get16_def by (rule put_be_codec)

interpretation c32: uint_codec 4 put32 get32
  unfolding put32_def get32_def by (rule put_be_codec)

interpretation c64: uint_codec 8 put64 get64
  unfolding put64_def get64_def by (rule put_be_codec)

lemma put8_be: "put8 = put_be 1"
  by (rule ext)+ (auto simp: put8_def put_be_def neq_Nil_conv Suc_le_eq)

lemma get8_be: "get8 = get_be 1"
proof
  fix buf show "get8 buf = get_be 1 buf"
    by (cases buf) (simp_all add: get8_def get_be_def be_val_def)
qed

interpretation c8: uint_codec 1 put8 get8
  unfolding put8_be get8_be by (rule put_be_codec)

section \<open>The wrap loops\<close>

lemma wrap_up_eq:
  assumes "0 < m"
  shows "wrap_up m slot = Some (if slot < 0 then slot mod m else slot)"
proof (induction "nat (- slot)" arbitrary: slot rule: less_induct)
  case less
  show ?case
  proof (cases "slot < 0")
    case True
    then have "wrap_up m (slot + m) = Some (if slot + m < 0 then (slot + m) mod m else slot + m)"
      using assms by (intro less) simp
    moreover have "slot + m = slot mod m" if "\<not> slot + m < 0"
      using that True mod_pos_pos_trivial [of "slot + m" m] by simp
    ultimately show ?thesis using True by (subst wrap_up.simps) auto
  next
    case False
    then show ?thesis by (subst wrap_up.simps) simp
  qed
qed

lemma wrap_down_eq:
  assumes "0 < m" "0 \<le> slot"
  shows "wrap_down m slot = Some (slot mod m)"
  using assms(2)
proof (induction "nat slot" arbitrary: slot rule: less_induct)
  case less
  show ?case
  proof (cases "slot \<ge> m")
    case True
    then have "wrap_down m (slot - m) = Some ((slot - m) mod m)"
      using assms(1) by (intro less) simp_all
    then show ?thesis using True by (subst wrap_down.simps) simp
  next
    case False
    then show ?thesis using less.prems by (subst wrap_down.simps) simp
  qed
qed

text \<open>With at least one slot \<open>wrap\<close> ends, and is the remainder.\<close>

lemma wrap_eq: "0 < maxSteps b \<Longrightarrow> wrap b slot = Some (nat (slot mod int (maxSteps b)))"
  by (simp add: wrap_def wrap_up_eq wrap_down_eq)

end
