(* ===== verification/Bucket_Ring.thy ===== *)
theory Bucket_Ring
  imports Bucket
begin

text \<open>
  The ring as the client sees it: the packet at each distance behind the head. Every operation of the
  bucket is related to this view; the slot arithmetic stays in this theory.
\<close>

section \<open>Shape of a bucket\<close>

definition seqNumBytes :: "('e::len, 't::len) bucket \<Rightarrow> nat" where
  "seqNumBytes b = LENGTH('t) div 8"

definition slotSize :: "('e::len, 't::len) bucket \<Rightarrow> nat" where
  "slotSize b = maxPktSize b + pktSizeHeader b"

definition bk_params :: "('e::len, 't::len) bucket \<Rightarrow> bool" where
  "bk_params b \<longleftrightarrow>
     uint_codec (pktSizeHeader b) (putSize b) (getSize b) \<and>
     uint_codec (LENGTH('t) div 8) (putSeqNum b) (getSeqNum b) \<and>
     8 dvd LENGTH('t) \<and> LENGTH('t) \<le> LENGTH('e) \<and> LENGTH('e) \<le> 64 \<and>
     pktSizeHeader b \<le> 4 \<and> invalidPktSize b = mask (8 * pktSizeHeader b) \<and>
     maxPktSize b - pktSizeHeader b < 2 ^ (8 * pktSizeHeader b) - 1 \<and>
     seqNumOffset b + LENGTH('t) div 8 \<le> maxPktSize b \<and>
     halfRange b = push_bit (LENGTH('e) - 1) 1 \<and> 0 < initCapacity b"

definition slot_ok :: "('e::len, 't::len) bucket \<Rightarrow> byte list \<Rightarrow> bool" where
  "slot_ok b slot \<longleftrightarrow> length slot = slotSize b \<and>
     (\<forall>sz. getSize b slot = Some sz \<longrightarrow> sz = invalidPktSize b \<or> unat sz \<le> maxPktSize b - pktSizeHeader b)"

definition bk_wf :: "('e::len, 't::len) bucket \<Rightarrow> bool" where
  "bk_wf b \<longleftrightarrow> bk_params b \<and> 0 < maxSteps b \<and> maxSteps b < 2 ^ 62 \<and>
     length (slots b) = maxSteps b \<and> (\<forall>slot \<in> set (slots b). slot_ok b slot) \<and>
     0 \<le> bk_step b \<and> bk_step b < int (maxSteps b)"

definition slot_pkt :: "('e::len, 't::len) bucket \<Rightarrow> byte list \<Rightarrow> byte list option" where
  "slot_pkt b slot = (case getSize b slot of None \<Rightarrow> None
     | Some sz \<Rightarrow> if sz = invalidPktSize b then None
                 else Some (take (unat sz) (drop (pktSizeHeader b) slot)))"

definition slot_at :: "('e::len, 't::len) bucket \<Rightarrow> int \<Rightarrow> nat" where
  "slot_at b x = nat (x mod int (maxSteps b))"

definition at_dist :: "('e::len, 't::len) bucket \<Rightarrow> nat \<Rightarrow> byte list option" where
  "at_dist b d = slot_pkt b (slots b ! slot_at b (bk_step b - 1 - int d))"

text \<open>The fields that say how slots are read; operations that keep them keep the view of a slot.\<close>

definition same_params :: "('e::len, 't::len) bucket \<Rightarrow> ('e, 't) bucket \<Rightarrow> bool" where
  "same_params b b' \<longleftrightarrow> b' = b\<lparr>slots := slots b', bk_init := bk_init b',
     resyncOnNextPacket := resyncOnNextPacket b', bk_step := bk_step b', headSN := headSN b', maxSteps := maxSteps b'\<rparr>"

lemma same_paramsD:
  assumes "same_params b b'"
  shows "bk_params b' = bk_params b" "slot_ok b' = slot_ok b" "slot_pkt b' = slot_pkt b"
    "getSize b' = getSize b" "putSize b' = putSize b" "getSeqNum b' = getSeqNum b" "putSeqNum b' = putSeqNum b"
    "pktSizeHeader b' = pktSizeHeader b" "seqNumOffset b' = seqNumOffset b" "maxPktSize b' = maxPktSize b"
    "initCapacity b' = initCapacity b" "invalidPktSize b' = invalidPktSize b" "halfRange b' = halfRange b"
proof -
  obtain s i r st h m where b': "b' = b\<lparr>slots := s, bk_init := i, resyncOnNextPacket := r, bk_step := st, headSN := h, maxSteps := m\<rparr>"
    using assms unfolding same_params_def by blast
  show "bk_params b' = bk_params b" "slot_ok b' = slot_ok b" "slot_pkt b' = slot_pkt b"
    "getSize b' = getSize b" "putSize b' = putSize b" "getSeqNum b' = getSeqNum b" "putSeqNum b' = putSeqNum b"
    "pktSizeHeader b' = pktSizeHeader b" "seqNumOffset b' = seqNumOffset b" "maxPktSize b' = maxPktSize b"
    "initCapacity b' = initCapacity b" "invalidPktSize b' = invalidPktSize b" "halfRange b' = halfRange b"
    by (auto simp: b' bk_params_def slot_ok_def slotSize_def slot_pkt_def fun_eq_iff split: option.splits)
qed

lemma slot_at_less: "0 < maxSteps b \<Longrightarrow> slot_at b x < maxSteps b"
  unfolding slot_at_def by (simp add: nat_less_iff)

lemma wrap_slot_at: "0 < maxSteps b \<Longrightarrow> wrap b x = Some (slot_at b x)"
  by (simp add: wrap_eq slot_at_def)

lemma slot_at_eq_iff: "0 < maxSteps b \<Longrightarrow> slot_at b x = slot_at b y \<longleftrightarrow> x mod int (maxSteps b) = y mod int (maxSteps b)"
  unfolding slot_at_def by (simp add: eq_nat_nat_iff)

section \<open>Storing and invalidating a slot\<close>

lemma unat_mask_u64: "n \<le> 64 \<Longrightarrow> unat (mask n :: u64) = 2 ^ n - 1"
proof -
  assume "n \<le> 64"
  then have "uint (mask n :: u64) = mask n" by (simp add: uint_mask_eq min_def)
  then show ?thesis by (simp add: unat_eq_nat_uint mask_eq_exp_minus_1 nat_diff_distrib nat_power_eq)
qed

lemma stored_size:
  assumes "bk_params b" "len \<le> maxPktSize b - pktSizeHeader b"
  shows "take_bit (8 * pktSizeHeader b) (of_nat len :: u64) = of_nat len"
    "of_nat len \<noteq> invalidPktSize b" "unat (of_nat len :: u64) = len"
proof -
  have h: "8 * pktSizeHeader b \<le> 32" and lt: "len < 2 ^ (8 * pktSizeHeader b) - 1"
    and inv: "invalidPktSize b = mask (8 * pktSizeHeader b)"
    using assms by (auto simp: bk_params_def)
  have "(2::nat) ^ (8 * pktSizeHeader b) \<le> 2 ^ 32" using h by (rule power_increasing) simp
  with lt have "len < 2 ^ LENGTH(64)" by simp
  then show u: "unat (of_nat len :: u64) = len" by (simp add: unat_of_nat take_bit_nat_eq_self)
  show "of_nat len \<noteq> invalidPktSize b"
    using lt h u unat_mask_u64 [of "8 * pktSizeHeader b"] unfolding inv by auto
  have "unat (take_bit (8 * pktSizeHeader b) (of_nat len :: u64)) = unat (of_nat len :: u64)"
    using lt by (simp add: unsigned_take_bit_eq u take_bit_nat_eq_self)
  then show "take_bit (8 * pktSizeHeader b) (of_nat len :: u64) = of_nat len"
    by (simp add: word_unat_eq_iff)
qed

lemma store_spec:
  assumes p: "bk_params b" and idx: "idx < length (slots b)" "slot_ok b (slots b ! idx)"
    and len: "length pkt \<le> maxPktSize b - pktSizeHeader b"
  shows "\<exists>slot. store b idx pkt = Some (b\<lparr>slots := (slots b)[idx := slot]\<rparr>, (idx, length pkt))
     \<and> slot_ok b slot \<and> slot_pkt b slot = Some pkt"
proof -
  have sz: "uint_codec (pktSizeHeader b) (putSize b) (getSize b)" using p by (simp add: bk_params_def)
  have "pktSizeHeader b \<le> length (slots b ! idx)" using idx(2) by (simp add: slot_ok_def slotSize_def)
  from uint_codec.put_then_tail [OF sz this, of "of_nat (length pkt)"]
  obtain s where s: "putSize b (slots b ! idx) (of_nat (length pkt)) = Some s"
    "length s = slotSize b" "getSize b s = Some (of_nat (length pkt))"
    and tail: "\<And>t. getSize b (take (pktSizeHeader b) s @ t) = Some (of_nat (length pkt))"
    using idx(2) stored_size(1) [OF p len] by (auto simp: slot_ok_def)
  let ?slot = "take (pktSizeHeader b) s @ go_copy (drop (pktSizeHeader b) s) pkt"
  have "length pkt \<le> maxPktSize b" using len by linarith
  then have shape: "length ?slot = slotSize b" "take (length pkt) (drop (pktSizeHeader b) ?slot) = pkt"
    using s(2) by (simp_all add: slotSize_def go_copy_fits)
  have "store b idx pkt = Some (b\<lparr>slots := (slots b)[idx := ?slot]\<rparr>, (idx, length pkt))"
    using idx(1) s shape(1) \<open>length pkt \<le> maxPktSize b\<close> by (simp add: store_def slotSize_def Let_def)
  moreover have "slot_ok b ?slot" "slot_pkt b ?slot = Some pkt"
    using shape stored_size [OF p len] len by (auto simp: slot_ok_def slot_pkt_def tail)
  ultimately show ?thesis by blast
qed

lemma invalid_slot:
  assumes p: "bk_params b" and slot: "slot_ok b slot"
  shows "\<exists>s. putSize b slot (invalidPktSize b) = Some s \<and> slot_ok b s \<and> slot_pkt b s = None"
proof -
  have sz: "uint_codec (pktSizeHeader b) (putSize b) (getSize b)" and i: "invalidPktSize b = mask (8 * pktSizeHeader b)"
    using p by (simp_all add: bk_params_def)
  have "pktSizeHeader b \<le> length slot" using slot by (simp add: slot_ok_def slotSize_def)
  from uint_codec.put_then_tail [OF sz this, of "invalidPktSize b"] show ?thesis
    using slot by (auto simp: slot_ok_def slot_pkt_def i )
qed


lemma wf_update_slot:
  assumes "bk_wf b" "slot_ok b s"
  shows "bk_wf (b\<lparr>slots := (slots b)[j := s]\<rparr>)"
proof -
  have "same_params b (b\<lparr>slots := (slots b)[j := s]\<rparr>)" by (simp add: same_params_def)
  then show ?thesis
    using assms set_update_subset_insert [of "slots b" j s]
    by (auto simp: bk_wf_def same_paramsD)
qed

lemma slot_at_updates [simp]:
  "slot_at (b\<lparr>slots := ss\<rparr>) = slot_at b" "slot_at (b\<lparr>headSN := h\<rparr>) = slot_at b"
  "slot_at (b\<lparr>bk_init := i\<rparr>) = slot_at b" "slot_at (b\<lparr>resyncOnNextPacket := i\<rparr>) = slot_at b"
  "slot_at (b\<lparr>bk_step := s\<rparr>) = slot_at b"
  by (simp_all add: slot_at_def fun_eq_iff)

lemma slot_pkt_updates [simp]:
  "slot_pkt (b\<lparr>slots := ss\<rparr>) = slot_pkt b" "slot_pkt (b\<lparr>headSN := h\<rparr>) = slot_pkt b"
  "slot_pkt (b\<lparr>bk_init := i\<rparr>) = slot_pkt b" "slot_pkt (b\<lparr>resyncOnNextPacket := i\<rparr>) = slot_pkt b"
  "slot_pkt (b\<lparr>bk_step := s\<rparr>) = slot_pkt b" "slot_pkt (b\<lparr>maxSteps := m\<rparr>) = slot_pkt b"
  by (rule same_paramsD; simp add: same_params_def)+

lemma bk_wf_updates [simp]:
  "bk_wf (b\<lparr>headSN := h\<rparr>) = bk_wf b" "bk_wf (b\<lparr>bk_init := i\<rparr>) = bk_wf b"
  "bk_wf (b\<lparr>resyncOnNextPacket := i\<rparr>) = bk_wf b"
proof -
  have sp: "same_params b (b\<lparr>headSN := h\<rparr>)" "same_params b (b\<lparr>bk_init := i\<rparr>)"
    "same_params b (b\<lparr>resyncOnNextPacket := i\<rparr>)" by (simp_all add: same_params_def)
  show "bk_wf (b\<lparr>headSN := h\<rparr>) = bk_wf b" "bk_wf (b\<lparr>bk_init := i\<rparr>) = bk_wf b"
    "bk_wf (b\<lparr>resyncOnNextPacket := i\<rparr>) = bk_wf b"
    by (simp_all add: bk_wf_def sp [THEN same_paramsD(1)] sp [THEN same_paramsD(2)])
qed

lemma bk_wf_step: "bk_wf b \<Longrightarrow> s < maxSteps b \<Longrightarrow> bk_wf (b\<lparr>bk_step := int s\<rparr>)"
proof -
  have sp: "same_params b (b\<lparr>bk_step := int s\<rparr>)" by (simp add: same_params_def)
  show "bk_wf b \<Longrightarrow> s < maxSteps b \<Longrightarrow> bk_wf (b\<lparr>bk_step := int s\<rparr>)"
    by (simp add: bk_wf_def same_paramsD [OF sp])
qed

lemma invalidate_loop_spec:
  assumes "bk_wf b"
  shows "\<exists>ss. invalidate_loop b start i n = Some (b\<lparr>slots := ss\<rparr>) \<and> bk_wf (b\<lparr>slots := ss\<rparr>)
    \<and> (\<forall>j < maxSteps b. slot_pkt b (ss ! j) =
         (if j \<in> (\<lambda>k. slot_at b (start + int k)) ` {i..<i + n} then None else slot_pkt b (slots b ! j)))"
  using assms
proof (induction n arbitrary: b i)
  case 0
  then show ?case by (auto intro: exI [of _ "slots b"])
next
  case (Suc n)
  let ?j = "slot_at b (start + int i)"
  have m: "0 < maxSteps b" and len: "length (slots b) = maxSteps b" and p: "bk_params b"
    using Suc.prems by (simp_all add: bk_wf_def)
  have j: "?j < maxSteps b" using m by (rule slot_at_less)
  then have "slot_ok b (slots b ! ?j)" using Suc.prems by (simp add: bk_wf_def)
  from invalid_slot [OF p this] obtain s where s: "putSize b (slots b ! ?j) (invalidPktSize b) = Some s"
    "slot_ok b s" "slot_pkt b s = None" by blast
  let ?b = "b\<lparr>slots := (slots b)[?j := s]\<rparr>"
  have step: "invalidate_loop b start i (Suc n) = invalidate_loop ?b start (Suc i) n"
    using j len s(1) by (simp add: wrap_slot_at [OF m])
  from Suc.IH [OF wf_update_slot [OF Suc.prems s(2)], of ?j "Suc i"]
  obtain ss where ss: "invalidate_loop ?b start (Suc i) n = Some (b\<lparr>slots := ss\<rparr>)" "bk_wf (b\<lparr>slots := ss\<rparr>)"
    and v: "\<And>j. j < maxSteps b \<Longrightarrow> slot_pkt b (ss ! j) = (if j \<in> (\<lambda>k. slot_at b (start + int k)) ` {Suc i..<Suc i + n}
        then None else slot_pkt b ((slots b)[?j := s] ! j))"
    by auto
  have "{i..<i + Suc n} = insert i {Suc i..<Suc i + n}" by auto
  then show ?case
    using step ss v s(3) len by (intro exI [of _ ss]) (auto simp: nth_list_update)
qed

lemma slot_at_window:
  assumes "0 < maxSteps b" "n \<le> maxSteps b"
  shows "slot_at b x \<in> (\<lambda>k. slot_at b (start + int k)) ` {0..<n} \<longleftrightarrow> (x - start) mod int (maxSteps b) < int n"
proof
  assume "slot_at b x \<in> (\<lambda>k. slot_at b (start + int k)) ` {0..<n}"
  then obtain k where k: "k < n" "x mod int (maxSteps b) = (start + int k) mod int (maxSteps b)"
    using assms(1) by (auto simp: slot_at_eq_iff)
  then have "(x - start) mod int (maxSteps b) = int k mod int (maxSteps b)"
    by (metis add_diff_cancel_left' mod_diff_left_eq)
  also have "\<dots> = int k" using k assms by simp
  finally show "(x - start) mod int (maxSteps b) < int n" using k by simp
next
  assume r: "(x - start) mod int (maxSteps b) < int n"
  let ?k = "nat ((x - start) mod int (maxSteps b))"
  have k: "int ?k = (x - start) mod int (maxSteps b)" using assms(1) by simp
  have kn: "?k < n" using r k by linarith
  have "(start + int ?k) mod int (maxSteps b) = x mod int (maxSteps b)"
    unfolding k by (simp add: mod_add_right_eq)
  then show "slot_at b x \<in> (\<lambda>k. slot_at b (start + int k)) ` {0..<n}"
    using assms(1) kn by (intro image_eqI [of _ _ ?k]) (simp_all add: slot_at_eq_iff)
qed

text \<open>
  Invalidating \<open>n\<close> slots (all of them if there are fewer) from \<open>start\<close>: exactly the positions in that
  window lose their packet.
\<close>

lemma invalidate_spec:
  assumes "bk_wf b"
  shows "\<exists>ss. invalidate b start n = Some (b\<lparr>slots := ss\<rparr>) \<and> bk_wf (b\<lparr>slots := ss\<rparr>)
    \<and> (\<forall>x. slot_pkt b (ss ! slot_at b x) =
         (if (x - start) mod int (maxSteps b) < n then None else slot_pkt b (slots b ! slot_at b x)))"
proof -
  have m: "0 < maxSteps b" using assms by (simp add: bk_wf_def)
  let ?n = "nat (min n (int (maxSteps b)))"
  have le: "?n \<le> maxSteps b" by simp
  from invalidate_loop_spec [OF assms, of start 0 ?n] obtain ss where
    ss: "invalidate_loop b start 0 ?n = Some (b\<lparr>slots := ss\<rparr>)" "bk_wf (b\<lparr>slots := ss\<rparr>)"
    and v: "\<And>j. j < maxSteps b \<Longrightarrow> slot_pkt b (ss ! j) =
      (if j \<in> (\<lambda>k. slot_at b (start + int k)) ` {0..<?n} then None else slot_pkt b (slots b ! j))"
    by auto
  have "invalidate b start n = Some (b\<lparr>slots := ss\<rparr>)"
    using ss(1) by (simp add: invalidate_def Let_def min_def split: if_splits)
  moreover have "(x - start) mod int (maxSteps b) < int ?n \<longleftrightarrow> (x - start) mod int (maxSteps b) < n" for x
    using m pos_mod_bound [of "int (maxSteps b)" "x - start"] pos_mod_sign [of "int (maxSteps b)" "x - start"]
    by linarith
  ultimately show ?thesis
    using ss(2) v [OF slot_at_less [OF m]] slot_at_window [OF m le] by auto
qed


section \<open>The operations on the view\<close>

lemma store_at_dist:
  assumes "bk_wf b" and len: "length pkt \<le> maxPktSize b - pktSizeHeader b"
  shows "\<exists>ss. store b (slot_at b x) pkt = Some (b\<lparr>slots := ss\<rparr>, (slot_at b x, length pkt)) \<and> bk_wf (b\<lparr>slots := ss\<rparr>)
    \<and> (\<forall>y. slot_pkt b (ss ! slot_at b y) =
         (if slot_at b y = slot_at b x then Some pkt else slot_pkt b (slots b ! slot_at b y)))"
proof -
  have m: "0 < maxSteps b" and l: "length (slots b) = maxSteps b" and p: "bk_params b"
    using assms by (simp_all add: bk_wf_def)
  have j: "slot_at b y < maxSteps b" for y using m by (rule slot_at_less)
  have "slot_ok b (slots b ! slot_at b x)" using assms(1) j by (simp add: bk_wf_def)
  from store_spec [OF p _ this len] j [of x] l obtain s where
    s: "store b (slot_at b x) pkt = Some (b\<lparr>slots := (slots b)[slot_at b x := s]\<rparr>, (slot_at b x, length pkt))"
    "slot_ok b s" "slot_pkt b s = Some pkt" by auto
  then show ?thesis
    using wf_update_slot [OF assms(1) s(2)] j l by (intro exI) (auto simp: nth_list_update)
qed

lemma dist_neq_0: "0 < m \<Longrightarrow> d < m \<Longrightarrow> (x - int d) mod int m = x mod int m \<longleftrightarrow> d = 0"
proof
  assume "0 < m" "d < m" "(x - int d) mod int m = x mod int m"
  then have "int m dvd int d" by (metis add_diff_cancel_left' diff_add_cancel mod_eq_dvd_iff dvd_minus_iff minus_diff_eq)
  then show "d = 0" using \<open>d < m\<close> by (metis dvd_imp_le int_dvd_int_iff leD not_gr_zero)
qed simp

text \<open>
  A push of a packet \<open>n + 1\<close> numbers ahead: the packet is at distance 0, the \<open>n\<close> numbers skipped have
  no packet, and every older packet still in the ring is \<open>n + 1\<close> further away.
\<close>

lemma push_spec:
  assumes wf: "bk_wf b" and len: "length pkt \<le> maxPktSize b - pktSizeHeader b" and n: "n < 2 ^ 62"
  shows "\<exists>b' idx. push b sn (int n) pkt = Some (b', Inr (idx, length pkt)) \<and> bk_wf b' \<and> same_params b b'
    \<and> maxSteps b' = maxSteps b \<and> headSN b' = sn \<and> bk_init b' = bk_init b \<and> resyncOnNextPacket b' = resyncOnNextPacket b
    \<and> idx = slot_at b' (bk_step b' - 1)
    \<and> (\<forall>d < maxSteps b. at_dist b' d =
         (if d = 0 then Some pkt else if d \<le> n then None else at_dist b (d - n - 1)))"
proof -
  let ?m = "int (maxSteps b)" and ?b0 = "b\<lparr>headSN := sn\<rparr>"
  have m: "0 < maxSteps b" "maxSteps b < 2 ^ 62" and st: "0 \<le> bk_step b" "bk_step b < ?m"
    using wf by (simp_all add: bk_wf_def)
  have sp0: "same_params b ?b0" by (simp add: same_params_def)
  have wf0: "bk_wf ?b0" using wf by (simp add: bk_wf_def same_paramsD [OF sp0])
  from invalidate_spec [OF wf0, of "bk_step b" "int n"] obtain s1 where
    s1: "invalidate ?b0 (bk_step b) (int n) = Some (?b0\<lparr>slots := s1\<rparr>)" "bk_wf (?b0\<lparr>slots := s1\<rparr>)"
    and v1: "\<And>x. slot_pkt b (s1 ! slot_at b x) =
      (if (x - bk_step b) mod ?m < int n then None else slot_pkt b (slots b ! slot_at b x))"
    by auto
  let ?b1 = "?b0\<lparr>slots := s1\<rparr>"
  let ?x = "bk_step b + int n"
  have w: "wrap64 ?x = ?x" "wrap64 (?x + 1) = ?x + 1"
    using m st n by (simp_all add: wrap64_id)
  from store_at_dist [OF s1(2), of pkt "?x"] len obtain s2 where
    s2: "store ?b1 (slot_at b ?x) pkt = Some (?b1\<lparr>slots := s2\<rparr>, (slot_at b ?x, length pkt))" "bk_wf (?b1\<lparr>slots := s2\<rparr>)"
    and v2: "\<And>y. slot_pkt b (s2 ! slot_at b y) =
      (if slot_at b y = slot_at b ?x then Some pkt else slot_pkt b (s1 ! slot_at b y))"
    by auto
  let ?b' = "?b1\<lparr>slots := s2, bk_step := int (slot_at b (?x + 1))\<rparr>"
  have "wrap ?b1 y = Some (slot_at b y)" "wrap (?b1\<lparr>slots := s2\<rparr>) y = Some (slot_at b y)" for y
    using m(1) by (simp_all add: wrap_eq slot_at_def)
  then have res: "push b sn (int n) pkt = Some (?b', Inr (slot_at b ?x, length pkt))"
    using s1(1) s2(1) w by (simp add: push_def)
  have sp: "same_params b ?b'" by (simp add: same_params_def)
  have wf': "bk_wf ?b'"
    by (rule bk_wf_step [OF s2(2)]) (use slot_at_less [OF m(1)] in simp)
  have step': "slot_at ?b' (bk_step ?b' - 1 - y) = slot_at b (?x - y)" for y
    using m(1) by (simp add: slot_at_def mod_diff_left_eq algebra_simps)
  have "at_dist ?b' d = (if d = 0 then Some pkt else if d \<le> n then None else at_dist b (d - n - 1))"
    if d: "d < maxSteps b" for d
  proof -
    have "at_dist ?b' d = slot_pkt b (s2 ! slot_at b (?x - int d))"
      using step' [of "int d"] by (simp add: at_dist_def same_paramsD [OF sp])
    moreover have "slot_at b (?x - int d) = slot_at b ?x \<longleftrightarrow> d = 0"
      using m(1) d by (simp add: slot_at_eq_iff dist_neq_0)
    moreover have "(?x - int d - bk_step b) mod ?m < int n \<longleftrightarrow> d \<le> n" if "d \<noteq> 0"
    proof (cases "d \<le> n")
      case True
      then have "(int n - int d) mod ?m \<le> int n - int d" by (intro zmod_le_nonneg_dividend) simp
      then show ?thesis using True that by simp
    next
      case False
      then have "(int n - int d) mod ?m = int n - int d + ?m"
        using d mod_pos_pos_trivial [of "int n - int d + ?m" ?m] by simp
      then show ?thesis using False d by simp
    qed
    moreover have "at_dist b (d - n - 1) = slot_pkt b (slots b ! slot_at b (?x - int d))" if "n < d"
      using that by (simp add: at_dist_def of_nat_diff algebra_simps)
    ultimately show ?thesis by (simp add: v2 v1)
  qed
  then show ?thesis
    using res wf' sp step' [of 0] by (intro exI [of _ ?b'] exI [of _ "slot_at b ?x"]) simp
qed


text \<open>Reading the slot at a distance: the packet's bytes and its sequence-number field.\<close>

lemma slot_at_dist:
  assumes wf: "bk_wf b" and d: "d < maxSteps b"
  shows "\<exists>slot. wrap b (bk_step b - int d - 1) = Some (slot_at b (bk_step b - 1 - int d))
    \<and> go_at (slots b) (slot_at b (bk_step b - 1 - int d)) = Some slot \<and> slot_ok b slot \<and> slot_pkt b slot = at_dist b d"
proof -
  have m: "0 < maxSteps b" and l: "length (slots b) = maxSteps b" using wf by (simp_all add: bk_wf_def)
  have j: "slot_at b (bk_step b - 1 - int d) < length (slots b)" using slot_at_less [OF m] l by simp
  then have "slot_ok b (slots b ! slot_at b (bk_step b - 1 - int d))" using wf by (simp add: bk_wf_def)
  moreover have "slot_at b (bk_step b - int d - 1) = slot_at b (bk_step b - 1 - int d)"
    by (simp add: slot_at_def algebra_simps)
  ultimately show ?thesis using j by (simp add: wrap_slot_at [OF m] at_dist_def)
qed

lemma slot_size:
  assumes p: "bk_params b" and ok: "slot_ok b slot"
  shows "\<exists>sz. getSize b slot = Some sz \<and>
    (case slot_pkt b slot of None \<Rightarrow> sz = invalidPktSize b
     | Some q \<Rightarrow> sz \<noteq> invalidPktSize b \<and> go_int sz = int (length q) \<and>
         length q \<le> maxPktSize b - pktSizeHeader b \<and>
         go_slice slot (pktSizeHeader b) (pktSizeHeader b + length q) = Some q \<and>
         drop (pktSizeHeader b) slot = q @ drop (pktSizeHeader b + length q) slot)"
proof -
  have sz: "uint_codec (pktSizeHeader b) (putSize b) (getSize b)" using p by (simp add: bk_params_def)
  obtain v where v: "getSize b slot = Some v"
    using uint_codec.get_defined [OF sz, of slot] ok by (auto simp: slot_ok_def slotSize_def)
  show ?thesis
  proof (cases "v = invalidPktSize b")
    case True
    then show ?thesis using v by (simp add: slot_pkt_def)
  next
    case False
    then have le: "unat v \<le> maxPktSize b - pktSizeHeader b" and len: "length slot = maxPktSize b + pktSizeHeader b"
      using ok v by (auto simp: slot_ok_def slotSize_def)
    define q where "q = take (unat v) (drop (pktSizeHeader b) slot)"
    have lq: "length q = unat v" using le len by (simp add: q_def)
    have "maxPktSize b - pktSizeHeader b < 2 ^ (8 * pktSizeHeader b)" "8 * pktSizeHeader b \<le> 32"
      using p by (auto simp: bk_params_def)
    moreover from this(2) have "(2::nat) ^ (8 * pktSizeHeader b) \<le> 2 ^ 32" by (rule power_increasing) simp
    ultimately have "unat v < 2 ^ 32" using le by linarith
    then have "unat v < 4294967296" by simp
    moreover have "uint v = int (unat v)" by simp
    ultimately have "uint v < 9223372036854775808" by linarith
    then have "go_int v = int (length q)" unfolding lq by (subst go_int_small) simp_all
    moreover have "drop (pktSizeHeader b) slot = q @ drop (pktSizeHeader b + length q) slot"
    proof -
      have "drop (pktSizeHeader b + length q) slot = drop (unat v) (drop (pktSizeHeader b) slot)"
        unfolding lq by (simp add: add.commute)
      moreover have "drop (pktSizeHeader b) slot = q @ drop (unat v) (drop (pktSizeHeader b) slot)"
        unfolding q_def by (rule append_take_drop_id [symmetric])
      ultimately show ?thesis by (simp only:)
    qed
    moreover have "go_slice slot (pktSizeHeader b) (pktSizeHeader b + length q) = Some q"
      using le len unfolding lq by (simp add: go_slice_def q_def)
    moreover have "slot_pkt b slot = Some q" using v False by (simp add: slot_pkt_def q_def)
    moreover have "length q \<le> maxPktSize b - pktSizeHeader b" using le lq by simp
    ultimately show ?thesis using v False by (intro exI [of _ v]) (simp only: option.case simp_thms)
  qed
qed

lemma slot_seqnum:
  assumes p: "bk_params b" and ok: "slot_ok b slot" and q: "slot_pkt b slot = Some q"
    and len: "seqNumOffset b + seqNumBytes b \<le> length q"
  shows "\<exists>field. go_from slot (pktSizeHeader b + seqNumOffset b) = Some field
    \<and> getSeqNum b field = getSeqNum b (drop (seqNumOffset b) q) \<and> getSeqNum b field \<noteq> None"
proof -
  have sn: "uint_codec (seqNumBytes b) (putSeqNum b) (getSeqNum b)"
    using p by (simp add: bk_params_def seqNumBytes_def)
  obtain rest where rest: "drop (pktSizeHeader b) slot = q @ rest"
    using slot_size [OF p ok] q by auto
  have "drop (pktSizeHeader b + seqNumOffset b) slot = drop (seqNumOffset b) (drop (pktSizeHeader b) slot)"
    by (simp add: add.commute)
  then have "drop (pktSizeHeader b + seqNumOffset b) slot = drop (seqNumOffset b) q @ rest"
    unfolding rest using len by simp
  moreover have "pktSizeHeader b + seqNumOffset b \<le> length slot"
  proof -
    have "length slot - pktSizeHeader b \<ge> length q" using rest by (metis length_append length_drop le_add1)
    then show ?thesis using len ok by (auto simp: slot_ok_def slotSize_def)
  qed
  moreover have "seqNumBytes b \<le> length (drop (seqNumOffset b) q)" using len by simp
  ultimately show ?thesis
    using uint_codec.get_prefix [OF sn] uint_codec.get_None_iff [OF sn] by simp
qed


section \<open>Sequence numbers in packets, and the invariant\<close>

text \<open>The number a packet carries in its field, and the packet with a number written in it.\<close>

definition pkt_sn :: "('e::len, 't::len) bucket \<Rightarrow> byte list \<Rightarrow> 't word option" where
  "pkt_sn b q = do { field \<leftarrow> go_from q (seqNumOffset b); sn \<leftarrow> getSeqNum b field; Some (ucast sn) }"

definition stamped :: "('e::len, 't::len) bucket \<Rightarrow> byte list \<Rightarrow> 'e word \<Rightarrow> byte list option" where
  "stamped b q sn = do {
     field \<leftarrow> go_from q (seqNumOffset b); field \<leftarrow> putSeqNum b field (ucast sn);
     Some (take (seqNumOffset b) q @ field) }"

text \<open>
  The coherence invariant: the packet at distance \<open>d\<close> carries the number \<open>headSN - d\<close> (as far as the field
  shows it), and before the first packet there is none.
\<close>

definition bk_inv :: "('e::len, 't::len) bucket \<Rightarrow> bool" where
  "bk_inv b \<longleftrightarrow> bk_wf b \<and>
     (\<forall>d < maxSteps b. \<forall>q. at_dist b d = Some q \<longrightarrow>
        bk_init b \<and> pkt_sn b q = Some (ucast (headSN b - of_nat d)))"

lemma bk_inv_wf: "bk_inv b \<Longrightarrow> bk_wf b"
  by (simp add: bk_inv_def)

lemma bk_inv_params: "bk_inv b \<Longrightarrow> bk_params b"
  by (simp add: bk_inv_def bk_wf_def)

lemma same_params_pkt_sn: "same_params b b' \<Longrightarrow> pkt_sn b' = pkt_sn b"
  by (simp add: pkt_sn_def same_paramsD fun_eq_iff)

lemma same_params_stamped: "same_params b b' \<Longrightarrow> stamped b' = stamped b"
  by (simp add: stamped_def same_paramsD fun_eq_iff)

lemma seqNum_codec: "bk_params b \<Longrightarrow> uint_codec (seqNumBytes b) (putSeqNum b) (getSeqNum b)"
  by (simp add: bk_params_def seqNumBytes_def)

lemma seqNumBytes_pos: "bk_params b \<Longrightarrow> 0 < seqNumBytes (b :: ('e::len, 't::len) bucket)"
  using dvd_imp_le [of 8 "LENGTH('t)"] by (simp add: bk_params_def seqNumBytes_def div_greater_zero_iff)

lemma pkt_sn_length:
  assumes "bk_params b"
  shows "(\<exists>sn. pkt_sn b q = Some sn) \<longleftrightarrow> seqNumOffset b + seqNumBytes b \<le> length q"
proof (cases "seqNumOffset b \<le> length q")
  case True
  then show ?thesis
    using uint_codec.get_None_iff [OF seqNum_codec [OF assms], of "drop (seqNumOffset b) q"]
    by (cases "getSeqNum b (drop (seqNumOffset b) q)") (auto simp: pkt_sn_def)
next
  case False
  then show ?thesis by (simp add: pkt_sn_def go_from_def)
qed

lemma stamped_SomeD:
  assumes p: "bk_params (b :: ('e::len, 't::len) bucket)" and s: "stamped b q sn = Some q'"
  shows "pkt_sn b q' = Some (ucast sn)" "length q' = length q"
    "take (seqNumOffset b) q' = take (seqNumOffset b) q"
    "drop (seqNumOffset b + seqNumBytes b) q' = drop (seqNumOffset b + seqNumBytes b) q"
proof -
  obtain f where o: "seqNumOffset b \<le> length q" and f: "putSeqNum b (drop (seqNumOffset b) q) (ucast sn) = Some f"
    and q': "q' = take (seqNumOffset b) q @ f"
    using s by (auto simp: stamped_def go_from_def bind_eq_Some_conv split: if_splits)
  have l: "seqNumBytes b \<le> length (drop (seqNumOffset b) q)"
    using f uint_codec.put_None_iff [OF seqNum_codec [OF p]] by (metis not_le option.distinct(1))
  from uint_codec.put_then_tail [OF seqNum_codec [OF p] l, of "ucast sn"] f
  have f': "length f = length (drop (seqNumOffset b) q)" "drop (seqNumBytes b) f = drop (seqNumBytes b) (drop (seqNumOffset b) q)"
    "getSeqNum b f = Some (take_bit (8 * seqNumBytes b) (ucast sn))" by auto
  have bits: "8 * seqNumBytes b = LENGTH('t)" using p by (auto simp: bk_params_def seqNumBytes_def)
  have "(ucast (take_bit (8 * seqNumBytes b) (ucast sn :: u64)) :: 't word) = ucast sn"
    unfolding bits by (rule bit_word_eqI) (use p in \<open>auto simp: bit_simps bk_params_def\<close>)
  then show "pkt_sn b q' = Some (ucast sn)" using o f' by (simp add: pkt_sn_def q')
  show "length q' = length q" "take (seqNumOffset b) q' = take (seqNumOffset b) q" using o f' by (simp_all add: q')
  have "drop (seqNumOffset b + seqNumBytes b) q' = drop (seqNumBytes b) f"
    using o by (simp add: q')
  then show "drop (seqNumOffset b + seqNumBytes b) q' = drop (seqNumOffset b + seqNumBytes b) q"
    using f' by (simp add: add.commute)
qed

lemma stamped_defined:
  assumes p: "bk_params b"
  shows "(\<exists>q'. stamped b q sn = Some q') \<longleftrightarrow> seqNumOffset b + seqNumBytes b \<le> length q"
proof (cases "seqNumOffset b \<le> length q")
  case True
  then show ?thesis
    using uint_codec.put_None_iff [OF seqNum_codec [OF p], of "drop (seqNumOffset b) q" "ucast sn"]
    by (cases "putSeqNum b (drop (seqNumOffset b) q) (ucast sn)") (auto simp: stamped_def)
next
  case False
  then show ?thesis by (simp add: stamped_def go_from_def)
qed

section \<open>set and get on the view\<close>

lemma set_packet_old: "maxSteps b \<le> d \<Longrightarrow> set_packet b sn (int d) pkt = Some (b, Inl ErrPacketTooOld)"
  by (simp add: set_packet_def)

lemma at_dist_field:
  assumes wf: "bk_wf b" and d: "d < maxSteps b" and q: "at_dist b d = Some q" and sn: "pkt_sn b q = Some s"
    and slot: "slot_ok b slot" "slot_pkt b slot = at_dist b d"
  shows "\<exists>field v. go_from slot (pktSizeHeader b + seqNumOffset b) = Some field \<and> getSeqNum b field = Some v \<and> ucast v = s"
proof -
  have p: "bk_params b" using wf by (simp add: bk_wf_def)
  have len: "seqNumOffset b + seqNumBytes b \<le> length q" using sn pkt_sn_length [OF p] by blast
  from slot_seqnum [OF p slot(1) _ len] slot(2) q sn len show ?thesis
    by (auto simp: pkt_sn_def bind_eq_Some_conv)
qed

lemma set_packet_dup:
  fixes b :: "('e::len, 't::len) bucket"
  assumes inv: "bk_inv b" and d: "d < maxSteps b" and q: "at_dist b d = Some q" and sn: "sn = headSN b - of_nat d"
  shows "set_packet b sn (int d) pkt = Some (b, Inl (if length q = length pkt then ErrRTXPacket else ErrRTXPacketSize))"
proof -
  have wf: "bk_wf b" and p: "bk_params b" and s: "pkt_sn b q = Some (ucast sn :: 't word)"
    using inv d q sn by (auto simp: bk_inv_def bk_wf_def)
  from slot_at_dist [OF wf d] obtain slot where slot:
    "wrap b (bk_step b - int d - 1) = Some (slot_at b (bk_step b - 1 - int d))"
    "go_at (slots b) (slot_at b (bk_step b - 1 - int d)) = Some slot" "slot_ok b slot" "slot_pkt b slot = at_dist b d" by blast
  from slot_size [OF p slot(3)] slot(4) q obtain sz where sz: "getSize b slot = Some sz" "sz \<noteq> invalidPktSize b"
    "go_int sz = int (length q)" by auto
  from at_dist_field [OF wf d q s slot(3,4)] obtain field v where "go_from slot (pktSizeHeader b + seqNumOffset b) = Some field"
    "getSeqNum b field = Some v" "(ucast v :: 't word) = ucast sn" by blast
  with slot sz d show ?thesis by (simp add: set_packet_def)
qed

lemma set_packet_free:
  assumes wf: "bk_wf b" and d: "d < maxSteps b" and q: "at_dist b d = None"
    and len: "length pkt \<le> maxPktSize b - pktSizeHeader b"
  shows "\<exists>b' idx. set_packet b sn (int d) pkt = Some (b', Inr (idx, length pkt)) \<and> bk_wf b' \<and> same_params b b'
    \<and> maxSteps b' = maxSteps b \<and> headSN b' = headSN b \<and> bk_init b' = bk_init b \<and> resyncOnNextPacket b' = resyncOnNextPacket b
    \<and> idx = slot_at b' (bk_step b' - 1 - int d)
    \<and> (\<forall>e < maxSteps b. at_dist b' e = (if e = d then Some pkt else at_dist b e))"
proof -
  have p: "bk_params b" and m: "0 < maxSteps b" using wf by (simp_all add: bk_wf_def)
  from slot_at_dist [OF wf d] obtain slot where slot:
    "wrap b (bk_step b - int d - 1) = Some (slot_at b (bk_step b - 1 - int d))"
    "go_at (slots b) (slot_at b (bk_step b - 1 - int d)) = Some slot" "slot_ok b slot" "slot_pkt b slot = at_dist b d" by blast
  from slot_size [OF p slot(3)] slot(4) q have sz: "getSize b slot = Some (invalidPktSize b)" by auto
  from store_at_dist [OF wf len, of "bk_step b - 1 - int d"] obtain ss where
    st: "store b (slot_at b (bk_step b - 1 - int d)) pkt =
      Some (b\<lparr>slots := ss\<rparr>, (slot_at b (bk_step b - 1 - int d), length pkt))" "bk_wf (b\<lparr>slots := ss\<rparr>)"
    and v: "\<And>y. slot_pkt b (ss ! slot_at b y) =
      (if slot_at b y = slot_at b (bk_step b - 1 - int d) then Some pkt else slot_pkt b (slots b ! slot_at b y))" by blast
  have "slot_at b (bk_step b - 1 - int e) = slot_at b (bk_step b - 1 - int d) \<longleftrightarrow> e = d" if "e < maxSteps b" for e
  proof -
    have "slot_at b (bk_step b - 1 - int e) = slot_at b (bk_step b - 1 - int d) \<longleftrightarrow> int (maxSteps b) dvd int d - int e"
      using m by (simp add: slot_at_eq_iff mod_eq_dvd_iff)
    also have "\<dots> \<longleftrightarrow> int d = int e"
      using that d by (simp flip: mod_eq_dvd_iff add: mod_pos_pos_trivial)
    finally show ?thesis by auto
  qed
  then have "\<forall>e < maxSteps b. at_dist (b\<lparr>slots := ss\<rparr>) e = (if e = d then Some pkt else at_dist b e)"
    by (auto simp: at_dist_def v)
  then show ?thesis
    using slot sz d st by (intro exI [of _ "b\<lparr>slots := ss\<rparr>"]) (simp add: set_packet_def same_params_def)
qed

lemma get_spec:
  fixes b :: "('e::len, 't::len) bucket"
  assumes inv: "bk_inv b" and sn: "sn = headSN b - of_nat d"
  shows "get b sn (int d) = Some (if maxSteps b \<le> d then Inl ErrPacketTooOld
     else case at_dist b d of None \<Rightarrow> Inl ErrPacketSizeInvalid | Some q \<Rightarrow> Inr q)"
proof (cases "maxSteps b \<le> d")
  case True
  then show ?thesis by (simp add: get_def)
next
  case False
  then have d: "d < maxSteps b" by simp
  have wf: "bk_wf b" and p: "bk_params b" using inv by (auto simp: bk_inv_def bk_wf_def)
  from slot_at_dist [OF wf d] obtain slot where slot:
    "wrap b (bk_step b - int d - 1) = Some (slot_at b (bk_step b - 1 - int d))"
    "go_at (slots b) (slot_at b (bk_step b - 1 - int d)) = Some slot" "slot_ok b slot" "slot_pkt b slot = at_dist b d" by blast
  show ?thesis
  proof (cases "at_dist b d")
    case None
    then show ?thesis using slot_size [OF p slot(3)] slot d by (simp add: get_def)
  next
    case (Some q)
    then have s: "pkt_sn b q = Some (ucast sn :: 't word)" using inv d sn by (auto simp: bk_inv_def)
    from slot_size [OF p slot(3)] slot(4) Some obtain sz where sz: "getSize b slot = Some sz" "sz \<noteq> invalidPktSize b"
      "go_int sz = int (length q)" "go_slice slot (pktSizeHeader b) (pktSizeHeader b + length q) = Some q" by auto
    from at_dist_field [OF wf d Some s slot(3,4)] obtain field v where "go_from slot (pktSizeHeader b + seqNumOffset b) = Some field"
      "getSeqNum b field = Some v" "(ucast v :: 't word) = ucast sn" by blast
    with slot sz d Some show ?thesis by (simp add: get_def)
  qed
qed

end
