(* ===== verification/Bucket_View.thy ===== *)
theory Bucket_View
  imports Bucket_Ring "HOL-Library.Multiset"
begin

text \<open>
  The bucket as a store of packets under sequence numbers: growing the ring and adding a packet, related
  to the packet retrievable under each number.
\<close>


section \<open>Growing on the view\<close>

lemma createSlots_loop_spec:
  assumes p: "bk_params b"
  shows "\<exists>ss. createSlots_loop (putSize b) (invalidPktSize b) (slotSize b) n = Some ss \<and> length ss = n
    \<and> (\<forall>s \<in> set ss. slot_ok b s \<and> slot_pkt b s = None)"
proof (induction n)
  case (Suc n)
  have sz: "uint_codec (pktSizeHeader b) (putSize b) (getSize b)" and i: "invalidPktSize b = mask (8 * pktSizeHeader b)"
    using p by (simp_all add: bk_params_def)
  have "pktSizeHeader b \<le> length (replicate (slotSize b) 0)" by (simp add: slotSize_def)
  from uint_codec.put_then_tail [OF sz this, of "invalidPktSize b"]
  have "\<exists>s. putSize b (replicate (slotSize b) 0) (invalidPktSize b) = Some s \<and> slot_ok b s \<and> slot_pkt b s = None"
    by (auto simp: slot_ok_def slot_pkt_def i)
  with Suc.IH show ?case by (auto simp: Suc_length_conv)
qed simp

lemma createSlots_spec:
  assumes "bk_params b"
  shows "\<exists>ss. createSlots b = Some ss \<and> length ss = initCapacity b \<and> (\<forall>s \<in> set ss. slot_ok b s \<and> slot_pkt b s = None)"
  using createSlots_loop_spec [OF assms, of "initCapacity b"] by (simp add: createSlots_def slotSize_def)

text \<open>
  What the swaps of \<open>Grow\<close> have done once every slot from \<open>k\<close> up has been treated: packets from there
  on sit \<open>initCapacity\<close> higher, the gap behind them is free, slots below \<open>k\<close> are as they were.
\<close>

definition grown_from :: "('e::len, 't::len) bucket \<Rightarrow> nat \<Rightarrow> byte list list \<Rightarrow> bool" where
  "grown_from b k gs \<longleftrightarrow> length gs = maxSteps b + initCapacity b \<and> (\<forall>s \<in> set gs. slot_ok b s) \<and>
     (\<forall>j < length gs.
        if j < k then gs ! j = slots b ! j
        else if j < k + initCapacity b then slot_pkt b (gs ! j) = None
        else slot_pkt b (gs ! j) = slot_pkt b (slots b ! (j - initCapacity b)))"

lemma grown_fromD:
  assumes "grown_from b k gs" "j < length gs"
  shows "j < k \<Longrightarrow> gs ! j = slots b ! j"
    and "k \<le> j \<Longrightarrow> j < k + initCapacity b \<Longrightarrow> slot_pkt b (gs ! j) = None"
    and "k + initCapacity b \<le> j \<Longrightarrow> slot_pkt b (gs ! j) = slot_pkt b (slots b ! (j - initCapacity b))"
  using assms unfolding grown_from_def by auto

lemma slot_pkt_None_iff:
  assumes "bk_params b" "slot_ok b s"
  shows "\<exists>sz. getSize b s = Some sz \<and> (slot_pkt b s = None \<longleftrightarrow> sz = invalidPktSize b)"
  using slot_size [OF assms] by (cases "slot_pkt b s") auto

lemma grown_step:
  assumes wf: "bk_wf b" and i: "i < maxSteps b" and g: "grown_from b (Suc i) gs"
  shows "slot_pkt b (slots b ! i) \<noteq> None \<Longrightarrow>
      grown_from b i (gs[i + initCapacity b := gs ! i, i := gs ! (i + initCapacity b)])"
    and "slot_pkt b (slots b ! i) = None \<Longrightarrow> grown_from b i gs"
proof -
  let ?C = "initCapacity b"
  have C: "0 < ?C" using wf by (simp add: bk_wf_def bk_params_def)
  have l: "length gs = maxSteps b + ?C" and ok: "\<And>s. s \<in> set gs \<Longrightarrow> slot_ok b s"
    and v1: "\<And>j. j < length gs \<Longrightarrow> j \<le> i \<Longrightarrow> gs ! j = slots b ! j"
    and v2: "\<And>j. j < length gs \<Longrightarrow> i < j \<Longrightarrow> j \<le> i + ?C \<Longrightarrow> slot_pkt b (gs ! j) = None"
    and v3: "\<And>j. j < length gs \<Longrightarrow> i + ?C < j \<Longrightarrow> slot_pkt b (gs ! j) = slot_pkt b (slots b ! (j - ?C))"
    using g grown_fromD [OF g] by (simp_all add: grown_from_def)
  show "grown_from b i (gs[i + ?C := gs ! i, i := gs ! (i + ?C)])" if "slot_pkt b (slots b ! i) \<noteq> None"
  proof -
    define gs' where gs': "gs' = gs[i + ?C := gs ! i, i := gs ! (i + ?C)]"
    have "mset gs' = mset gs"
      unfolding gs' by (rule mset_swap) (use l i in simp_all)
    then have s: "set gs' = set gs" by (metis set_mset_mset)
    have l': "length gs' = length gs" by (simp add: gs')
    have "if j < i then gs' ! j = slots b ! j
        else if j < i + ?C then slot_pkt b (gs' ! j) = None
        else slot_pkt b (gs' ! j) = slot_pkt b (slots b ! (j - ?C))"
      if j: "j < length gs" for j
    proof -
      have n: "j \<noteq> i \<Longrightarrow> j \<noteq> i + ?C \<Longrightarrow> gs' ! j = gs ! j" "gs' ! i = gs ! (i + ?C)" "gs' ! (i + ?C) = gs ! i"
        using i l C by (simp_all add: gs' nth_list_update)
      have u: "gs ! i = slots b ! i" "slot_pkt b (gs ! (i + ?C)) = None"
        using v1 [of i] v2 [of "i + ?C"] i l C by simp_all
      consider "j < i" | "j = i" | "i < j" "j < i + ?C" | "j = i + ?C" | "i + ?C < j" by linarith
      then show ?thesis
      proof cases
        case 1 then show ?thesis using n(1) v1 [OF j] C by simp
      next
        case 2 then show ?thesis using n(2) u(2) C by simp
      next
        case 3 then show ?thesis using n(1) v2 [OF j] by simp
      next
        case 4 then show ?thesis using n(3) u(1) by simp
      next
        case 5 then show ?thesis using n(1) v3 [OF j] by simp
      qed
    qed
    then show ?thesis unfolding gs' [symmetric] grown_from_def l' s using l ok by blast
  qed
  show "grown_from b i gs" if n: "slot_pkt b (slots b ! i) = None"
  proof -
    have "if j < i then gs ! j = slots b ! j
        else if j < i + ?C then slot_pkt b (gs ! j) = None
        else slot_pkt b (gs ! j) = slot_pkt b (slots b ! (j - ?C))" if j: "j < length gs" for j
    proof -
      consider "j < i" | "j = i" | "i < j" "j < i + ?C" | "j = i + ?C" | "i + ?C < j" by linarith
      then show ?thesis
        using v1 [OF j] v2 [OF j] v3 [OF j] n C by cases simp_all
    qed
    then show ?thesis unfolding grown_from_def using l ok by blast
  qed
qed

lemma grow_loop_spec:
  assumes wf: "bk_wf b"
  shows "nat (bk_step b) + n \<le> maxSteps b \<Longrightarrow> grown_from b (nat (bk_step b) + n) gs \<Longrightarrow>
    \<exists>gs'. grow_loop b n gs = Some gs' \<and> grown_from b (nat (bk_step b)) gs'"
proof (induction n arbitrary: gs)
  case (Suc n)
  let ?i = "nat (bk_step b) + n"
  have p: "bk_params b" and l: "length (slots b) = maxSteps b" using wf by (simp_all add: bk_wf_def)
  have i: "?i < maxSteps b" using Suc.prems(1) by simp
  then have "slot_ok b (slots b ! ?i)" using wf l by (simp add: bk_wf_def)
  from slot_pkt_None_iff [OF p this] obtain sz where sz: "getSize b (slots b ! ?i) = Some sz"
    "slot_pkt b (slots b ! ?i) = None \<longleftrightarrow> sz = invalidPktSize b" by (elim exE conjE) (rule that)
  have g: "grown_from b (Suc ?i) gs" using Suc.prems(2) by simp
  have lg: "length gs = maxSteps b + initCapacity b" using g by (simp add: grown_from_def)
  have le: "?i \<le> maxSteps b" using i by simp
  show ?case
  proof (cases "sz = invalidPktSize b")
    case True
    then have "grow_loop b (Suc n) gs = grow_loop b n gs" using sz i l by (simp add: Let_def)
    then show ?thesis using Suc.IH [OF le grown_step(2) [OF wf i g]] sz True by simp
  next
    case False
    then have "grow_loop b (Suc n) gs = grow_loop b n (gs[?i + initCapacity b := gs ! ?i, ?i := gs ! (?i + initCapacity b)])"
      using sz i l lg by (simp add: Let_def)
    then show ?thesis using Suc.IH [OF le grown_step(1) [OF wf i g]] sz False by simp
  qed
qed simp

lemma Grow_spec:
  assumes wf: "bk_wf b" and cap: "maxSteps b + initCapacity b < 2 ^ 62"
  shows "\<exists>b'. Grow b = Some (b', maxSteps b') \<and> bk_wf b' \<and> same_params b b'
    \<and> maxSteps b' = maxSteps b + initCapacity b \<and> headSN b' = headSN b \<and> bk_init b' = bk_init b
    \<and> resyncOnNextPacket b' = resyncOnNextPacket b
    \<and> (\<forall>d < maxSteps b'. at_dist b' d = (if d < maxSteps b then at_dist b d else None))"
proof -
  let ?C = "initCapacity b" and ?s = "nat (bk_step b)"
  have p: "bk_params b" and l: "length (slots b) = maxSteps b" and m: "0 < maxSteps b"
    and st: "0 \<le> bk_step b" "bk_step b < int (maxSteps b)" using wf by (simp_all add: bk_wf_def)
  from createSlots_spec [OF p] obtain new where new: "createSlots b = Some new" "length new = ?C"
    "\<And>s. s \<in> set new \<Longrightarrow> slot_ok b s \<and> slot_pkt b s = None" by blast
  have "grown_from b (?s + (maxSteps b - ?s)) (slots b @ new)"
    using wf new l st by (auto simp: grown_from_def bk_wf_def nth_append)
  from grow_loop_spec [OF wf _ this] st obtain gs where
    gs: "grow_loop b (maxSteps b - ?s) (slots b @ new) = Some gs" "grown_from b ?s gs" by auto
  let ?b = "b\<lparr>slots := gs, maxSteps := maxSteps b + ?C\<rparr>"
  have sp: "same_params b ?b" by (simp add: same_params_def)
  have wf': "bk_wf ?b"
    using p cap m st gs(2) by (auto simp: bk_wf_def same_paramsD [OF sp] grown_from_def)
  have lg: "length gs = maxSteps b + ?C" using gs(2) by (simp add: grown_from_def)
  have "at_dist ?b d = (if d < maxSteps b then at_dist b d else None)" if d: "d < maxSteps b + ?C" for d
  proof -
    let ?x = "bk_step b - 1 - int d"
    have a: "at_dist ?b d = slot_pkt b (gs ! nat (?x mod int (maxSteps b + ?C)))"
      by (simp add: at_dist_def slot_at_def same_paramsD [OF sp])
    have o: "at_dist b d = slot_pkt b (slots b ! nat (?x mod int (maxSteps b)))"
      by (simp add: at_dist_def slot_at_def)
    consider "int d < bk_step b" | "bk_step b \<le> int d" "d < maxSteps b" | "maxSteps b \<le> d" by linarith
    then show ?thesis
    proof cases
      case 1
      then have "gs ! nat ?x = slots b ! nat ?x"
        by (intro grown_fromD(1) [OF gs(2)]) (use 1 st lg in linarith)+
      moreover have "?x mod int (maxSteps b) = ?x" "?x mod int (maxSteps b + ?C) = ?x"
        using 1 st by (auto intro!: mod_pos_pos_trivial)
      ultimately show ?thesis using 1 st a o by simp
    next
      case 2
      let ?j = "nat (?x + int (maxSteps b))"
      have xm: "?x mod int (maxSteps b) = ?x + int (maxSteps b)"
        using 2 st mod_pos_pos_trivial [of "?x + int (maxSteps b)" "int (maxSteps b)"] by simp
      have xg: "?x mod int (maxSteps b + ?C) = ?x + int (maxSteps b) + int ?C"
        using 2 st mod_pos_pos_trivial [of "?x + int (maxSteps b + ?C)" "int (maxSteps b + ?C)"] by simp
      have ng: "nat (?x + int (maxSteps b) + int ?C) = ?j + ?C" using 2 st by simp
      have j: "?s \<le> ?j" "?j < maxSteps b" using 2 st by linarith+
      have "slot_pkt b (gs ! (?j + ?C)) = slot_pkt b (slots b ! ?j)"
        using grown_fromD(3) [OF gs(2), of "?j + ?C"] j lg by simp
      then show ?thesis using a o 2 by (simp only: xm xg ng if_True)
    next
      case 3
      let ?j = "nat (?x + int (maxSteps b) + int ?C)"
      have xg: "?x mod int (maxSteps b + ?C) = ?x + int (maxSteps b) + int ?C"
        using 3 st d mod_pos_pos_trivial [of "?x + int (maxSteps b + ?C)" "int (maxSteps b + ?C)"] by simp
      have j: "?s \<le> ?j" "?j < ?s + ?C" "?j < maxSteps b + ?C" using 3 st d by linarith+
      have "slot_pkt b (gs ! ?j) = None"
        by (intro grown_fromD(2) [OF gs(2)]) (use j lg in linarith)+
      then show ?thesis using a 3 by (simp only: xg if_False not_less [symmetric])
    qed
  qed
  then show ?thesis
    using new(1) gs(1) wf' sp by (intro exI [of _ ?b]) (simp add: Grow_def)
qed


section \<open>Adding on the view\<close>

text \<open>
  The client's view: the packet retrievable under a number, the numbers the ring can hold, and whether
  the next packet starts the ring afresh (the first one, or the first after a resync request).
\<close>

definition in_window :: "('e::len, 't::len) bucket \<Rightarrow> 'e word \<Rightarrow> bool" where
  "in_window b sn \<longleftrightarrow> unat (headSN b - sn) < maxSteps b \<and> headSN b - sn \<le> halfRange b"

definition lookup :: "('e::len, 't::len) bucket \<Rightarrow> 'e word \<Rightarrow> byte list option" where
  "lookup b sn = (if in_window b sn then at_dist b (unat (headSN b - sn)) else None)"

definition fresh :: "('e::len, 't::len) bucket \<Rightarrow> bool" where
  "fresh b \<longleftrightarrow> \<not> bk_init b \<or> resyncOnNextPacket b"

definition kept :: "('e::len, 't::len) bucket \<Rightarrow> 'e word \<Rightarrow> byte list option" where
  "kept b sn = (if fresh b then None else lookup b sn)"

text \<open>A jump ahead within the range of \<open>int\<close>: always so for 16 and 32-bit numbers.\<close>

definition jump_ok :: "('e::len, 't::len) bucket \<Rightarrow> 'e word \<Rightarrow> bool" where
  "jump_ok b sn \<longleftrightarrow> fresh b \<or> halfRange b < sn - headSN b \<or> uint (sn - headSN b) < 2 ^ 62"

text \<open>The head once a packet has been stored under \<open>sn\<close>.\<close>

definition new_head :: "('e::len, 't::len) bucket \<Rightarrow> 'e word \<Rightarrow> 'e word" where
  "new_head b sn = (if fresh b \<or> (sn \<noteq> headSN b \<and> sn - headSN b \<le> halfRange b) then sn else headSN b)"

text \<open>The error \<open>addPacket\<close> reports, if any.\<close>

definition add_error :: "('e::len, 't::len) bucket \<Rightarrow> 'e word \<Rightarrow> byte list \<Rightarrow> bucket_error option" where
  "add_error b sn pkt =
    (if length pkt + pktSizeHeader b > maxPktSize b then Some ErrPacketTooLarge
     else if fresh b \<or> (sn \<noteq> headSN b \<and> sn - headSN b \<le> halfRange b) then None
     else if maxSteps b \<le> unat (headSN b - sn) then Some ErrPacketTooOld
     else case lookup b sn of
       None \<Rightarrow> None
     | Some q \<Rightarrow> Some (if length q = length pkt then ErrRTXPacket else ErrRTXPacketSize))"

text \<open>\<open>b'\<close> is \<open>b\<close> with the packet \<open>q\<close> stored under \<open>sn\<close> in slot \<open>idx\<close>, whatever number \<open>q\<close> shows.\<close>

definition placed :: "('e::len, 't::len) bucket \<Rightarrow> 'e word \<Rightarrow> byte list \<Rightarrow> ('e, 't) bucket \<Rightarrow> nat \<Rightarrow> bool" where
  "placed b sn q b' idx \<longleftrightarrow>
     bk_wf b' \<and> same_params b b' \<and> maxSteps b' = maxSteps b \<and> bk_init b' \<and> \<not> resyncOnNextPacket b' \<and>
     headSN b' = new_head b sn \<and> in_window b' sn \<and> idx = slot_at b' (bk_step b' - 1 - int (unat (headSN b' - sn))) \<and>
     (\<forall>d < maxSteps b. d \<noteq> unat (headSN b' - sn) \<longrightarrow>
        (\<forall>p. at_dist b' d = Some p \<longrightarrow> pkt_sn b p = Some (ucast (headSN b' - of_nat d)))) \<and>
     (\<forall>s. lookup b' s = (if s = sn then Some q else if in_window b' s then kept b s else None))"

lemma same_params_trans: "same_params b b1 \<Longrightarrow> same_params b1 b2 \<Longrightarrow> same_params b b2"
  unfolding same_params_def by (cases b; cases b1; cases b2) simp

lemma uint_half_range: "uint (push_bit (LENGTH('a) - 1) 1 :: 'a::len word) = 2 ^ (LENGTH('a) - 1)"
proof -
  have "uint (push_bit (LENGTH('a) - 1) 1 :: 'a word) = take_bit LENGTH('a) (2 ^ (LENGTH('a) - 1))"
    unfolding unsigned_push_bit_eq by simp
  then show ?thesis by (simp add: take_bit_int_eq_self)
qed

lemma two_half: "(2::int) ^ LENGTH('a::len) = 2 * 2 ^ (LENGTH('a) - 1)"
  using power_Suc [of "2::int" "LENGTH('a) - 1"] by simp

lemma behind_head:
  assumes h: "h = (push_bit (LENGTH('a) - 1) 1 :: 'a::len word)" and y: "h < y"
  shows "- y < h"
proof -
  have "y \<noteq> 0" using y by auto
  then show ?thesis
    using y uint_neg [of y] uint_half_range [where 'a='a] two_half [where 'a='a] by (simp add: h word_less_def)
qed

lemma ahead_of_head:
  assumes h: "h = (push_bit (LENGTH('a) - 1) 1 :: 'a::len word)" and y: "y < h" "y \<noteq> 0"
  shows "h < - y"
  using y uint_neg [of y] uint_half_range [where 'a='a] two_half [where 'a='a] by (simp add: h word_less_def)

lemma add_prepare:
  fixes b :: "('e::len, 't::len) bucket"
  assumes inv: "bk_inv b" and fr: "fresh b" and len: "length pkt + pktSizeHeader b \<le> maxPktSize b"
  shows "\<exists>b0. addPacket b pkt sn = addPacket b0 pkt sn \<and> bk_inv b0 \<and> \<not> fresh b0 \<and> same_params b b0
    \<and> maxSteps b0 = maxSteps b \<and> headSN b0 = sn - 1 \<and> (\<forall>d < maxSteps b. at_dist b0 d = None)"
proof -
  let ?b1 = "if \<not> bk_init b then b\<lparr>headSN := sn - 1, bk_init := True\<rparr> else b"
  let ?b2 = "?b1\<lparr>resyncOnNextPacket := False, headSN := sn - 1\<rparr>"
  have m: "0 < maxSteps b" and wf: "bk_wf b" using inv by (simp_all add: bk_inv_def bk_wf_def)
  have wf2: "bk_wf ?b2" using wf by simp
  have m2: "maxSteps ?b2 = maxSteps b" "slots ?b2 = slots b" "bk_step ?b2 = bk_step b" by simp_all
  have sp1: "same_params b ?b1" by (simp add: same_params_def)
  show ?thesis
  proof (cases "resyncOnNextPacket b")
    case True
    from invalidate_spec [OF wf2, of 0 "int (maxSteps b)"] obtain ss where
      ss: "invalidate ?b2 0 (int (maxSteps b)) = Some (?b2\<lparr>slots := ss\<rparr>)" "bk_wf (?b2\<lparr>slots := ss\<rparr>)"
      and v: "\<And>x. slot_pkt ?b2 (ss ! slot_at ?b2 x) = None"
      unfolding m2 using m by (auto split: if_splits)
    let ?b0 = "?b2\<lparr>slots := ss\<rparr>"
    have none: "at_dist ?b0 d = None" for d
      using v [of "bk_step b - 1 - int d"] by (simp add: at_dist_def split: if_splits)
    then have "bk_inv ?b0" using ss(2) by (simp add: bk_inv_def)
    moreover have "addPacket b pkt sn = addPacket ?b0 pkt sn"
      using ss(1) True len by (cases "bk_init b") (simp_all add: addPacket_def Let_def)
    ultimately show ?thesis using none by (intro exI [of _ ?b0]) (simp add: fresh_def same_params_def)
  next
    case False
    then have i: "\<not> bk_init b" using fr by (simp add: fresh_def)
    let ?b0 = "b\<lparr>headSN := sn - 1, bk_init := True\<rparr>"
    have "at_dist ?b0 d = at_dist b d" for d by (simp add: at_dist_def)
    moreover have "at_dist b d = None" if "d < maxSteps b" for d
      using inv i that by (cases "at_dist b d") (auto simp: bk_inv_def)
    ultimately show ?thesis
      using wf False i len by (intro exI [of _ ?b0]) (simp add: addPacket_def Let_def bk_inv_def fresh_def same_params_def)
  qed
qed

lemma addPacket_ahead:
  assumes fr: "\<not> fresh b" and len: "length pkt + pktSizeHeader b \<le> maxPktSize b"
    and a: "sn \<noteq> headSN b" "sn - headSN b \<le> halfRange b" and j: "uint (sn - headSN b) < 2 ^ 62"
  shows "addPacket b pkt sn = push b sn (int (unat (sn - headSN b) - 1)) pkt"
proof -
  have nz: "sn - headSN b \<noteq> 0" using a(1) by simp
  then have pos: "0 < uint (sn - headSN b)" using uint_ge_0 [of "sn - headSN b"] uint_0_iff by (metis le_less)
  then have "wrap64 (go_int (sn - headSN b) - 1) = uint (sn - headSN b) - 1"
    using j by (simp add: go_int_small wrap64_id)
  also have "\<dots> = int (unat (sn - headSN b) - 1)"
  proof -
    have u: "int (unat (sn - headSN b)) = uint (sn - headSN b)" by simp
    then have "0 < unat (sn - headSN b)" using pos by linarith
    then show ?thesis using u by (simp add: of_nat_diff)
  qed
  finally show ?thesis using fr len leD [OF a(2)] nz by (simp add: addPacket_def fresh_def Let_def)
qed

lemma addPacket_behind:
  assumes inv: "bk_inv (b :: ('e::len, 't::len) bucket)" and fr: "\<not> fresh b"
    and len: "length pkt + pktSizeHeader b \<le> maxPktSize b"
    and a: "sn = headSN b \<or> halfRange b < sn - headSN b"
  shows "addPacket b pkt sn = set_packet b sn (int (unat (headSN b - sn))) pkt" "headSN b - sn < halfRange b"
proof -
  have h: "halfRange b = push_bit (LENGTH('e) - 1) 1" and e: "LENGTH('e) \<le> 64"
    using bk_inv_params [OF inv] by (simp_all add: bk_params_def)
  have hp: "0 < halfRange b" unfolding h word_less_def uint_half_range by simp
  show lt: "headSN b - sn < halfRange b"
    using a behind_head [OF h, of "sn - headSN b"] hp by auto
  have "uint (headSN b - sn) < 2 ^ (LENGTH('e) - 1)"
    using lt unfolding word_less_def h uint_half_range .
  also have "(2::int) ^ (LENGTH('e) - 1) \<le> 2 ^ 63" using e by (intro power_increasing) simp_all
  finally have "go_int (headSN b - sn) = int (unat (headSN b - sn))"
    by (subst go_int_small) simp_all
  then show "addPacket b pkt sn = set_packet b sn (int (unat (headSN b - sn))) pkt"
    using fr len a by (auto simp add: addPacket_def fresh_def Let_def)
qed

lemma push_lookup:
  fixes b b' :: "('e::len, 't::len) bucket"
  assumes h: "halfRange b = push_bit (LENGTH('e) - 1) 1" "halfRange b' = halfRange b" "maxSteps b' = maxSteps b"
    and k: "k = headSN b' - headSN b" "k \<noteq> 0" "k \<le> halfRange b" and n: "n = unat k - 1"
    and v: "\<And>d. d < maxSteps b \<Longrightarrow> at_dist b' d = (if d = 0 then Some pkt else if d \<le> n then None else at_dist b (d - n - 1))"
    and m: "0 < maxSteps b"
  shows "lookup b' s = (if s = headSN b' then Some pkt else if in_window b' s then lookup b s else None)"
proof -
  let ?x = "headSN b' - s"
  have bk: "headSN b - s = ?x - k" by (simp add: k)
  have x0: "unat ?x = 0 \<longleftrightarrow> s = headSN b'" by (auto simp: unat_eq_0)
  have ku: "0 < unat k" using k(2) by (simp add: unat_gt_0)
  show ?thesis
  proof (cases "in_window b' s \<and> s \<noteq> headSN b'")
    case False
    have "in_window b' (headSN b')" using m by (simp add: in_window_def h(3))
    moreover have "at_dist b' 0 = Some pkt" using v [OF m] by simp
    ultimately show ?thesis using False by (cases "s = headSN b'") (simp_all add: lookup_def)
  next
    case True
    then have x: "unat ?x < maxSteps b" "?x \<le> halfRange b" by (auto simp: in_window_def h)
    have lk: "lookup b' s = at_dist b' (unat ?x)" using True by (simp add: lookup_def)
    show ?thesis
    proof (cases "k \<le> ?x")
      case le: True
      then have u: "unat (?x - k) = unat ?x - unat k" by (simp add: unat_sub)
      have ul: "unat k \<le> unat ?x" using le by (simp add: word_le_nat_alt)
      have "?x - k \<le> ?x" using le by (simp add: word_le_nat_alt u)
      then have "?x - k \<le> halfRange b" using x(2) by (rule order_trans)
      moreover have "unat (?x - k) < maxSteps b" using x(1) u by linarith
      ultimately have "in_window b s" by (simp add: in_window_def bk)
      then have "lookup b s = at_dist b (unat ?x - unat k)" by (simp add: lookup_def bk u)
      moreover have "at_dist b' (unat ?x) = at_dist b (unat ?x - unat k)"
      proof -
        have "0 < unat ?x" "\<not> unat ?x \<le> n" "unat ?x - n - 1 = unat ?x - unat k" using ul ku n by linarith+
        then show ?thesis using v [OF x(1)] by simp
      qed
      ultimately show ?thesis using lk True by simp
    next
      case False
      then have lt: "?x < k" by simp
      then have "unat (k - ?x) = unat k - unat ?x" by (simp add: unat_sub)
      moreover have "0 < unat ?x" using True x0 by simp
      moreover have "unat ?x < unat k" using lt by (simp add: word_less_nat_alt)
      ultimately have "unat (k - ?x) < unat k" "0 < unat (k - ?x)" by linarith+
      then have "k - ?x < halfRange b" "k - ?x \<noteq> 0"
        using k(3) by (auto simp: word_less_nat_alt word_le_nat_alt)
      from ahead_of_head [OF h(1) this] have "halfRange b < headSN b - s" by (simp add: bk)
      then have "\<not> in_window b s" by (auto simp: in_window_def)
      then have "lookup b s = None" by (simp add: lookup_def)
      moreover have "at_dist b' (unat ?x) = None"
      proof -
        have "unat ?x \<le> n" using \<open>unat ?x < unat k\<close> n by linarith
        then show ?thesis using v [OF x(1)] \<open>0 < unat ?x\<close> by simp
      qed
      ultimately show ?thesis using lk True by simp
    qed
  qed
qed

lemma lookup_cong:
  assumes "headSN b' = headSN b" "maxSteps b' = maxSteps b" "halfRange b' = halfRange b"
    and "\<And>d. d < maxSteps b \<Longrightarrow> at_dist b' d = at_dist b d"
  shows "lookup b' s = lookup b s" "in_window b' s = in_window b s"
  using assms by (auto simp: lookup_def in_window_def)

lemma push_placed:
  fixes b :: "('e::len, 't::len) bucket"
  assumes inv: "bk_inv b" and nf: "\<not> fresh b" and len: "length pkt + pktSizeHeader b \<le> maxPktSize b"
    and a: "sn \<noteq> headSN b" "sn - headSN b \<le> halfRange b" and j: "uint (sn - headSN b) < 2 ^ 62"
  shows "\<exists>b' idx. addPacket b pkt sn = Some (b', Inr (idx, length pkt)) \<and> placed b sn pkt b' idx"
proof -
  let ?n = "unat (sn - headSN b) - 1"
  have wf: "bk_wf b" and p: "bk_params b" and m: "0 < maxSteps b" using inv by (auto simp: bk_inv_def bk_wf_def)
  have h: "halfRange b = push_bit (LENGTH('e) - 1) 1" using p by (simp add: bk_params_def)
  have len': "length pkt \<le> maxPktSize b - pktSizeHeader b" using len by simp
  have u: "int (unat (sn - headSN b)) = uint (sn - headSN b)" by simp
  have "int (unat (sn - headSN b)) < int (2 ^ 62)" using j u by simp
  then have "unat (sn - headSN b) < 2 ^ 62" by (simp only: of_nat_less_iff)
  then have n: "?n < 2 ^ 62" by linarith
  from push_spec [OF wf len' n, of sn] obtain b' idx where
    b': "push b sn (int ?n) pkt = Some (b', Inr (idx, length pkt))" "bk_wf b'" "same_params b b'"
    "maxSteps b' = maxSteps b" "headSN b' = sn" "bk_init b' = bk_init b" "resyncOnNextPacket b' = resyncOnNextPacket b"
    "idx = slot_at b' (bk_step b' - 1)"
    and v: "\<And>d. d < maxSteps b \<Longrightarrow> at_dist b' d = (if d = 0 then Some pkt else if d \<le> ?n then None else at_dist b (d - ?n - 1))"
    by blast
  have k0: "sn - headSN b \<noteq> 0" using a(1) by simp
  then have "0 < unat (sn - headSN b)" by (simp add: unat_gt_0)
  then have nk: "of_nat ?n + 1 = sn - headSN b"
  proof -
    assume "0 < unat (sn - headSN b)"
    then have "of_nat ?n + 1 = (of_nat (unat (sn - headSN b)) :: 'e word)"
      by (simp only: of_nat_diff Suc_leI) (simp add: Suc_leI)
    then show ?thesis by simp
  qed
  have coh: "pkt_sn b q = Some (ucast (sn - of_nat d))" if "d < maxSteps b" "d \<noteq> 0" "at_dist b' d = Some q" for d q
  proof -
    have d: "?n < d" "at_dist b (d - ?n - 1) = Some q" using that v [OF that(1)] by (auto split: if_splits)
    have lt: "d - ?n - 1 < maxSteps b" using that(1) by simp
    from d(2) have "pkt_sn b q = Some (ucast (headSN b - of_nat (d - ?n - 1)))"
      using inv lt unfolding bk_inv_def by blast
    moreover have "headSN b - of_nat (d - ?n - 1) = sn - of_nat d"
      using d(1) nk by (simp add: of_nat_diff algebra_simps)
    ultimately show ?thesis by simp
  qed
  have "lookup b' s = (if s = sn then Some pkt else if in_window b' s then lookup b s else None)" for s
    using push_lookup [of b b' "sn - headSN b" ?n pkt s] h b'(3,4,5) k0 a(2) v m by (simp add: same_paramsD)
  then have "placed b sn pkt b' idx"
    unfolding placed_def using b' nf coh m a by (auto simp: fresh_def kept_def in_window_def new_head_def)
  then show ?thesis using b'(1) addPacket_ahead [OF nf len a j] by auto
qed

lemma set_placed:
  fixes b :: "('e::len, 't::len) bucket"
  assumes inv: "bk_inv b" and nf: "\<not> fresh b" and len: "length pkt + pktSizeHeader b \<le> maxPktSize b"
    and a: "sn = headSN b \<or> halfRange b < sn - headSN b"
    and d: "unat (headSN b - sn) < maxSteps b" and q: "lookup b sn = None"
  shows "\<exists>b' idx. addPacket b pkt sn = Some (b', Inr (idx, length pkt)) \<and> placed b sn pkt b' idx"
proof -
  let ?d = "unat (headSN b - sn)"
  have wf: "bk_wf b" and p: "bk_params b" and m: "0 < maxSteps b" using inv by (auto simp: bk_inv_def bk_wf_def)
  have len': "length pkt \<le> maxPktSize b - pktSizeHeader b" using len by simp
  have w: "in_window b sn" using addPacket_behind(2) [OF inv nf len a] d by (simp add: in_window_def)
  have free: "at_dist b ?d = None" using q w by (simp add: lookup_def)
  from set_packet_free [OF wf d free len', of sn] obtain b' idx where
    b': "set_packet b sn (int ?d) pkt = Some (b', Inr (idx, length pkt))" "bk_wf b'" "same_params b b'"
    "maxSteps b' = maxSteps b" "headSN b' = headSN b" "bk_init b' = bk_init b" "resyncOnNextPacket b' = resyncOnNextPacket b"
    "idx = slot_at b' (bk_step b' - 1 - int ?d)"
    and v: "\<And>e. e < maxSteps b \<Longrightarrow> at_dist b' e = (if e = ?d then Some pkt else at_dist b e)"
    by blast
  have w': "in_window b' s = in_window b s" for s using b'(3,4,5) by (simp add: in_window_def same_paramsD)
  have "lookup b' s = (if s = sn then Some pkt else if in_window b' s then lookup b s else None)" for s
  proof -
    have "unat (headSN b - s) = ?d \<longleftrightarrow> s = sn" by (simp add: word_unat_eq_iff [symmetric])
    moreover have "unat (headSN b - s) < maxSteps b" if "in_window b s" using that by (simp add: in_window_def)
    ultimately show ?thesis using w b'(5) v by (auto simp: lookup_def w')
  qed
  moreover have "pkt_sn b r = Some (ucast (headSN b - of_nat e))" if "e < maxSteps b" "e \<noteq> ?d" "at_dist b' e = Some r" for e r
    using that v [OF that(1)] inv by (auto simp: bk_inv_def)
  moreover have hd: "new_head b sn = headSN b" using nf a leD by (auto simp: new_head_def)
  ultimately have "placed b sn pkt b' idx"
    unfolding placed_def using b' nf w w' hd by (auto simp: fresh_def kept_def)
  then show ?thesis using b'(1) addPacket_behind(1) [OF inv nf len a] by auto
qed

text \<open>What \<open>addPacket\<close> does, on every branch.\<close>

lemma addPacket_spec:
  fixes b :: "('e::len, 't::len) bucket"
  assumes inv: "bk_inv b" and j: "jump_ok b sn"
  shows "case add_error b sn pkt of
      Some e \<Rightarrow> addPacket b pkt sn = Some (b, Inl e)
    | None \<Rightarrow> \<exists>b' idx. addPacket b pkt sn = Some (b', Inr (idx, length pkt)) \<and> placed b sn pkt b' idx"
proof (cases "length pkt + pktSizeHeader b \<le> maxPktSize b")
  case False
  then show ?thesis by (simp add: add_error_def addPacket_def)
next
  case len: True
  consider "fresh b" | "\<not> fresh b" "sn \<noteq> headSN b" "sn - headSN b \<le> halfRange b"
    | "\<not> fresh b" "sn = headSN b \<or> halfRange b < sn - headSN b" by (metis not_le)
  then show ?thesis
  proof cases
    case 1
    from add_prepare [OF inv 1 len, of sn] obtain b0 where
      b0: "addPacket b pkt sn = addPacket b0 pkt sn" "bk_inv b0" "\<not> fresh b0" "same_params b b0"
      "maxSteps b0 = maxSteps b" "headSN b0 = sn - 1" and none: "\<And>d. d < maxSteps b \<Longrightarrow> at_dist b0 d = None" by blast
    have "0 < halfRange b0"
      using bk_inv_params [OF b0(2)] uint_half_range [where 'a='e] by (simp add: bk_params_def word_less_def)
    then have h: "(1 :: 'e word) \<le> halfRange b0" by (simp add: word_le_nat_alt word_less_nat_alt)
    have "length pkt + pktSizeHeader b0 \<le> maxPktSize b0" using len b0(4) by (simp add: same_paramsD)
    from push_placed [OF b0(2,3) this, of sn] h b0(6) obtain b' idx where
      b': "addPacket b0 pkt sn = Some (b', Inr (idx, length pkt))" "placed b0 sn pkt b' idx" by auto
    have sp: "same_params b b'" using same_params_trans [OF b0(4)] b'(2) by (simp add: placed_def)
    have "lookup b0 s = None" for s using none b0(5) by (simp add: lookup_def in_window_def)
    then have "placed b sn pkt b' idx"
      using b'(2) b0(3,4,5,6) sp 1 by (simp add: placed_def kept_def same_params_pkt_sn new_head_def h)
    then show ?thesis using b0(1) b'(1) 1 len by (auto simp: add_error_def)
  next
    case 2
    then have "uint (sn - headSN b) < 2 ^ 62" using j leD by (auto simp: jump_ok_def)
    from push_placed [OF inv 2(1) len 2(2,3) this] show ?thesis using 2 len by (auto simp: add_error_def)
  next
    case 3
    have nc: "\<not> (fresh b \<or> sn \<noteq> headSN b \<and> sn - headSN b \<le> halfRange b)" using 3 leD by auto
    show ?thesis
    proof (cases "unat (headSN b - sn) < maxSteps b")
      case False
      then show ?thesis
        using addPacket_behind(1) [OF inv 3(1) len 3(2)] set_packet_old [of b "unat (headSN b - sn)" sn pkt] nc len
        by (simp add: add_error_def not_less)
    next
      case True
      show ?thesis
      proof (cases "lookup b sn")
        case None
        with set_placed [OF inv 3(1) len 3(2) True None] True nc len show ?thesis by (simp add: add_error_def)
      next
        case (Some q)
        then have "at_dist b (unat (headSN b - sn)) = Some q" by (simp add: lookup_def split: if_splits)
        from set_packet_dup [OF inv True this, of sn] addPacket_behind(1) [OF inv 3(1) len 3(2)] Some True nc len
        show ?thesis by (simp add: add_error_def)
      qed
    qed
  qed
qed

end
