(* ===== verification/Bucket_Store.thy ===== *)
theory Bucket_Store
  imports Bucket_View
begin

text \<open>
  The exported operations of the bucket over the client's view, the bucket as an instance of a packet
  store, runs of calls, and the properties of the component.
\<close>


section \<open>Stamping the stored packet\<close>

lemma stamp_slot:
  assumes p: "bk_params b" and ok: "slot_ok b slot" and q: "slot_pkt b slot = Some q" and q': "length q' = length q"
  shows "slot_ok b (take (pktSizeHeader b) slot @ q' @ drop (pktSizeHeader b + length q) slot)"
    and "slot_pkt b (take (pktSizeHeader b) slot @ q' @ drop (pktSizeHeader b + length q) slot) = Some q'"
proof -
  have sz: "uint_codec (pktSizeHeader b) (putSize b) (getSize b)" using p by (simp add: bk_params_def)
  obtain v where v: "getSize b slot = Some v" "v \<noteq> invalidPktSize b" "q = take (unat v) (drop (pktSizeHeader b) slot)"
    using q by (auto simp: slot_pkt_def split: option.splits if_splits)
  have len: "length slot = maxPktSize b + pktSizeHeader b" and le: "unat v \<le> maxPktSize b - pktSizeHeader b"
    using ok v by (auto simp: slot_ok_def slotSize_def)
  have lq: "length q = unat v" using v(3) le len by simp
  let ?f = "take (pktSizeHeader b) slot"
  have "length ?f = pktSizeHeader b" using len by simp
  from uint_codec.get_field [OF sz this, of "q' @ drop (pktSizeHeader b + length q) slot"]
    uint_codec.get_field [OF sz this, of "drop (pktSizeHeader b) slot"]
  have g: "getSize b (?f @ q' @ drop (pktSizeHeader b + length q) slot) = Some v" using v(1) by simp
  show "slot_ok b (?f @ q' @ drop (pktSizeHeader b + length q) slot)"
    using g len le lq q' by (auto simp: slot_ok_def slotSize_def)
  show "slot_pkt b (?f @ q' @ drop (pktSizeHeader b + length q) slot) = Some q'"
    using g len le lq q' v(2) by (simp add: slot_pkt_def)
qed

text \<open>The packet placed in a slot replaced by one of the same length that carries its number.\<close>

lemma placed_replace:
  fixes b b' :: "('e::len, 't::len) bucket"
  assumes inv: "bk_inv b" and pl: "placed b sn q b' idx" and q': "length q' = length q"
    and sn: "pkt_sn b q' = Some (ucast sn :: 't word)"
  defines "slot \<equiv> slots b' ! idx"
  defines "b'' \<equiv> b'\<lparr>slots := (slots b')[idx := take (pktSizeHeader b) slot @ q' @ drop (pktSizeHeader b + length q) slot]\<rparr>"
  shows "bk_inv b''" "same_params b b''" "maxSteps b'' = maxSteps b" "headSN b'' = headSN b'"
    "bk_init b''" "\<not> resyncOnNextPacket b''" "slot_pkt b slot = Some q" "idx < length (slots b')" "slot_ok b slot"
    and "lookup b'' s = (if s = sn then Some q' else if in_window b' s then kept b s else None)"
proof -
  let ?d = "unat (headSN b' - sn)"
  let ?slot' = "take (pktSizeHeader b) slot @ q' @ drop (pktSizeHeader b + length q) slot"
  have wf: "bk_wf b'" and sp: "same_params b b'" and m: "maxSteps b' = maxSteps b" and w: "in_window b' sn"
    and idx: "idx = slot_at b' (bk_step b' - 1 - int ?d)"
    and coh: "\<And>d p. d < maxSteps b \<Longrightarrow> d \<noteq> ?d \<Longrightarrow> at_dist b' d = Some p \<Longrightarrow> pkt_sn b p = Some (ucast (headSN b' - of_nat d))"
    and lk: "\<And>s. lookup b' s = (if s = sn then Some q else if in_window b' s then kept b s else None)"
    and fl: "bk_init b'" "\<not> resyncOnNextPacket b'"
    using pl unfolding placed_def by auto
  note P = same_paramsD [OF sp]
  have p: "bk_params b'" and l: "length (slots b') = maxSteps b'" and m0: "0 < maxSteps b'" using wf by (simp_all add: bk_wf_def)
  show j: "idx < length (slots b')" unfolding idx using l slot_at_less [OF m0] by simp
  have ok: "slot_ok b' slot" using wf j by (simp add: bk_wf_def slot_def)
  then show "slot_ok b slot" by (simp add: P)
  have d: "?d < maxSteps b'" using w by (simp add: in_window_def)
  have "at_dist b' ?d = Some q" using lk [of sn] w by (simp add: lookup_def)
  then have q: "slot_pkt b' slot = Some q" by (simp add: at_dist_def slot_def idx)
  then show "slot_pkt b slot = Some q" by (simp add: P)
  note new = stamp_slot [OF p ok q q', unfolded P]
  have wf'': "bk_wf b''" unfolding b''_def using new(1) by (intro wf_update_slot [OF wf]) (simp add: P)
  have "same_params b' b''" by (simp add: b''_def same_params_def)
  then show sp'': "same_params b b''" using same_params_trans [OF sp] by blast
  show f: "maxSteps b'' = maxSteps b" "headSN b'' = headSN b'" "bk_init b''" "\<not> resyncOnNextPacket b''"
    by (simp_all add: b''_def m fl)
  have at: "at_dist b'' e = (if e = ?d then Some q' else at_dist b' e)" if e: "e < maxSteps b" for e
  proof -
    have "slot_at b' (bk_step b' - 1 - int e) = idx \<longleftrightarrow> int (maxSteps b') dvd int ?d - int e"
      unfolding idx by (simp only: slot_at_eq_iff [OF m0] mod_eq_dvd_iff) (simp del: of_nat_unat)
    also have "\<dots> \<longleftrightarrow> int ?d = int e"
      using e d m by (simp flip: mod_eq_dvd_iff del: of_nat_unat)
    finally have "slot_at b' (bk_step b' - 1 - int e) = idx \<longleftrightarrow> e = ?d" by (metis of_nat_eq_iff)
    then show ?thesis
      using j new(2) by (cases "slot_at b' (bk_step b' - 1 - int e) = idx") (simp_all add: at_dist_def b''_def P)
  qed
  have hd: "headSN b'' - of_nat ?d = sn" by (simp add: f)
  have "pkt_sn b p = Some (ucast (headSN b' - of_nat e))" if "e < maxSteps b" "at_dist b'' e = Some p" for e p
    using that at [OF that(1)] coh [OF that(1)] sn hd f(2) by (cases "e = ?d") auto
  then show "bk_inv b''"
    using wf'' f same_params_pkt_sn [OF sp''] by (simp add: bk_inv_def)
  have w'': "in_window b'' s = in_window b' s" for s by (simp add: in_window_def b''_def)
  have ne: "unat (headSN b' - s) = ?d \<longleftrightarrow> s = sn" by (simp flip: word_unat_eq_iff)
  have "unat (headSN b' - s) < maxSteps b" if "in_window b' s" using that m by (simp add: in_window_def)
  then show "lookup b'' s = (if s = sn then Some q' else if in_window b' s then kept b s else None)"
    using lk [of s] w at ne f(2) by (auto simp: lookup_def w'')
qed

text \<open>What a successful add leaves behind.\<close>

definition added :: "('e::len, 't::len) bucket \<Rightarrow> 'e word \<Rightarrow> byte list \<Rightarrow> ('e, 't) bucket \<Rightarrow> bool" where
  "added b sn q b' \<longleftrightarrow>
     bk_inv b' \<and> same_params b b' \<and> maxSteps b' = maxSteps b \<and> \<not> fresh b' \<and> headSN b' = new_head b sn \<and>
     (\<forall>s. lookup b' s = (if s = sn then Some q else if in_window b' s then kept b s else None))"

lemma placed_added:
  fixes b :: "('e::len, 't::len) bucket"
  assumes inv: "bk_inv b" and pl: "placed b sn q b' idx" and sn: "pkt_sn b q = Some (ucast sn :: 't word)"
  shows "added b sn q b'"
proof -
  note R = placed_replace [OF inv pl refl sn]
  have p: "bk_params b" using bk_inv_params [OF inv] .
  have "take (pktSizeHeader b) (slots b' ! idx) @ q @ drop (pktSizeHeader b + length q) (slots b' ! idx) = slots b' ! idx"
  proof -
    have "drop (pktSizeHeader b) (slots b' ! idx) = q @ drop (pktSizeHeader b + length q) (slots b' ! idx)"
      using slot_size [OF p R(9)] R(7) by auto
    then show ?thesis by (metis append_take_drop_id)
  qed
  then have same: "b'\<lparr>slots := (slots b')[idx := take (pktSizeHeader b) (slots b' ! idx) @ q @ drop (pktSizeHeader b + length q) (slots b' ! idx)]\<rparr> = b'"
    by simp
  have "headSN b' = new_head b sn" using pl by (simp add: placed_def)
  then show ?thesis
    using R(1-6,10) unfolding same added_def fresh_def by blast
qed

section \<open>The exported operations\<close>

lemma AddPacket_addPacket:
  fixes b :: "('e::len, 't::len) bucket"
  assumes inv: "bk_inv b"
  shows "AddPacket b pkt = (case pkt_sn b pkt of None \<Rightarrow> None | Some v \<Rightarrow> addPacket b pkt (ucast v))"
proof -
  have p: "bk_params b" using bk_inv_params [OF inv] .
  have w: "8 * seqNumBytes b = LENGTH('t)" "LENGTH('t) \<le> LENGTH('e)" "LENGTH('e) \<le> 64"
    using p by (auto simp: bk_params_def seqNumBytes_def)
  have "(ucast x :: 'e word) = ucast (ucast x :: 't word)" if "getSeqNum b f = Some x" for f x
  proof -
    have "take_bit LENGTH('t) x = x" using uint_codec.get_bounded [OF seqNum_codec [OF p] that] by (simp add: w)
    then have "bit x n \<Longrightarrow> n < LENGTH('t)" for n by (metis bit_take_bit_iff)
    then show ?thesis using w by (intro bit_word_eqI) (auto simp: bit_simps)
  qed
  then show ?thesis by (auto simp: AddPacket_def pkt_sn_def split: bind_splits)
qed


lemma jump_ok_small: "LENGTH('e::len) \<le> 62 \<Longrightarrow> jump_ok (b :: ('e, 't::len) bucket) sn"
proof -
  assume "LENGTH('e) \<le> 62"
  then have "(2::int) ^ LENGTH('e) \<le> 2 ^ 62" by (intro power_increasing) simp_all
  then show ?thesis using uint_lt2p [of "sn - headSN b"] unfolding jump_ok_def by linarith
qed

lemma AddPacket_spec:
  fixes b :: "('e::len, 't::len) bucket"
  assumes inv: "bk_inv b" and v: "pkt_sn b pkt = Some v" and j: "jump_ok b (ucast v)"
  shows "case add_error b (ucast v) pkt of
      Some e \<Rightarrow> AddPacket b pkt = Some (b, Inl e)
    | None \<Rightarrow> \<exists>b' r. AddPacket b pkt = Some (b', Inr r) \<and> added b (ucast v) pkt b'"
proof -
  have len: "LENGTH('t) \<le> LENGTH('e)" using bk_inv_params [OF inv] by (simp add: bk_params_def)
  have "AddPacket b pkt = addPacket b pkt (ucast v)" using AddPacket_addPacket [OF inv] v by simp
  moreover have "(ucast (ucast v :: 'e word) :: 't word) = v"
    using len by (intro bit_word_eqI) (auto simp: bit_simps)
  ultimately show ?thesis
    using addPacket_spec [OF inv j, of pkt] placed_added [OF inv, of "ucast v" pkt] v
    by (auto split: option.splits)
qed

lemma AddPacketWithSequenceNumber_spec:
  fixes b :: "('e::len, 't::len) bucket"
  assumes inv: "bk_inv b" and j: "jump_ok b sn"
  shows "case add_error b sn pkt of
      Some e \<Rightarrow> AddPacketWithSequenceNumber b pkt sn = Some (b, Inl e)
    | None \<Rightarrow> (case stamped b pkt sn of
        None \<Rightarrow> AddPacketWithSequenceNumber b pkt sn = None
      | Some q \<Rightarrow> \<exists>b' r. AddPacketWithSequenceNumber b pkt sn = Some (b', Inr r) \<and> added b sn q b')"
proof (cases "add_error b sn pkt")
  case (Some e)
  then show ?thesis using addPacket_spec [OF inv j, of pkt] by (simp add: AddPacketWithSequenceNumber_def)
next
  case None
  have p: "bk_params b" using bk_inv_params [OF inv] .
  from addPacket_spec [OF inv j, of pkt] None obtain b1 idx where
    b1: "addPacket b pkt sn = Some (b1, Inr (idx, length pkt))" "placed b sn pkt b1 idx" by auto
  have sp: "same_params b b1" and wf1: "bk_wf b1" and hd: "headSN b1 = new_head b sn"
    using b1(2) by (simp_all add: placed_def)
  note P = same_paramsD [OF sp]
  have m1: "0 < maxSteps b1" "length (slots b1) = maxSteps b1" using wf1 by (simp_all add: bk_wf_def)
  have i: "idx < length (slots b1)" using b1(2) slot_at_less [OF m1(1)] m1(2) by (simp add: placed_def)
  then have ok: "slot_ok b (slots b1 ! idx)" using wf1 by (simp add: bk_wf_def P)
  have "at_dist b1 (unat (headSN b1 - sn)) = Some pkt"
    using b1(2) by (auto simp: placed_def lookup_def split: if_splits)
  then have sl: "slot_pkt b (slots b1 ! idx) = Some pkt" using b1(2) by (simp add: placed_def at_dist_def P)
  from slot_size [OF p ok] sl have
    s: "go_slice (slots b1 ! idx) (pktSizeHeader b) (pktSizeHeader b + length pkt) = Some pkt" by auto
  show ?thesis
  proof (cases "stamped b pkt sn")
    case none: None
    then have "AddPacketWithSequenceNumber b pkt sn = None"
      using b1(1) i s by (auto simp: AddPacketWithSequenceNumber_def stamped_def P split: bind_splits)
    then show ?thesis using None none by simp
  next
    case q: (Some q)
    note Q = stamped_SomeD [OF p q]
    let ?b2 = "b1\<lparr>slots := (slots b1)[idx := take (pktSizeHeader b) (slots b1 ! idx) @ q @
      drop (pktSizeHeader b + length pkt) (slots b1 ! idx)]\<rparr>"
    have "AddPacketWithSequenceNumber b pkt sn = Some (?b2, Inr (idx, length pkt))"
      using b1(1) i s q by (auto simp: AddPacketWithSequenceNumber_def stamped_def P split: bind_splits)
    moreover note R = placed_replace [OF inv b1(2) Q(2,1)]
    have "added b sn q ?b2"
      using R(1-6,10) hd unfolding added_def fresh_def by (simp add: in_window_def)
    ultimately show ?thesis using None q by auto
  qed
qed

lemma GetPacket_spec:
  fixes b :: "('e::len, 't::len) bucket"
  assumes inv: "bk_inv b" and n: "n \<le> length buf"
  shows "GetPacket (Some b) buf n sn = Some
    (if halfRange b < headSN b - sn \<or> uint (headSN b - sn) = 2 ^ 63 then (Inl ErrPacketTooNew, buf)
     else if maxSteps b \<le> unat (headSN b - sn) then (Inl ErrPacketTooOld, buf)
     else case lookup b sn of
       None \<Rightarrow> (Inl ErrPacketSizeInvalid, buf)
     | Some p \<Rightarrow> if length buf < length p then (Inl ErrBufferTooSmall, buf)
                else (Inr (length p), p @ drop (length p) buf))"
proof -
  have h: "halfRange b = push_bit (LENGTH('e) - 1) 1" and e: "LENGTH('e) \<le> 64"
    using bk_inv_params [OF inv] by (simp_all add: bk_params_def)
  have m: "maxSteps b < 2 ^ 62" using bk_inv_wf [OF inv] by (simp add: bk_wf_def)
  have h63: "uint (halfRange b) \<le> 2 ^ 63"
  proof -
    have "(2::int) ^ (LENGTH('e) - 1) \<le> 2 ^ 63" using e by (intro power_increasing) simp_all
    then show ?thesis unfolding h uint_half_range .
  qed
  have copy: "go_copy (take (if n < length p then length p else n) buf) p @ drop (if n < length p then length p else n) buf
      = p @ drop (length p) buf" if "length p \<le> length buf" for p :: "byte list"
  proof (cases "n < length p")
    case True
    then show ?thesis using that by (simp add: go_copy_def)
  next
    case False
    then have "drop n buf = drop (n - length p) (drop (length p) buf)" by simp
    then have "take (n - length p) (drop (length p) buf) @ drop n buf = drop (length p) buf"
      by (metis append_take_drop_id)
    then show ?thesis using False n by (simp add: go_copy_def drop_take)
  qed
  consider "halfRange b < headSN b - sn" | "headSN b - sn \<le> halfRange b" "uint (headSN b - sn) = 2 ^ 63"
    | "headSN b - sn \<le> halfRange b" "uint (headSN b - sn) \<noteq> 2 ^ 63" by fastforce
  then show ?thesis
  proof cases
    case 1
    from behind_head [OF h 1] have lt: "sn - headSN b < halfRange b" by simp
    then have lt': "uint (sn - headSN b) < 2 ^ 63" using h63 by (simp add: word_less_def)
    have "sn - headSN b \<noteq> 0" using 1 by auto
    then have "0 < uint (sn - headSN b)" using uint_ge_0 [of "sn - headSN b"] uint_0_iff by (metis le_less)
    then have "get b sn (- go_int (sn - headSN b)) = Some (Inl ErrPacketTooNew)"
      using lt' by (simp add: get_def go_int_small)
    then show ?thesis using 1 by (simp add: GetPacket_def Let_def)
  next
    case 2
    then have "go_int (headSN b - sn) < 0" unfolding go_int_eq_wrap64 2(2) by (simp add: wrap64_eq)
    then have "get b sn (go_int (headSN b - sn)) = Some (Inl ErrPacketTooNew)" by (simp add: get_def)
    then show ?thesis using 2 leD [OF 2(1)] by (simp add: GetPacket_def Let_def)
  next
    case 3
    then have "uint (headSN b - sn) < 2 ^ 63" using h63 by (simp add: word_le_def)
    then have "go_int (headSN b - sn) = int (unat (headSN b - sn))" by (subst go_int_small) simp_all
    moreover have "lookup b sn = at_dist b (unat (headSN b - sn))" if "unat (headSN b - sn) < maxSteps b"
      using that 3 by (simp add: lookup_def in_window_def)
    moreover have "get b sn (int (unat (headSN b - sn))) = Some (if maxSteps b \<le> unat (headSN b - sn) then Inl ErrPacketTooOld
        else case at_dist b (unat (headSN b - sn)) of None \<Rightarrow> Inl ErrPacketSizeInvalid | Some q \<Rightarrow> Inr q)"
      by (rule get_spec [OF inv]) simp
    ultimately have g: "get b sn (go_int (headSN b - sn)) = Some (if maxSteps b \<le> unat (headSN b - sn) then Inl ErrPacketTooOld
        else case lookup b sn of None \<Rightarrow> Inl ErrPacketSizeInvalid | Some q \<Rightarrow> Inr q)"
      by (cases "maxSteps b \<le> unat (headSN b - sn)") simp_all
    show ?thesis
    proof (cases "maxSteps b \<le> unat (headSN b - sn)")
      case True
      then show ?thesis using g 3 leD [OF 3(1)] by (simp add: GetPacket_def Let_def)
    next
      case False
      then show ?thesis
        using g 3 leD [OF 3(1)] copy by (cases "lookup b sn") (simp_all add: GetPacket_def Let_def)
    qed
  qed
qed

lemma Grow_inv:
  assumes inv: "bk_inv b" and cap: "maxSteps b + initCapacity b < 2 ^ 62"
  shows "\<exists>b'. Grow b = Some (b', maxSteps b') \<and> bk_inv b' \<and> same_params b b' \<and> maxSteps b' = maxSteps b + initCapacity b
    \<and> headSN b' = headSN b \<and> fresh b' = fresh b \<and> lookup b' = lookup b"
proof -
  from Grow_spec [OF bk_inv_wf [OF inv] cap] obtain b' where
    b': "Grow b = Some (b', maxSteps b')" "bk_wf b'" "same_params b b'" "maxSteps b' = maxSteps b + initCapacity b"
    "headSN b' = headSN b" "bk_init b' = bk_init b" "resyncOnNextPacket b' = resyncOnNextPacket b"
    and v: "\<And>d. d < maxSteps b' \<Longrightarrow> at_dist b' d = (if d < maxSteps b then at_dist b d else None)" by blast
  have "lookup b' s = lookup b s" for s
    using v b'(3,4,5) by (auto simp: lookup_def in_window_def same_paramsD)
  moreover have "bk_inv b'"
    using inv b'(2,5,6) v same_params_pkt_sn [OF b'(3)] by (auto simp: bk_inv_def split: if_splits)
  ultimately show ?thesis using b' by (auto simp: fresh_def)
qed

lemma Resync_inv:
  "bk_inv b \<Longrightarrow> bk_inv (ResyncOnNextPacket b) \<and> same_params b (ResyncOnNextPacket b) \<and>
    lookup (ResyncOnNextPacket b) = lookup b \<and> fresh (ResyncOnNextPacket b)"
proof -
  have a: "at_dist (ResyncOnNextPacket b) d = at_dist b d" for d by (simp add: at_dist_def ResyncOnNextPacket_def)
  have sp: "same_params b (ResyncOnNextPacket b)" by (simp add: same_params_def ResyncOnNextPacket_def)
  have "lookup (ResyncOnNextPacket b) s = lookup b s" for s
    unfolding lookup_def in_window_def a by (simp add: ResyncOnNextPacket_def)
  then show "bk_inv b \<Longrightarrow> ?thesis"
    using sp same_params_pkt_sn [OF sp] by (auto simp: bk_inv_def a) (simp_all add: ResyncOnNextPacket_def fresh_def)
qed

lemma NewBucket_inv:
  assumes T: "LENGTH('t::len) \<in> {16, 32, 64}" "LENGTH('t) \<le> LENGTH('e::len)" "LENGTH('e) \<le> 64"
    and cap: "0 < capacity" "capacity < 2 ^ 62" and pkt: "maxPkt \<le> pktSizeLimit" "offset + LENGTH('t) div 8 \<le> maxPkt"
  shows "\<exists>b :: ('e, 't) bucket. NewBucket capacity maxPkt offset = Some (Some b) \<and> bk_inv b \<and> fresh b
    \<and> lookup b = Map.empty \<and> maxSteps b = capacity \<and> initCapacity b = capacity \<and> maxPktSize b = maxPkt \<and> seqNumOffset b = offset"
proof -
  let ?hdr = "if maxPkt < 256 then 1 else if maxPkt < 65536 then 2 else 4 :: nat"
  define b0 :: "('e, 't) bucket" where "b0 = \<lparr>bk_T = TYPE('t), maxPktSize = maxPkt, seqNumOffset = offset, pktSizeHeader = ?hdr,
     invalidPktSize = (if maxPkt < 256 then 0xff else if maxPkt < 65536 then 0xffff else 0xffffffff),
     putSize = (if maxPkt < 256 then put8 else if maxPkt < 65536 then put16 else put32),
     getSize = (if maxPkt < 256 then get8 else if maxPkt < 65536 then get16 else get32),
     putSeqNum = (if LENGTH('t) div 8 = 1 then put8 else if LENGTH('t) div 8 = 2 then put16 else if LENGTH('t) div 8 = 4 then put32 else put64),
     getSeqNum = (if LENGTH('t) div 8 = 1 then get8 else if LENGTH('t) div 8 = 2 then get16 else if LENGTH('t) div 8 = 4 then get32 else get64),
     halfRange = push_bit (LENGTH('e) - 1) 1, slots = [], bk_init = False,
     resyncOnNextPacket = False, bk_step = 0, headSN = 0, initCapacity = capacity, maxSteps = capacity\<rparr>"
  have p: "bk_params b0"
    using T cap pkt c8.uint_codec_axioms c16.uint_codec_axioms c32.uint_codec_axioms c64.uint_codec_axioms
    by (auto simp: bk_params_def b0_def mask_eq_exp_minus_1 pktSizeLimit_def)
  from createSlots_spec [OF p] obtain ss where ss: "createSlots b0 = Some ss" "length ss = capacity"
    "\<And>s. s \<in> set ss \<Longrightarrow> slot_ok b0 s \<and> slot_pkt b0 s = None" by (auto simp: b0_def)
  let ?b = "b0\<lparr>slots := ss\<rparr>"
  have sp: "same_params b0 ?b" by (simp add: same_params_def)
  have wf: "bk_wf ?b" using p ss cap by (auto simp: bk_wf_def same_paramsD [OF sp]) (simp_all add: b0_def)
  have m: "maxSteps b0 = capacity" by (simp add: b0_def)
  have none: "at_dist ?b d = None" for d
    using ss(2,3) slot_at_less [of b0] cap(1) m by (simp add: at_dist_def)
  then have "bk_inv ?b" "lookup ?b = Map.empty" using wf by (auto simp: bk_inv_def lookup_def)
  moreover have "NewBucket capacity maxPkt offset = Some (Some ?b)"
  proof -
    have "NewBucket capacity maxPkt offset = do { ss \<leftarrow> createSlots b0; Some (Some (b0\<lparr>slots := ss\<rparr>)) }"
      using pkt(1) T(1) by (cases "maxPkt < 256"; cases "maxPkt < 65536") (auto simp: NewBucket_def b0_def Let_def)
    then show ?thesis using ss(1) by simp
  qed
  ultimately show ?thesis by (intro exI [of _ ?b]) (simp add: fresh_def b0_def)
qed

section \<open>The bucket as a packet store\<close>

text \<open>
  A client of the bucket: a sequence of calls, each with whether it succeeded, stopping (\<open>None\<close>) where one
  panics. \<open>CAdd\<close> is \<open>AddPacketWithSequenceNumber\<close>, \<open>CAddRaw\<close> is \<open>AddPacket\<close>, which reads the number from the
  packet. \<open>CGrow\<close> beyond the address space cannot be allocated.
\<close>

datatype ('k, 'p) store_call = CAdd 'k 'p | CAddRaw 'p | CResync | CGrow

fun run_calls :: "('c \<Rightarrow> 's \<Rightarrow> ('s \<times> bool) option) \<Rightarrow> 'c list \<Rightarrow> 's \<Rightarrow> 's option" where
  "run_calls exec [] s = Some s"
| "run_calls exec (c # cs) s = do { (s, ok) \<leftarrow> exec c s; run_calls exec cs s }"

text \<open>Every call of the run is made in a state that allows it (as far as the run gets).\<close>

fun run_allowed :: "('s \<Rightarrow> 'c \<Rightarrow> bool) \<Rightarrow> ('c \<Rightarrow> 's \<Rightarrow> ('s \<times> bool) option) \<Rightarrow> 'c list \<Rightarrow> 's \<Rightarrow> bool" where
  "run_allowed allowed exec [] s = True"
| "run_allowed allowed exec (c # cs) s =
    (allowed s c \<and> (case exec c s of None \<Rightarrow> True | Some (s, ok) \<Rightarrow> run_allowed allowed exec cs s))"

definition bucket_exec ::
  "('e::len word, byte list) store_call \<Rightarrow> ('e, 't::len) bucket \<Rightarrow> (('e, 't) bucket \<times> bool) option" where
  "bucket_exec c b = (case c of
      CAdd sn pkt \<Rightarrow> do { (b, res) \<leftarrow> AddPacketWithSequenceNumber b pkt sn; Some (b, \<not> isl res) }
    | CAddRaw pkt \<Rightarrow> do { (b, res) \<leftarrow> AddPacket b pkt; Some (b, \<not> isl res) }
    | CResync \<Rightarrow> Some (ResyncOnNextPacket b, True)
    | CGrow \<Rightarrow> if maxSteps b + initCapacity b < 2 ^ 62 then do { (b, n) \<leftarrow> Grow b; Some (b, True) } else None)"

text \<open>The number \<open>AddPacket\<close> files a packet under.\<close>

definition raw_key :: "('e::len, 't::len) bucket \<Rightarrow> byte list \<Rightarrow> 'e word option" where
  "raw_key b pkt = map_option ucast (pkt_sn b pkt)"

text \<open>No packet is ahead of the head by \<open>2 ^ 62\<close> or more, where the step of the ring could overflow.\<close>

definition jump_allowed :: "('e::len, 't::len) bucket \<Rightarrow> ('e word, byte list) store_call \<Rightarrow> bool" where
  "jump_allowed b c = (case c of
      CAdd sn pkt \<Rightarrow> jump_ok b sn
    | CAddRaw pkt \<Rightarrow> (case raw_key b pkt of None \<Rightarrow> True | Some sn \<Rightarrow> jump_ok b sn)
    | _ \<Rightarrow> True)"

abbreviation jumps_allowed :: "('e::len word, byte list) store_call list \<Rightarrow> ('e, 't::len) bucket \<Rightarrow> bool" where
  "jumps_allowed \<equiv> run_allowed jump_allowed bucket_exec"

lemma jumps_allowed_small:
  assumes "LENGTH('e) \<le> 62"
  shows "jumps_allowed cs (b :: ('e::len, 't::len) bucket)"
proof -
  have a: "jump_allowed b c" for b :: "('e, 't) bucket" and c
    using jump_ok_small [OF assms] by (cases c) (auto simp: jump_allowed_def split: option.splits)
  show ?thesis by (induction cs arbitrary: b) (auto simp: a split: option.splits)
qed

locale packet_store =
  fixes inv :: "'s \<Rightarrow> bool"
    and allowed :: "'s \<Rightarrow> ('k, 'p) store_call \<Rightarrow> bool"
    and exec :: "('k, 'p) store_call \<Rightarrow> 's \<Rightarrow> ('s \<times> bool) option"
    and look :: "'s \<Rightarrow> 'k \<Rightarrow> 'p option"
    and img :: "'s \<Rightarrow> 'p \<Rightarrow> 'k \<Rightarrow> 'p option"
    and key :: "'s \<Rightarrow> 'p \<Rightarrow> 'k option"
  assumes exec_inv: "inv s \<Longrightarrow> allowed s c \<Longrightarrow> exec c s = Some (s', ok) \<Longrightarrow> inv s'"
    and exec_img: "inv s \<Longrightarrow> allowed s c \<Longrightarrow> exec c s = Some (s', ok) \<Longrightarrow> img s' = img s \<and> key s' = key s"
    and look_added: "inv s \<Longrightarrow> allowed s (CAdd k p) \<Longrightarrow> exec (CAdd k p) s = Some (s', True) \<Longrightarrow>
      look s' k = img s p k \<and> img s p k \<noteq> None"
    and look_raw: "inv s \<Longrightarrow> allowed s (CAddRaw p) \<Longrightarrow> exec (CAddRaw p) s = Some (s', True) \<Longrightarrow> key s p = Some k \<Longrightarrow>
      look s' k = Some p"
    and look_other: "inv s \<Longrightarrow> allowed s c \<Longrightarrow> exec c s = Some (s', ok) \<Longrightarrow> (\<And>p. c = CAdd k p \<Longrightarrow> \<not> ok) \<Longrightarrow>
      (\<And>p. c = CAddRaw p \<Longrightarrow> key s p = Some k \<Longrightarrow> \<not> ok) \<Longrightarrow> look s' k = None \<or> look s' k = look s k"
begin

lemma run_inv:
  "inv s \<Longrightarrow> run_allowed allowed exec cs s \<Longrightarrow> run_calls exec cs s = Some s' \<Longrightarrow> inv s' \<and> img s' = img s \<and> key s' = key s"
proof (induction cs arbitrary: s)
  case (Cons c cs)
  from Cons.prems(3) obtain s1 ok where s1: "exec c s = Some (s1, ok)" "run_calls exec cs s1 = Some s'"
    by (auto simp: bind_eq_Some_conv)
  have a: "allowed s c" "run_allowed allowed exec cs s1" using Cons.prems(2) s1(1) by simp_all
  show ?case
    using Cons.IH [OF exec_inv [OF Cons.prems(1) a(1) s1(1)] a(2) s1(2)] exec_img [OF Cons.prems(1) a(1) s1(1)] by simp
qed simp

text \<open>Whatever the store returns under \<open>k\<close> was handed to it under \<open>k\<close>.\<close>

lemma provenance:
  "inv s \<Longrightarrow> run_allowed allowed exec cs s \<Longrightarrow> run_calls exec cs s = Some s' \<Longrightarrow> look s' k = Some q \<Longrightarrow>
    look s k = Some q \<or> (\<exists>p. CAdd k p \<in> set cs \<and> img s p k = Some q) \<or> (CAddRaw q \<in> set cs \<and> key s q = Some k)"
proof (induction cs arbitrary: s)
  case (Cons c cs)
  from Cons.prems(3) obtain s1 ok where s1: "exec c s = Some (s1, ok)" "run_calls exec cs s1 = Some s'"
    by (auto simp: bind_eq_Some_conv)
  have a: "allowed s c" "run_allowed allowed exec cs s1" using Cons.prems(2) s1(1) by simp_all
  have img: "img s1 = img s" "key s1 = key s" using exec_img [OF Cons.prems(1) a(1) s1(1)] by simp_all
  have "look s1 k = Some q \<or> (\<exists>p. CAdd k p \<in> set cs \<and> img s p k = Some q) \<or> (CAddRaw q \<in> set cs \<and> key s q = Some k)"
    using Cons.IH [OF exec_inv [OF Cons.prems(1) a(1) s1(1)] a(2) s1(2) Cons.prems(4)] by (simp add: img)
  moreover have "look s k = Some q \<or> (\<exists>p. c = CAdd k p \<and> img s p k = Some q) \<or> (c = CAddRaw q \<and> key s q = Some k)"
    if q: "look s1 k = Some q"
  proof -
    consider p where "c = CAdd k p" "ok" | p where "c = CAddRaw p" "key s p = Some k" "ok"
      | "\<And>p. c = CAdd k p \<Longrightarrow> \<not> ok" "\<And>p. c = CAddRaw p \<Longrightarrow> key s p = Some k \<Longrightarrow> \<not> ok" by blast
    then show ?thesis
    proof cases
      case 1
      then show ?thesis using look_added [OF Cons.prems(1)] a(1) s1(1) q by auto
    next
      case 2
      then show ?thesis using look_raw [OF Cons.prems(1)] a(1) s1(1) q by auto
    next
      case 3
      have "look s1 k = None \<or> look s1 k = look s k"
        by (rule look_other [OF Cons.prems(1) a(1) s1(1)]) (use 3 in blast)+
      then show ?thesis using q by simp
    qed
  qed
  ultimately show ?case by auto
qed simp

end

lemma bucket_exec_add:
  fixes b :: "('e::len, 't::len) bucket"
  assumes inv: "bk_inv b" and a: "jump_allowed b (CAdd sn pkt)" and e: "bucket_exec (CAdd sn pkt) b = Some (b', ok)"
  shows "(ok \<and> (\<exists>q. stamped b pkt sn = Some q \<and> added b sn q b')) \<or> (\<not> ok \<and> b' = b)"
proof -
  have "jump_ok b sn" using a by (simp add: jump_allowed_def)
  from AddPacketWithSequenceNumber_spec [OF inv this, of pkt] e show ?thesis
    by (auto simp: bucket_exec_def bind_eq_Some_conv split: option.splits)
qed

lemma bucket_exec_raw:
  fixes b :: "('e::len, 't::len) bucket"
  assumes inv: "bk_inv b" and a: "jump_allowed b (CAddRaw pkt)" and e: "bucket_exec (CAddRaw pkt) b = Some (b', ok)"
  shows "\<exists>sn. raw_key b pkt = Some sn \<and> ((ok \<and> added b sn pkt b') \<or> (\<not> ok \<and> b' = b))"
proof -
  obtain v where v: "pkt_sn b pkt = Some v" using e AddPacket_addPacket [OF inv, of pkt]
    by (cases "pkt_sn b pkt") (auto simp: bucket_exec_def)
  then have "jump_ok b (ucast v)" using a by (simp add: jump_allowed_def raw_key_def)
  from AddPacket_spec [OF inv v this] e v show ?thesis
    by (auto simp: bucket_exec_def raw_key_def bind_eq_Some_conv split: option.splits)
qed

interpretation pstore: packet_store bk_inv jump_allowed bucket_exec lookup stamped raw_key
proof
  fix s s' :: "('a::len, 'b::len) bucket" and c k p ok
  assume inv: "bk_inv s" and a: "jump_allowed s c"
  have K: "stamped s' = stamped s \<and> raw_key s' = raw_key s" if "same_params s s'"
    using same_params_stamped [OF that] same_params_pkt_sn [OF that] by (simp add: raw_key_def fun_eq_iff)
  have G: "bk_inv s' \<and> same_params s s' \<and> lookup s' = lookup s" if "bucket_exec CGrow s = Some (s', ok)"
    using that Grow_inv [OF inv] by (auto simp: bucket_exec_def split: if_splits)
  have R: "bk_inv s' \<and> same_params s s' \<and> lookup s' = lookup s" if "bucket_exec CResync s = Some (s', ok)"
    using that Resync_inv [OF inv] by (auto simp: bucket_exec_def)
  show "bk_inv s'" "stamped s' = stamped s \<and> raw_key s' = raw_key s" if e: "bucket_exec c s = Some (s', ok)"
  proof -
    have "bk_inv s' \<and> same_params s s'"
    proof (cases c)
      case (CAdd sn pkt)
      with bucket_exec_add [OF inv a [unfolded CAdd] e [unfolded CAdd]] inv show ?thesis
        by (auto simp: added_def same_params_def)
    next
      case (CAddRaw pkt)
      with bucket_exec_raw [OF inv a [unfolded CAddRaw] e [unfolded CAddRaw]] inv show ?thesis
        by (auto simp: added_def same_params_def)
    qed (use e G R in auto)
    then show "bk_inv s'" "stamped s' = stamped s \<and> raw_key s' = raw_key s" using K by blast+
  qed
  show "lookup s' k = None \<or> lookup s' k = lookup s k"
    if e: "bucket_exec c s = Some (s', ok)" and n: "\<And>p. c = CAdd k p \<Longrightarrow> \<not> ok" "\<And>p. c = CAddRaw p \<Longrightarrow> raw_key s p = Some k \<Longrightarrow> \<not> ok"
  proof (cases c)
    case (CAdd sn pkt)
    with bucket_exec_add [OF inv a [unfolded CAdd] e [unfolded CAdd]] n show ?thesis
      by (auto simp: added_def kept_def)
  next
    case (CAddRaw pkt)
    with bucket_exec_raw [OF inv a [unfolded CAddRaw] e [unfolded CAddRaw]] n show ?thesis
      by (auto simp: added_def kept_def)
  qed (use e G R in auto)
next
  fix s s' :: "('a::len, 'b::len) bucket" and k p
  assume inv: "bk_inv s"
  show "lookup s' k = stamped s p k \<and> stamped s p k \<noteq> None"
    if "jump_allowed s (CAdd k p)" "bucket_exec (CAdd k p) s = Some (s', True)"
    using bucket_exec_add [OF inv that] by (auto simp: added_def)
  show "lookup s' k = Some p"
    if "jump_allowed s (CAddRaw p)" "bucket_exec (CAddRaw p) s = Some (s', True)" "raw_key s p = Some k"
    using bucket_exec_raw [OF inv that(1,2)] that(3) by (auto simp: added_def)
qed

section \<open>Runs of packets in order\<close>

fun add_all :: "('e::len, 't::len) bucket \<Rightarrow> 'e word \<Rightarrow> byte list list \<Rightarrow> ('e, 't) bucket option" where
  "add_all b sn [] = Some b"
| "add_all b sn (p # ps) = do { (b, res) \<leftarrow> AddPacketWithSequenceNumber b p sn; add_all b (sn + 1) ps }"

definition fits :: "('e::len, 't::len) bucket \<Rightarrow> byte list \<Rightarrow> bool" where
  "fits b p \<longleftrightarrow> seqNumOffset b + seqNumBytes b \<le> length p \<and> length p + pktSizeHeader b \<le> maxPktSize b"

lemma same_params_fits: "same_params b b' \<Longrightarrow> fits b' = fits b"
  by (simp add: fits_def fun_eq_iff same_paramsD seqNumBytes_def)

lemma half_ge_1: "bk_params (b :: ('e::len, 't::len) bucket) \<Longrightarrow> 1 \<le> halfRange b"
  using uint_half_range [where 'a='e] by (simp add: bk_params_def word_le_def)

text \<open>The next packet in order is always stored.\<close>

lemma add_next:
  fixes b :: "('e::len, 't::len) bucket"
  assumes inv: "bk_inv b" and sn: "fresh b \<or> sn = headSN b + 1" and p: "fits b p"
    and e1: "1 < LENGTH('e)"
  shows "\<exists>b' r q. AddPacketWithSequenceNumber b p sn = Some (b', Inr r) \<and> stamped b p sn = Some q \<and> added b sn q b'
    \<and> headSN b' = sn"
proof -
  have pr: "bk_params b" using bk_inv_params [OF inv] .
  have one: "uint (1 :: 'e word) = 1" by simp
  have j: "jump_ok b sn" using sn one by (auto simp: jump_ok_def)
  have ne: "(1 :: 'e word) \<noteq> 0" by simp
  have err: "add_error b sn p = None" and nh: "new_head b sn = sn"
    using sn p half_ge_1 [OF pr] by (auto simp: add_error_def fits_def new_head_def)
  obtain q where q: "stamped b p sn = Some q" using stamped_defined [OF pr] p by (auto simp: fits_def)
  from AddPacketWithSequenceNumber_spec [OF inv j, of p] err q nh show ?thesis by (auto simp: added_def)
qed

lemma add_all_snoc:
  "add_all b sn (ps @ [p]) = do {
     b \<leftarrow> add_all b sn ps;
     (b, res) \<leftarrow> AddPacketWithSequenceNumber b p (sn + of_nat (length ps)); Some b }"
  by (induction ps arbitrary: b sn) (auto simp: add.assoc split: bind_splits prod.splits)

definition recent :: "('e::len, 't::len) bucket \<Rightarrow> nat \<Rightarrow> bool" where
  "recent b k \<longleftrightarrow> k < maxSteps b \<and> int k < uint (halfRange b)"

lemma recent_in_window:
  fixes b :: "('e::len, 't::len) bucket"
  assumes "recent b k" "headSN b - s = of_nat k"
  shows "in_window b s" "k \<noteq> 0 \<Longrightarrow> s \<noteq> headSN b"
proof -
  have k: "int k < 2 ^ LENGTH('e)" using assms(1) uint_lt2p [of "halfRange b"] unfolding recent_def by linarith
  then have "int k < int (2 ^ LENGTH('e))" by simp
  then have "k < 2 ^ LENGTH('e)" by (simp only: of_nat_less_iff)
  then have u: "unat (of_nat k :: 'e word) = k" by (simp add: unat_of_nat take_bit_nat_eq_self)
  have ui: "uint (of_nat k :: 'e word) = int k" using u by (metis of_nat_unat ucast_id)
  show "in_window b s" using assms u ui by (simp add: in_window_def recent_def word_le_def)
  show "s \<noteq> headSN b" if "k \<noteq> 0" using assms(2) u that by auto
qed

lemma add_all_spec:
  fixes b :: "('e::len, 't::len) bucket"
  assumes e1: "1 < LENGTH('e)" and inv: "bk_inv b" and sn: "fresh b \<or> sn = headSN b + 1" and ps: "list_all (fits b) ps"
  shows "\<exists>b'. add_all b sn ps = Some b' \<and> bk_inv b' \<and> maxSteps b' = maxSteps b \<and> same_params b b' \<and>
      (\<forall>i < length ps. recent b (length ps - i - 1) \<longrightarrow>
         lookup b' (sn + of_nat i) = stamped b (ps ! i) (sn + of_nat i)) \<and>
      (if ps = [] then b' = b else headSN b' + 1 = sn + of_nat (length ps) \<and> \<not> fresh b')"
  using ps
proof (induction ps rule: rev_induct)
  case Nil
  then show ?case using inv by (auto simp: same_params_def)
next
  case (snoc p ps)
  let ?n = "length ps"
  from snoc obtain b1 where b1: "add_all b sn ps = Some b1" "bk_inv b1" "maxSteps b1 = maxSteps b" "same_params b b1"
    and l1: "\<And>i. i < ?n \<Longrightarrow> recent b (?n - i - 1) \<Longrightarrow> lookup b1 (sn + of_nat i) = stamped b (ps ! i) (sn + of_nat i)"
    and h1: "if ps = [] then b1 = b else headSN b1 + 1 = sn + of_nat ?n \<and> \<not> fresh b1"
    by auto
  have st: "fresh b1 \<or> sn + of_nat ?n = headSN b1 + 1" using h1 sn by (cases "ps = []") auto
  have fit: "fits b1 p" using snoc.prems b1(4) by (simp add: same_params_fits)
  from add_next [OF b1(2) st fit e1] obtain b2 r q where
    b2: "AddPacketWithSequenceNumber b1 p (sn + of_nat ?n) = Some (b2, Inr r)" "stamped b1 p (sn + of_nat ?n) = Some q"
    "added b1 (sn + of_nat ?n) q b2" "headSN b2 = sn + of_nat ?n" by blast
  have a: "bk_inv b2" "same_params b1 b2" "maxSteps b2 = maxSteps b1" "\<not> fresh b2"
    and lk: "\<And>s. lookup b2 s = (if s = sn + of_nat ?n then Some q else if in_window b2 s then kept b1 s else None)"
    using b2(3) by (auto simp: added_def)
  have sp: "same_params b b2" using same_params_trans [OF b1(4) a(2)] .
  have "lookup b2 (sn + of_nat i) = stamped b ((ps @ [p]) ! i) (sn + of_nat i)"
    if i: "i < length (ps @ [p])" "recent b (length (ps @ [p]) - i - 1)" for i
  proof (cases "i = ?n")
    case True
    then show ?thesis using lk b2(2) same_params_stamped [OF b1(4)] by simp
  next
    case False
    then have lt: "i < ?n" using i(1) by simp
    then have ne: "ps \<noteq> []" by auto
    have r: "recent b2 (?n - i)" using i(2) lt a(3) b1(3) same_paramsD(13) [OF sp] by (simp add: recent_def)
    have "headSN b2 - (sn + of_nat i) = of_nat (?n - i)" using lt by (simp add: b2(4) of_nat_diff)
    from recent_in_window [OF r this] have w: "in_window b2 (sn + of_nat i)" "sn + of_nat i \<noteq> sn + of_nat ?n"
      using lt b2(4) by auto
    have "recent b (?n - i - 1)" using i(2) by (auto simp: recent_def)
    from l1 [OF lt this] h1 ne w show ?thesis using lk lt by (simp add: kept_def nth_append)
  qed
  moreover have "add_all b sn (ps @ [p]) = Some b2" using b1(1) b2(1) by (simp add: add_all_snoc)
  ultimately show ?case using a sp b1(3) b2(4) by auto
qed


section \<open>Properties\<close>

text \<open>
  A new bucket is empty, coherent and has the requested capacity; \<open>NewBucket\<close> does not panic for
  supported field widths, and a packet size over the limit gives the nil bucket.
\<close>

theorem new_bucket:
  assumes T: "LENGTH('t::len) \<in> {16, 32, 64}" "LENGTH('t) \<le> LENGTH('e::len)" "LENGTH('e) \<le> 64"
    and cap: "0 < capacity" "capacity < 2 ^ 62" and pkt: "offset + LENGTH('t) div 8 \<le> maxPkt"
  shows "\<exists>bo :: ('e, 't) bucket option. NewBucket capacity maxPkt offset = Some bo \<and>
    (case bo of
       None \<Rightarrow> maxPkt > pktSizeLimit
     | Some b \<Rightarrow> maxPkt \<le> pktSizeLimit \<and> bk_inv b \<and> fresh b \<and> Capacity b = capacity \<and> (\<forall>sn. lookup b sn = None))"
proof (cases "maxPkt \<le> pktSizeLimit")
  case True
  from NewBucket_inv [OF T cap True pkt] show ?thesis using True by (auto simp: Capacity_def)
next
  case False
  then show ?thesis by (simp add: NewBucket_def)
qed

text \<open>
  C4. \<open>AddPacketWithSequenceNumber\<close> on every branch: it reports exactly the error \<open>add_error\<close> names and then
  changes nothing; it panics only on a packet too short for its number; otherwise the stamped packet
  is what the store holds under \<open>sn\<close>, every other number within reach keeps its packet (none survives
  the first packet after a resync), and no number gains one.
\<close>

theorem add_packet_stamped:
  fixes b :: "('e::len, 't::len) bucket"
  assumes "bk_inv b" "jump_ok b sn"
  shows "case add_error b sn pkt of
      Some e \<Rightarrow> AddPacketWithSequenceNumber b pkt sn = Some (b, Inl e)
    | None \<Rightarrow> (case stamped b pkt sn of
        None \<Rightarrow> AddPacketWithSequenceNumber b pkt sn = None
      | Some q \<Rightarrow> \<exists>b' r. AddPacketWithSequenceNumber b pkt sn = Some (b', Inr r) \<and> bk_inv b' \<and>
          HeadSequenceNumber b' = new_head b sn \<and>
          (\<forall>s. lookup b' s = (if s = sn then Some q else if in_window b' s then kept b s else None)))"
  using AddPacketWithSequenceNumber_spec [OF assms, of pkt]
  by (auto simp: added_def HeadSequenceNumber_def split: option.splits)

text \<open>
  \<open>AddPacket\<close> takes the number from the packet: it panics exactly on a packet too short to hold one,
  and otherwise behaves as an add under that number.
\<close>

theorem add_packet:
  fixes b :: "('e::len, 't::len) bucket"
  assumes inv: "bk_inv b" and j: "LENGTH('e) \<le> 62"
  shows "(AddPacket b pkt = None \<longleftrightarrow> length pkt < seqNumOffset b + LENGTH('t) div 8) \<and>
    (\<forall>v. pkt_sn b pkt = Some v \<longrightarrow>
      (case add_error b (ucast v) pkt of
        Some e \<Rightarrow> AddPacket b pkt = Some (b, Inl e)
      | None \<Rightarrow> \<exists>b' r. AddPacket b pkt = Some (b', Inr r) \<and> bk_inv b' \<and>
          (\<forall>s. lookup b' s = (if s = ucast v then Some pkt else if in_window b' s then kept b s else None))))"
proof -
  have spec: "case add_error b (ucast v) pkt of
        Some e \<Rightarrow> AddPacket b pkt = Some (b, Inl e)
      | None \<Rightarrow> \<exists>b' r. AddPacket b pkt = Some (b', Inr r) \<and> added b (ucast v) pkt b'" if "pkt_sn b pkt = Some v" for v
    by (rule AddPacket_spec [OF inv that jump_ok_small [OF j]])
  have "AddPacket b pkt \<noteq> None" if "pkt_sn b pkt = Some v" for v
    using spec [OF that] by (cases "add_error b (ucast v) pkt") auto
  then have "AddPacket b pkt = None \<longleftrightarrow> pkt_sn b pkt = None"
    using AddPacket_addPacket [OF inv, of pkt] by (cases "pkt_sn b pkt") auto
  moreover have "pkt_sn b pkt = None \<longleftrightarrow> length pkt < seqNumOffset b + LENGTH('t) div 8"
    using pkt_sn_length [OF bk_inv_params [OF inv], of pkt] by (cases "pkt_sn b pkt") (auto simp: seqNumBytes_def)
  ultimately show ?thesis
    using spec by (auto simp: added_def split: option.splits)
qed

text \<open>
  \<open>GetPacket\<close> exactly: what is copied out is the packet stored under the number, and each error
  has its one cause. It never panics, never reports a mismatch and never writes on failure.
\<close>

theorem get_packet:
  fixes b :: "('e::len, 't::len) bucket"
  assumes "bk_inv b" "n \<le> length buf"
  shows "GetPacket (Some b) buf n sn = Some
    (if halfRange b < headSN b - sn \<or> uint (headSN b - sn) = 2 ^ 63 then (Inl ErrPacketTooNew, buf)
     else if maxSteps b \<le> unat (headSN b - sn) then (Inl ErrPacketTooOld, buf)
     else case lookup b sn of
       None \<Rightarrow> (Inl ErrPacketSizeInvalid, buf)
     | Some p \<Rightarrow> if length buf < length p then (Inl ErrBufferTooSmall, buf)
                else (Inr (length p), p @ drop (length p) buf))"
  by (rule GetPacket_spec [OF assms])

text \<open>
  C5. \<open>Grow\<close> adds the initial capacity and loses nothing: every number holds the packet it held.
\<close>

theorem grow_keeps_packets:
  assumes "bk_inv b" "Capacity b + initCapacity b < 2 ^ 62"
  shows "\<exists>b'. Grow b = Some (b', Capacity b') \<and> bk_inv b' \<and> Capacity b' = Capacity b + initCapacity b \<and>
    HeadSequenceNumber b' = HeadSequenceNumber b \<and> (\<forall>sn. lookup b' sn = lookup b sn)"
  using Grow_inv [of b] assms by (auto simp: Capacity_def HeadSequenceNumber_def)

text \<open>
  C6. Over any sequence of calls on a new bucket that does not panic, adds with a given number
  (\<open>AddPacketWithSequenceNumber\<close>) and with the packet's own (\<open>AddPacket\<close>), resyncs and growths, whatever
  \<open>GetPacket\<close> returns under a number is a packet that had been added under that number: with the number written
  in it in the first case, as it came and showing that number in the second. With numbers of more than 62 bits no
  packet may be ahead of the head by \<open>2 ^ 62\<close> or more, except the first one and the first after a resync.
\<close>

theorem bucket_provenance:
  fixes b :: "('e::len, 't::len) bucket"
  assumes T: "LENGTH('t) \<in> {16, 32, 64}" "LENGTH('t) \<le> LENGTH('e)" "LENGTH('e) \<le> 64"
    and cap: "0 < capacity" "capacity < 2 ^ 62" and pkt: "maxPkt \<le> pktSizeLimit" "offset + LENGTH('t) div 8 \<le> maxPkt"
    and new: "NewBucket capacity maxPkt offset = Some (Some b)"
    and jumps: "LENGTH('e) \<le> 62 \<or> jumps_allowed cs b"
    and run: "run_calls bucket_exec cs b = Some b'"
    and got: "GetPacket (Some b') buf n sn = Some (Inr len, buf')" "n \<le> length buf"
  shows "\<exists>q. ((\<exists>p. CAdd sn p \<in> set cs \<and> stamped b p sn = Some q) \<or> (CAddRaw q \<in> set cs \<and> raw_key b q = Some sn)) \<and>
    len = length q \<and> take len buf' = q"
proof -
  have b: "bk_inv b" "lookup b sn = None"
    using NewBucket_inv [where 't='t and 'e='e, OF T cap pkt] new by auto
  have j: "jumps_allowed cs b" using jumps jumps_allowed_small by blast
  have inv': "bk_inv b'" using pstore.run_inv [OF b(1) j run] by simp
  obtain q where q: "lookup b' sn = Some q" "len = length q" "buf' = q @ drop (length q) buf"
    using got GetPacket_spec [OF inv' got(2), of sn] by (auto split: if_splits option.splits)
  from pstore.provenance [OF b(1) j run q(1)] b(2) q(2,3) show ?thesis by auto
qed

text \<open>
  C8. Retention: after any number of packets added in order, each of the last \<open>Capacity\<close> of them (up
  to half the number range) is retrievable, stamped with its number.
\<close>

theorem bucket_retention:
  fixes b :: "('e::len, 't::len) bucket"
  assumes "1 < LENGTH('e)" "bk_inv b" "fresh b \<or> sn = HeadSequenceNumber b + 1" "list_all (fits b) ps"
  shows "\<exists>b'. add_all b sn ps = Some b' \<and> bk_inv b' \<and>
    (\<forall>i < length ps. length ps - i \<le> Capacity b \<longrightarrow> int (length ps - i) \<le> uint (halfRange b) \<longrightarrow>
       lookup b' (sn + of_nat i) = stamped b (ps ! i) (sn + of_nat i) \<and> lookup b' (sn + of_nat i) \<noteq> None)"
proof -
  from add_all_spec [OF assms(1,2) assms(3) [unfolded HeadSequenceNumber_def] assms(4)] obtain b' where
    b': "add_all b sn ps = Some b'" "bk_inv b'"
    and l: "\<And>i. i < length ps \<Longrightarrow> recent b (length ps - i - 1) \<Longrightarrow>
      lookup b' (sn + of_nat i) = stamped b (ps ! i) (sn + of_nat i)" by blast
  have "stamped b (ps ! i) s \<noteq> None" if "i < length ps" for i s
    using stamped_defined [OF bk_inv_params [OF assms(2)], of "ps ! i" s] assms(4) that
    by (auto simp: list_all_length fits_def)
  moreover have "recent b (length ps - i - 1)"
    if "i < length ps" "length ps - i \<le> Capacity b" "int (length ps - i) \<le> uint (halfRange b)" for i
    using that by (simp add: recent_def Capacity_def of_nat_diff)
  ultimately show ?thesis using b' l by metis
qed

section \<open>Witnesses\<close>

lemma sample_bucket:
  "\<exists>b :: (32, 16) bucket. NewBucket 4 100 2 = Some (Some b) \<and> bk_inv b \<and> fresh b \<and> initCapacity b = 4 \<and> maxSteps b = 4
    \<and> pktSizeHeader b = 1 \<and> seqNumOffset b = 2 \<and> maxPktSize b = 100"
proof -
  obtain b :: "(32, 16) bucket" where b: "NewBucket 4 100 2 = Some (Some b)" "bk_inv b \<and> fresh b \<and> initCapacity b = 4 \<and> maxSteps b = 4
     \<and> seqNumOffset b = 2 \<and> maxPktSize b = 100"
    using NewBucket_inv [where 't=16 and 'e=32, of 4 100 2] by (auto simp: pktSizeLimit_def)
  moreover have "pktSizeHeader b = 1" using b(1) by (auto simp: NewBucket_def Let_def pktSizeLimit_def bind_eq_Some_conv)
  ultimately show ?thesis by blast
qed

theorem new_bucket_witness:
  "\<exists>bo :: (32, 16) bucket option. NewBucket 4 100 2 = Some bo \<and>
    (case bo of
       None \<Rightarrow> 100 > pktSizeLimit
     | Some b \<Rightarrow> 100 \<le> pktSizeLimit \<and> bk_inv b \<and> fresh b \<and> Capacity b = 4 \<and> (\<forall>sn. lookup b sn = None))"
  by (rule new_bucket) simp_all

theorem add_packet_stamped_witness:
  "\<exists>b b' :: (32, 16) bucket. \<exists>r. bk_inv b \<and> AddPacketWithSequenceNumber b [128, 96, 0, 0, 7] 70000 = Some (b', Inr r)
     \<and> bk_inv b' \<and> HeadSequenceNumber b' = 70000"
proof -
  from sample_bucket obtain b :: "(32, 16) bucket" where b: "bk_inv b" "fresh b" "pktSizeHeader b = 1"
    "seqNumOffset b = 2" "maxPktSize b = 100" by blast
  have "\<exists>q. stamped b [128, 96, 0, 0, 7] 70000 = Some q"
    using b by (simp add: stamped_defined [OF bk_inv_params] seqNumBytes_def)
  moreover have "add_error b 70000 [128, 96, 0, 0, 7] = None" "new_head b 70000 = 70000"
    using b by (simp_all add: add_error_def new_head_def)
  ultimately obtain b' r where "AddPacketWithSequenceNumber b [128, 96, 0, 0, 7] 70000 = Some (b', Inr r)"
    "bk_inv b'" "HeadSequenceNumber b' = 70000"
    using add_packet_stamped [OF b(1) jump_ok_small, of "[128, 96, 0, 0, 7]" 70000] by auto
  with b(1) show ?thesis by blast
qed

theorem add_packet_witness:
  "\<exists>b :: (32, 16) bucket. bk_inv b \<and> AddPacket b [128, 96, 5] = None \<and> AddPacket b [128, 96, 0, 5, 9] \<noteq> None"
proof -
  from sample_bucket obtain b :: "(32, 16) bucket" where b: "bk_inv b" "seqNumOffset b = 2" by blast
  then show ?thesis
    using add_packet [OF b(1), of "[128, 96, 5]"] add_packet [OF b(1), of "[128, 96, 0, 5, 9]"] by auto
qed

theorem get_packet_witness:
  "\<exists>b :: (32, 16) bucket. bk_inv b \<and> GetPacket (Some b) [0, 0, 0] 2 (headSN b) = Some (Inl ErrPacketSizeInvalid, [0, 0, 0])"
proof -
  from sample_bucket new_bucket [where 't=16 and 'e=32, of 4 2 100]
  obtain b :: "(32, 16) bucket" where b: "bk_inv b" "lookup b (headSN b) = None" "maxSteps b = 4"
    by (auto split: option.splits)
  show ?thesis using get_packet [OF b(1), of 2 "[0, 0, 0]" "headSN b"] b by (auto simp: leD)
qed

theorem grow_keeps_packets_witness:
  "\<exists>b b' :: (32, 16) bucket. bk_inv b \<and> Grow b = Some (b', 8) \<and> (\<forall>sn. lookup b' sn = lookup b sn)"
proof -
  from sample_bucket obtain b :: "(32, 16) bucket" where b: "bk_inv b" "initCapacity b = 4" "maxSteps b = 4" by blast
  then show ?thesis using grow_keeps_packets [OF b(1)] by (auto simp: Capacity_def)
qed

lemma new_bucket_fields:
  assumes "NewBucket 4 100 2 = Some (Some (b :: (64, 16) bucket))"
  shows "pktSizeHeader b = 1 \<and> seqNumOffset b = 2 \<and> maxPktSize b = 100 \<and> maxSteps b = 4"
  using assms by (auto simp: NewBucket_def Let_def pktSizeLimit_def bind_eq_Some_conv)

text \<open>A 64-bit bucket: one packet under a number beyond the 62-bit range, one under its own number.\<close>

lemma sample_run64:
  obtains b b1 b2 :: "(64, 16) bucket" and q where "NewBucket 4 100 2 = Some (Some b)"
    "run_calls bucket_exec [CAdd 0xF000000000000000 [1, 2, 3, 4, 5]] b = Some b1"
    "jumps_allowed [CAdd 0xF000000000000000 [1, 2, 3, 4, 5]] b"
    "bk_inv b1" "headSN b1 = 0xF000000000000000" "maxSteps b1 = 4" "lookup b1 0xF000000000000000 = Some q" "length q = 5"
proof -
  obtain b :: "(64, 16) bucket" where b: "NewBucket 4 100 2 = Some (Some b)" "bk_inv b" "fresh b"
    using NewBucket_inv [where 't=16 and 'e=64, of 4 100 2] by (auto simp: pktSizeLimit_def)
  note F = new_bucket_fields [OF b(1)]
  let ?p = "[1, 2, 3, 4, 5 :: byte]" and ?n = "0xF000000000000000 :: 64 word"
  from add_next [of b ?n ?p] b F obtain b1 r q where
    b1: "AddPacketWithSequenceNumber b ?p ?n = Some (b1, Inr r)" "stamped b ?p ?n = Some q" "added b ?n q b1" "headSN b1 = ?n"
    by (auto simp: fits_def seqNumBytes_def)
  have "run_calls bucket_exec [CAdd ?n ?p] b = Some b1" using b1(1) by (simp add: bucket_exec_def)
  moreover have "jumps_allowed [CAdd ?n ?p] b" using b(3) b1(1) by (simp add: jump_allowed_def jump_ok_def bucket_exec_def)
  moreover have "length q = 5" using stamped_SomeD(2) [OF bk_inv_params [OF b(2)] b1(2)] by simp
  moreover have "lookup b1 ?n = Some q" "bk_inv b1" "maxSteps b1 = 4" using b1(3) F by (auto simp: added_def)
  ultimately show thesis using b(1) b1(4) that by blast
qed

theorem bucket_provenance_witness:
  "\<exists>b b' :: (64, 16) bucket. \<exists>buf'. run_calls bucket_exec [CAdd 0xF000000000000000 [1, 2, 3, 4, 5]] b = Some b' \<and>
    GetPacket (Some b') (replicate 9 0) 9 0xF000000000000000 = Some (Inr 5, buf') \<and>
    stamped b [1, 2, 3, 4, 5] 0xF000000000000000 = Some (take 5 buf')"
proof -
  obtain b b' :: "(64, 16) bucket" and q where
    b: "NewBucket 4 100 2 = Some (Some b)" "run_calls bucket_exec [CAdd 0xF000000000000000 [1, 2, 3, 4, 5]] b = Some b'"
      "jumps_allowed [CAdd 0xF000000000000000 [1, 2, 3, 4, 5]] b" "bk_inv b'" "headSN b' = 0xF000000000000000" "maxSteps b' = 4"
      "lookup b' 0xF000000000000000 = Some q" "length q = 5" by (rule sample_run64)
  have get: "GetPacket (Some b') (replicate 9 0) 9 0xF000000000000000 = Some (Inr 5, q @ drop 5 (replicate 9 0))"
    using b(5-8) by (subst GetPacket_spec [OF b(4)]) (simp_all add: leD)
  from bucket_provenance [where offset = 2 and maxPkt = 100, OF _ _ _ _ _ _ _ b(1) disjI2 [OF b(3)] b(2) get]
  have "stamped b [1, 2, 3, 4, 5] 0xF000000000000000 = Some (take 5 (q @ drop 5 (replicate 9 0)))"
    by (simp add: pktSizeLimit_def)
  with b(2) get show ?thesis by (intro exI conjI)
qed

definition sample_pkts :: "byte list list" where
  "sample_pkts = [[1, 2, 3, 4], [1, 2, 3, 4], [1, 2, 3, 4, 5], [6, 7, 8, 9], [1, 2, 3, 4]]"

theorem bucket_retention_witness:
  "\<exists>b b' :: (32, 16) bucket. add_all b 65534 sample_pkts = Some b' \<and>
    lookup b' 65536 = stamped b [1, 2, 3, 4, 5] 65536 \<and> lookup b' 65536 \<noteq> None"
proof -
  from sample_bucket obtain b :: "(32, 16) bucket" where b: "bk_inv b" "fresh b"
    "pktSizeHeader b = 1" "seqNumOffset b = 2" "maxPktSize b = 100" "maxSteps b = 4" by blast
  have h: "uint (halfRange b) = 2147483648"
    using bk_inv_params [OF b(1)] uint_half_range [where 'a=32] by (simp add: bk_params_def)
  have fit: "list_all (fits b) sample_pkts"
    using b by (simp add: fits_def seqNumBytes_def sample_pkts_def)
  have "fresh b \<or> 65534 = HeadSequenceNumber b + 1" using b(2) by simp
  from bucket_retention [OF _ b(1) this fit] obtain b' where b': "add_all b 65534 sample_pkts = Some b'"
    and l: "\<forall>i < length sample_pkts. length sample_pkts - i \<le> Capacity b \<longrightarrow>
      int (length sample_pkts - i) \<le> uint (halfRange b) \<longrightarrow>
      lookup b' (65534 + of_nat i) = stamped b (sample_pkts ! i) (65534 + of_nat i) \<and> lookup b' (65534 + of_nat i) \<noteq> None"
    by auto
  have "length sample_pkts = 5" "sample_pkts ! 2 = [1, 2, 3, 4, 5]" by (simp_all add: sample_pkts_def)
  then show ?thesis using b' l [rule_format, of 2] b(6) h by (auto simp: Capacity_def)
qed


abbreviation grows :: "('k, 'p) store_call list \<Rightarrow> nat" where
  "grows cs \<equiv> length (filter (\<lambda>c. c = CGrow) cs)"

lemma run_calls_total:
  fixes b :: "('e::len, 't::len) bucket"
  shows "bk_inv b \<Longrightarrow> jumps_allowed cs b \<Longrightarrow> maxSteps b + grows cs * initCapacity b < 2 ^ 62 \<Longrightarrow>
    \<forall>c p. c \<in> set cs \<longrightarrow> (\<exists>sn. c = CAdd sn p) \<or> c = CAddRaw p \<longrightarrow> seqNumOffset b + seqNumBytes b \<le> length p \<Longrightarrow>
    \<exists>b'. run_calls bucket_exec cs b = Some b' \<and> bk_inv b' \<and> same_params b b' \<and> maxSteps b' = maxSteps b + grows cs * initCapacity b"
proof (induction cs arbitrary: b)
  case Nil
  then show ?case by (simp add: same_params_def)
next
  case (Cons c cs)
  note i = Cons.prems(1)
  have a: "jump_allowed b c" using Cons.prems(2) by simp
  have "\<exists>b1 ok. bucket_exec c b = Some (b1, ok) \<and> bk_inv b1 \<and> same_params b b1 \<and>
      maxSteps b1 = maxSteps b + (if c = CGrow then initCapacity b else 0)"
  proof (cases c)
    case (CAdd sn p)
    have j: "jump_ok b sn" using a CAdd by (simp add: jump_allowed_def)
    have "stamped b p sn \<noteq> None" using Cons.prems(4) CAdd stamped_defined [OF bk_inv_params [OF i], of p sn] by auto
    then show ?thesis using AddPacketWithSequenceNumber_spec [OF i j, of p] i CAdd
      by (auto simp: bucket_exec_def added_def same_params_def split: option.splits)
  next
    case (CAddRaw p)
    obtain v where v: "pkt_sn b p = Some v" using Cons.prems(4) CAddRaw pkt_sn_length [OF bk_inv_params [OF i], of p] by auto
    have j: "jump_ok b (ucast v)" using a CAddRaw v by (simp add: jump_allowed_def raw_key_def)
    show ?thesis using AddPacket_spec [OF i v j] i CAddRaw
      by (auto simp: bucket_exec_def added_def same_params_def split: option.splits)
  next
    case CResync
    then show ?thesis using i Resync_inv [of b] by (auto simp: bucket_exec_def ResyncOnNextPacket_def)
  next
    case CGrow
    have "maxSteps b + initCapacity b < 2 ^ 62" using Cons.prems(3) CGrow by simp
    then show ?thesis using i CGrow Grow_inv [of b] by (auto simp: bucket_exec_def)
  qed
  then obtain b1 ok where b1: "bucket_exec c b = Some (b1, ok)" "bk_inv b1" "same_params b b1"
    "maxSteps b1 = maxSteps b + (if c = CGrow then initCapacity b else 0)" by blast
  have f: "initCapacity b1 = initCapacity b" "seqNumOffset b1 = seqNumOffset b" "seqNumBytes b1 = seqNumBytes b"
    using b1(3) by (simp_all add: same_paramsD seqNumBytes_def)
  have s: "maxSteps b1 + grows cs * initCapacity b = maxSteps b + grows (c # cs) * initCapacity b"
    using b1(4) by (cases "c = CGrow") simp_all
  have "jumps_allowed cs b1" using Cons.prems(2) b1(1) by simp
  moreover have "\<forall>c p. c \<in> set cs \<longrightarrow> (\<exists>sn. c = CAdd sn p) \<or> c = CAddRaw p \<longrightarrow> seqNumOffset b1 + seqNumBytes b1 \<le> length p"
    using Cons.prems(4) f by simp
  moreover have "maxSteps b1 + grows cs * initCapacity b1 < 2 ^ 62" using Cons.prems(3) f s by simp
  ultimately obtain b' where "run_calls bucket_exec cs b1 = Some b'" "bk_inv b'" "same_params b1 b'"
    "maxSteps b' = maxSteps b1 + grows cs * initCapacity b"
    using Cons.IH [OF b1(2)] unfolding f(1) by blast
  then show ?case using b1(1) s same_params_trans [OF b1(3)] by auto
qed

text \<open>
  C7. A sequence of calls on a new bucket panics only where a packet is too short for its number: when every packet
  added, with \<open>AddPacketWithSequenceNumber\<close> or \<open>AddPacket\<close>, is long enough to hold one, memory lasts, and, with
  numbers of more than 62 bits, no packet but the first one and the first after a resync is ahead of the head by
  \<open>2 ^ 62\<close> or more, every call returns. The memory of the bucket then keeps its shape: as many slots as its
  capacity, the initial one and once as much again for every \<open>Grow\<close>, all of one size; the step inside them; every
  slot either marked invalid or with a size that fits; and every packet that can be found under a number carries it.
\<close>

theorem bucket_well_formed:
  fixes b :: "('e::len, 't::len) bucket"
  assumes T: "LENGTH('t) \<in> {16, 32, 64}" "LENGTH('t) \<le> LENGTH('e)" "LENGTH('e) \<le> 64"
    and cap: "0 < capacity" "(grows cs + 1) * capacity < 2 ^ 62" and pkt: "maxPkt \<le> pktSizeLimit" "offset + LENGTH('t) div 8 \<le> maxPkt"
    and new: "NewBucket capacity maxPkt offset = Some (Some b)"
    and jumps: "LENGTH('e) \<le> 62 \<or> jumps_allowed cs b"
    and fit: "\<forall>sn p. CAdd sn p \<in> set cs \<longrightarrow> offset + LENGTH('t) div 8 \<le> length p"
      "\<forall>p. CAddRaw p \<in> set cs \<longrightarrow> offset + LENGTH('t) div 8 \<le> length p"
  shows "\<exists>b'. run_calls bucket_exec cs b = Some b' \<and> maxSteps b' = (grows cs + 1) * capacity \<and>
    length (slots b') = maxSteps b' \<and> 0 \<le> bk_step b' \<and> bk_step b' < int (maxSteps b') \<and>
    (\<forall>slot \<in> set (slots b'). length slot = maxPkt + pktSizeHeader b \<and>
      (\<exists>sz. getSize b' slot = Some sz \<and> (sz = invalidPktSize b' \<or> unat sz \<le> maxPkt - pktSizeHeader b))) \<and>
    (\<forall>sn q. lookup b' sn = Some q \<longrightarrow> pkt_sn b' q = Some (ucast sn))"
proof -
  have b: "bk_inv b" "maxSteps b = capacity" "initCapacity b = capacity" "maxPktSize b = maxPkt" "seqNumOffset b = offset"
    using NewBucket_inv [where 't='t and 'e='e, OF T cap(1) _ pkt] cap(2) new by auto
  have j: "jumps_allowed cs b" using jumps jumps_allowed_small by blast
  from run_calls_total [OF b(1) j] b cap(2) fit obtain b' where
    b': "run_calls bucket_exec cs b = Some b'" "bk_inv b'" "same_params b b'" "maxSteps b' = (grows cs + 1) * capacity"
    by (auto simp: seqNumBytes_def)
  have p: "pktSizeHeader b' = pktSizeHeader b" "maxPktSize b' = maxPkt" using b'(3) b(4) by (simp_all add: same_paramsD)
  have wf: "length (slots b') = maxSteps b'" "0 \<le> bk_step b'" "bk_step b' < int (maxSteps b')" "\<forall>slot \<in> set (slots b'). slot_ok b' slot"
    using bk_inv_wf [OF b'(2)] by (simp_all add: bk_wf_def)
  have "\<exists>sz. getSize b' slot = Some sz \<and> (sz = invalidPktSize b' \<or> unat sz \<le> maxPkt - pktSizeHeader b)" if "slot_ok b' slot" for slot
    using that slot_size [OF bk_inv_params [OF b'(2)] that] p by (auto simp: slot_ok_def)
  moreover have "pkt_sn b' q = Some (ucast sn)" if "lookup b' sn = Some q" for sn q
    using that b'(2) by (auto simp: lookup_def in_window_def bk_inv_def split: if_splits)
  ultimately show ?thesis using b' wf p by (intro exI [of _ b']) (auto simp: slot_ok_def slotSize_def)
qed

theorem bucket_well_formed_witness:
  "\<exists>b b' :: (32, 16) bucket. NewBucket 4 100 2 = Some (Some b) \<and>
    run_calls bucket_exec [CAdd 5 [1, 2, 3, 4, 5], CAddRaw [1, 2, 0, 7], CGrow, CResync, CAdd 900 [1, 2, 3, 4]] b = Some b' \<and>
    length (slots b') = 8 \<and> (\<forall>slot \<in> set (slots b'). length slot = 101)"
proof -
  from sample_bucket obtain b :: "(32, 16) bucket" where b: "NewBucket 4 100 2 = Some (Some b)" "pktSizeHeader b = 1" by blast
  let ?cs = "[CAdd 5 [1, 2, 3, 4, 5], CAddRaw [1, 2, 0, 7], CGrow, CResync, CAdd 900 [1, 2, 3, 4]] :: (32 word, byte list) store_call list"
  have "grows ?cs = 1" by simp
  with b bucket_well_formed [of 4 ?cs 100 2 b] show ?thesis
    by (auto simp: pktSizeLimit_def simp del: run_calls.simps)
qed

end
