(* ===== verification/Retransmission.thy ===== *)
theory Retransmission
  imports Nack Bucket_Store
begin

text \<open>
  The NACK queue of a receiver (\<^verbatim>\<open>pkg/nack\<close>) and the packet bucket of its sender (\<^verbatim>\<open>pkg/bucket\<close>) together, both
  with 16-bit numbers: what the receiver asks for after a burst of losses is what the sender can still send again.
\<close>

section \<open>A burst in the queue\<close>

text \<open>The entries of the numbers \<open>e - n\<close> to \<open>e - 1\<close>, each with the time it was pushed at.\<close>

definition burst :: "(nat \<Rightarrow> int) \<Rightarrow> u16 \<Rightarrow> nat \<Rightarrow> nack list" where
  "burst clock e n = map (\<lambda>i. newNack (clock i) (e - of_nat i)) (rev [1..<Suc n])"

lemma burst_Suc: "burst clock e (Suc n) = newNack (clock (Suc n)) (e - of_nat (Suc n)) # burst clock e n"
  by (simp add: burst_def)

lemma burst_0 [simp]: "burst clock e 0 = []"
  by (simp add: burst_def)

lemma length_burst [simp]: "length (burst clock e n) = n"
  by (simp add: burst_def del: upt_Suc)

lemma burst_sns: "map seqNum (burst clock e n) = before e n"
proof (induction n)
  case (Suc n)
  then show ?case by (simp add: burst_Suc before_Suc newNack_def del: of_nat_Suc)
qed (simp add: before_def)

lemma burst_mem: "x \<in> set (burst clock e n) \<Longrightarrow> \<exists>i \<in> {1..n}. x = newNack (clock i) (e - of_nat i)"
  by (auto simp: burst_def)

lemma push_range_loop_room:
  "length (nacks q) + n \<le> q_cap q \<Longrightarrow> push_range_loop q clock e n = Some (q\<lparr>nacks := nacks q @ burst clock e n\<rparr>)"
proof (induction n arbitrary: q)
  case (Suc n)
  then have "Push q (clock (Suc n)) (e - of_nat (Suc n)) = Some (q\<lparr>nacks := nacks q @ [newNack (clock (Suc n)) (e - of_nat (Suc n))]\<rparr>)"
    by (simp add: Push_def del: of_nat_Suc)
  then show ?case using Suc by (simp add: burst_Suc del: of_nat_Suc)
qed simp

text \<open>The queue may send an entry for the first time \<open>minInterval\<close> after its push and until its life time is over.\<close>

definition timely :: "nackParams \<Rightarrow> (nat \<Rightarrow> int) \<Rightarrow> int \<Rightarrow> (nat \<Rightarrow> int) \<Rightarrow> nat \<Rightarrow> bool" where
  "timely p clock now since n \<longleftrightarrow> 0 < maxTries p \<and>
    (\<forall>i \<in> {1..n}. max 0 (minInterval p) \<le> time_sub now (clock i) \<and> (\<forall>k < n. time_sub (since k) (clock i) \<le> maxLifeTime p))"

lemma getNack_new:
  assumes "0 < maxTries p" "max 0 (minInterval p) \<le> time_sub now t" "time_sub since t \<le> maxLifeTime p"
  shows "getNack p (newNack t s) now since rtt = (True, False, s, (newNack t s)\<lparr>tries := 1, lastNackedAt := now\<rparr>)"
proof -
  have "requiredInterval p 0 rtt = max 0 (minInterval p)" by (simp add: requiredInterval_def)
  moreover have "\<not> time_sub now t < max 0 (minInterval p)" "maxTries p \<noteq> 0" using assms by auto
  ultimately show ?thesis using assms(3) by (simp add: getNack_def newNack_def)
qed

lemma burst_parts:
  assumes "0 < maxTries p"
    and "\<And>x k. x \<in> set ns \<Longrightarrow> k < i + length ns \<Longrightarrow> \<exists>t s. x = newNack t s \<and> max 0 (minInterval p) \<le> time_sub now t \<and> time_sub (since k) t \<le> maxLifeTime p"
  shows "sent_sns p now since rtt i ns = map seqNum ns \<and> purged_sns p now since rtt i ns = []"
  using assms(2)
proof (induction ns arbitrary: i)
  case (Cons x ns)
  obtain t s where "x = newNack t s" "max 0 (minInterval p) \<le> time_sub now t" "time_sub (since i) t \<le> maxLifeTime p"
    using Cons.prems [of x i] by auto
  from getNack_new [OF assms(1) this(2,3), of s rtt] this(1)
  have "getNack p x now (since i) rtt = (True, False, seqNum x, x\<lparr>tries := 1, lastNackedAt := now\<rparr>)" by (simp add: newNack_def)
  then show ?case using Cons.IH [of "Suc i"] Cons.prems by simp
qed simp

lemma before_range:
  assumes "n \<le> j"
  shows "before (sn + of_nat j) n = map (\<lambda>i. sn + of_nat i) [j - n..<j]"
proof -
  have "[j - n..<j] = map (\<lambda>i. i + (j - n)) [0..<n]" using map_add_upt [of "j - n" n] assms by (simp add: add.commute)
  moreover have "sn + of_nat j - of_nat (n - i) = sn + of_nat (i + (j - n))" if "i < n" for i
    using that assms by (simp add: of_nat_diff)
  ultimately show ?thesis by (simp add: before_def)
qed

lemma distinct_range:
  assumes "n \<le> j" "n \<le> 32768"
  shows "distinct (before (sn + of_nat j) n)"
proof -
  have "inj_on (\<lambda>i. sn + of_nat i :: u16) {j - n..<j}"
  proof (rule inj_onI)
    fix i k assume i: "i \<in> {j - n..<j}" and k: "k \<in> {j - n..<j}" and "sn + of_nat i = sn + (of_nat k :: u16)"
    then have "(of_nat (i - (j - n)) :: u16) = of_nat (k - (j - n))" by (simp add: of_nat_diff)
    moreover have "i - (j - n) < 2 ^ 16" "k - (j - n) < 2 ^ 16" using i k assms by auto
    ultimately have "i - (j - n) = k - (j - n)" by (simp add: word_of_nat_eq_iff take_bit_nat_eq_self)
    then show "i = k" using i k by auto
  qed
  then show ?thesis unfolding before_range [OF assms(1)] by (simp add: distinct_map)
qed

text \<open>The whole burst is asked for at once, and stays until it arrives.\<close>

lemma burst_requested:
  assumes q: "nacks q = []" and n: "n = min (unat cnt) (q_cap q)" "0 < n" "n \<le> 32768" and "n \<le> j"
    and t: "timely (q_nackParams q) clock now since n"
  shows "\<exists>q1 ps q2. PushRange q clock (sn + of_nat j) cnt = Some q1 \<and> Pairs q1 now since = ((ps, n), q2) \<and>
    requested ps = (\<lambda>i. sn + of_nat i) ` {j - n..<j} \<and> map seqNum (nacks q2) = map (\<lambda>i. sn + of_nat i) [j - n..<j]"
proof -
  let ?e = "sn + of_nat j" let ?B = "burst clock ?e n" let ?p = "q_nackParams q"
  define q1 where "q1 = q\<lparr>nacks := ?B\<rparr>"
  have push: "PushRange q clock ?e cnt = Some q1"
    using push_range_loop_room [of q n clock ?e] n q by (simp add: PushRange_def q1_def)
  obtain n' where n': "n = Suc n'" using n(2) by (cases n) auto
  let ?ns = "burst clock ?e n'"
  have ns: "nacks q1 = newNack (clock n) (?e - of_nat n) # ?ns" by (simp add: q1_def n' burst_Suc del: of_nat_Suc)
  have parts: "sent_sns ?p now since (q_rtt q) 0 ?B = map seqNum ?B \<and> purged_sns ?p now since (q_rtt q) 0 ?B = []"
    using t by (intro burst_parts) (auto simp: timely_def dest!: burst_mem)
  have far: "\<forall>x \<in> set ?ns. 17 \<le> seqNum x - seqNum (newNack (clock n) (?e - of_nat n)) + 17"
  proof
    fix x assume "x \<in> set ?ns"
    then obtain i where i: "i \<in> {1..n'}" "x = newNack (clock i) (?e - of_nat i)" using burst_mem by blast
    have "seqNum x - seqNum (newNack (clock n) (?e - of_nat n)) + 17 = of_nat (n - i + 17)"
      using i n' by (simp add: newNack_def of_nat_diff)
    moreover have "(17 :: u16) \<le> of_nat k" if "17 \<le> k" "k < 2 ^ 16" for k
      using that by (simp add: word_le_nat_alt unat_of_nat take_bit_nat_eq_self)
    from this [of "n - i + 17"] n(3) have "(17 :: u16) \<le> of_nat (n - i + 17)" by simp
    ultimately show "17 \<le> seqNum x - seqNum (newNack (clock n) (?e - of_nat n)) + 17" by simp
  qed
  have f: "q_nackParams q1 = ?p" "q_rtt q1 = q_rtt q" "nacks q1 = ?B" by (simp_all add: q1_def)
  from Pairs_in_order [OF ns far, of now since] obtain ps where
    "Pairs q1 now since = ((ps, n), q1\<lparr>nacks := stepped ?p now since (q_rtt q) 0 ?B\<rparr>)" "requested ps = set (map seqNum ?B)"
    unfolding f using parts by auto
  with push show ?thesis by (auto simp: burst_sns before_range [OF \<open>n \<le> j\<close>])
qed

section \<open>A burst in the bucket\<close>

lemma sent_again:
  fixes b :: "(16, 16) bucket"
  assumes b: "bk_inv b" "fresh b \<or> sn = headSN b + 1" "list_all (fits b) pkts"
  shows "\<exists>b'. add_all b sn pkts = Some b' \<and>
    (\<forall>i < length pkts. length pkts - i \<le> maxSteps b \<longrightarrow> length pkts - i \<le> 32768 \<longrightarrow>
      (\<exists>p. stamped b (pkts ! i) (sn + of_nat i) = Some p \<and> length p = length (pkts ! i) \<and>
        (\<forall>buf. length p \<le> length buf \<longrightarrow>
          GetPacket (Some b') buf (length buf) (sn + of_nat i) = Some (Inr (length p), p @ drop (length p) buf))))"
proof -
  from add_all_spec [OF _ b] obtain b' where b': "add_all b sn pkts = Some b'" "bk_inv b'" "same_params b b'"
    and l: "\<And>i. i < length pkts \<Longrightarrow> recent b (length pkts - i - 1) \<Longrightarrow> lookup b' (sn + of_nat i) = stamped b (pkts ! i) (sn + of_nat i)"
    by auto
  have p: "bk_params b" using bk_inv_params [OF b(1)] .
  have h: "halfRange b = 0x8000" using p by (simp add: bk_params_def)
  have "\<exists>p. stamped b (pkts ! i) (sn + of_nat i) = Some p \<and> length p = length (pkts ! i) \<and>
      (\<forall>buf. length p \<le> length buf \<longrightarrow>
        GetPacket (Some b') buf (length buf) (sn + of_nat i) = Some (Inr (length p), p @ drop (length p) buf))"
    if i: "i < length pkts" "length pkts - i \<le> maxSteps b" "length pkts - i \<le> 32768" for i
  proof -
    have "seqNumOffset b + seqNumBytes b \<le> length (pkts ! i)" using b(3) i(1) by (simp add: list_all_length fits_def)
    then obtain p' where p': "stamped b (pkts ! i) (sn + of_nat i) = Some p'" using stamped_defined [OF p] by blast
    have "length pkts - i - 1 < maxSteps b" "length pkts - i - 1 < 32768" using i by linarith+
    then have "recent b (length pkts - i - 1)" by (simp add: recent_def h del: diff_diff_left)
    from l [OF i(1) this] have lk: "lookup b' (sn + of_nat i) = Some p'" by (simp add: p')
    then have w: "in_window b' (sn + of_nat i)" by (simp add: lookup_def split: if_splits)
    have h': "halfRange b' = 0x8000" using bk_inv_params [OF b'(2)] by (simp add: bk_params_def)
    have "uint (headSN b' - (sn + of_nat i)) < 2 ^ 16" using uint_lt2p [of "headSN b' - (sn + of_nat i)"] by simp
    then have "uint (headSN b' - (sn + of_nat i)) \<noteq> 2 ^ 63" by simp
    with w h' have "\<not> (halfRange b' < headSN b' - (sn + of_nat i) \<or> uint (headSN b' - (sn + of_nat i)) = 2 ^ 63)"
      "\<not> maxSteps b' \<le> unat (headSN b' - (sn + of_nat i))" by (simp_all add: in_window_def leD)
    then have "GetPacket (Some b') buf (length buf) (sn + of_nat i) = Some (Inr (length p'), p' @ drop (length p') buf)"
      if "length p' \<le> length buf" for buf
      using GetPacket_spec [OF b'(2) order_refl, of buf "sn + of_nat i"] that by (simp add: lk)
    then show ?thesis using p' stamped_SomeD(2) [OF p p'] by blast
  qed
  with b'(1) show ?thesis by blast
qed

section \<open>Together\<close>

text \<open>
  C9. A burst of losses is made good. A sender keeps its packets in a bucket; its receiver notices that the \<open>cnt\<close> packets
  before the \<open>j\<close>-th are missing and pushes them on its empty queue; it keeps the last of them if there are more than it has room for. As soon as
  the queue may send, one call of \<open>Pairs\<close> asks for all it kept and nothing else, and each of them that is among the
  last \<open>Capacity\<close> packets sent (and within half the numbers) is still in the bucket, with its number. Whichever of them arrive and are removed, exactly the
  others remain in the queue.
\<close>

theorem burst_retransmitted:
  fixes b :: "(16, 16) bucket"
  assumes "bk_inv b" "fresh b \<or> sn = HeadSequenceNumber b + 1" "list_all (fits b) pkts"
    and "nacks q = []" "n = min (unat cnt) (q_cap q)" "0 < n" "n \<le> 32768" "n \<le> j" "j \<le> length pkts"
    and "timely (q_nackParams q) clock now since n"
  shows "\<exists>b' q1 ps q2. add_all b sn pkts = Some b' \<and> PushRange q clock (sn + of_nat j) cnt = Some q1 \<and>
    Pairs q1 now since = ((ps, n), q2) \<and> requested ps = (\<lambda>i. sn + of_nat i) ` {j - n..<j} \<and>
    (\<forall>i \<in> {j - n..<j}. length pkts - i \<le> min (Capacity b) 32768 \<longrightarrow>
      (\<exists>p. stamped b (pkts ! i) (sn + of_nat i) = Some p \<and> length p = length (pkts ! i) \<and>
        (\<forall>buf. length p \<le> length buf \<longrightarrow>
          GetPacket (Some b') buf (length buf) (sn + of_nat i) = Some (Inr (length p), p @ drop (length p) buf)))) \<and>
    (\<forall>arrived. map seqNum (nacks (fold (\<lambda>s q. Remove q s) arrived q2)) =
      filter (\<lambda>s. s \<notin> set arrived) (map (\<lambda>i. sn + of_nat i) [j - n..<j]))"
proof -
  from sent_again [OF assms(1) _ assms(3), of sn] assms(2) obtain b' where b': "add_all b sn pkts = Some b'"
    and g: "\<And>i. i < length pkts \<Longrightarrow> length pkts - i \<le> maxSteps b \<Longrightarrow> length pkts - i \<le> 32768 \<Longrightarrow>
      \<exists>p. stamped b (pkts ! i) (sn + of_nat i) = Some p \<and> length p = length (pkts ! i) \<and>
        (\<forall>buf. length p \<le> length buf \<longrightarrow>
          GetPacket (Some b') buf (length buf) (sn + of_nat i) = Some (Inr (length p), p @ drop (length p) buf))"
    by (auto simp: HeadSequenceNumber_def)
  from burst_requested [OF assms(4-8,10), of sn] obtain q1 ps q2 where q: "PushRange q clock (sn + of_nat j) cnt = Some q1"
    "Pairs q1 now since = ((ps, n), q2)" "requested ps = (\<lambda>i. sn + of_nat i) ` {j - n..<j}"
    and ns: "map seqNum (nacks q2) = before (sn + of_nat j) n" unfolding before_range [OF assms(8)] by blast
  have d: "distinct (map seqNum (nacks q2))" unfolding ns using distinct_range [OF assms(8,7)] .
  have "map seqNum (nacks (fold (\<lambda>s q. Remove q s) arrived q2)) = filter (\<lambda>s. s \<notin> set arrived) (before (sn + of_nat j) n)" for arrived
    unfolding fold_remove_distinct [OF d] by (simp add: filter_map comp_def flip: ns)
  with b' q g assms(9) show ?thesis unfolding before_range [OF assms(8)] by (intro exI [of _ b'] exI [of _ q1] exI [of _ ps] exI [of _ q2]) (auto simp: Capacity_def)
qed

text \<open>
  Packets 65534 to 2 of a bucket of four, 65535 and 0 lost, and the default queue after 20 ms; 0 arrives.
\<close>

definition burst_pkts :: "byte list list" where
  "burst_pkts = [[1, 2, 3, 4], [1, 2, 3, 4, 5], [1, 2, 3, 4, 6], [6, 7, 8, 9], [1, 2, 3, 4]]"

theorem burst_retransmitted_witness:
  "\<exists>(b :: (16, 16) bucket) b' q1 ps q2 p. NewBucket 4 100 2 = Some (Some b) \<and> add_all b 65534 burst_pkts = Some b' \<and>
    PushRange (NewNACKQueue NackQueueParamsDefault) (\<lambda>_. 0) 1 2 = Some q1 \<and>
    Pairs q1 20000000 (\<lambda>_. 20000000) = ((ps, 2), q2) \<and> requested ps = {65535, 0} \<and>
    stamped b [1, 2, 3, 4, 5] 65535 = Some p \<and> GetPacket (Some b') (replicate 5 0) 5 65535 = Some (Inr 5, p) \<and>
    map seqNum (nacks (Remove q2 0)) = [65535]"
proof -
  obtain b :: "(16, 16) bucket" where b: "NewBucket 4 100 2 = Some (Some b)" "bk_inv b" "fresh b" "maxSteps b = 4" "maxPktSize b = 100" "seqNumOffset b = 2"
    using NewBucket_inv [where 't=16 and 'e=16, of 4 100 2] by (auto simp: pktSizeLimit_def)
  have h: "pktSizeHeader b = 1" using b(1) by (auto simp: NewBucket_def Let_def pktSizeLimit_def bind_eq_Some_conv)
  have fit: "list_all (fits b) burst_pkts" using b h by (simp add: burst_pkts_def fits_def seqNumBytes_def)
  let ?q = "NewNACKQueue NackQueueParamsDefault"
  have tm: "timely (q_nackParams ?q) (\<lambda>_. 0) 20000000 (\<lambda>_. 20000000) 2"
    by (simp add: timely_def NewNACKQueue_def NackQueueParamsDefault_def time_sub_def)
  have r: "{3 - 2..<3} = {1, 2 :: nat}" "[3 - 2..<3] = [1, 2 :: nat]" by (auto simp: upt_rec)
  have z: "(65536 :: u16) = 0" by simp
  have s: "(\<lambda>i. 65534 + of_nat i :: u16) ` {1, 2} = {65535, 0}" "map (\<lambda>i. 65534 + of_nat i :: u16) [1, 2] = [65535, 0]" by (simp_all add: z)
  have c: "2 = min (unat (2 :: u64)) (q_cap ?q)" "nacks ?q = []" by (simp_all add: NewNACKQueue_def NackQueueParamsDefault_def)
  have j: "3 \<le> length burst_pkts" by (simp add: burst_pkts_def)
  have m: "0 < (2 :: nat)" "2 \<le> (32768 :: nat)" "2 \<le> (3 :: nat)" by simp_all
  have e: "65534 + of_nat 3 = (1 :: u16)" by simp
  from burst_retransmitted [OF b(2) disjI1 [OF b(3)] fit c(2,1) m j tm, of 65534, unfolded r s e]
  obtain b' q1 ps q2 where B: "add_all b 65534 burst_pkts = Some b'" "PushRange ?q (\<lambda>_. 0) 1 2 = Some q1"
    "Pairs q1 20000000 (\<lambda>_. 20000000) = ((ps, 2), q2)" "requested ps = {65535, 0}"
    and g: "\<forall>i \<in> {1, 2}. length burst_pkts - i \<le> min (Capacity b) 32768 \<longrightarrow>
      (\<exists>p. stamped b (burst_pkts ! i) (65534 + of_nat i) = Some p \<and> length p = length (burst_pkts ! i) \<and>
        (\<forall>buf. length p \<le> length buf \<longrightarrow>
          GetPacket (Some b') buf (length buf) (65534 + of_nat i) = Some (Inr (length p), p @ drop (length p) buf)))"
    and rm: "\<forall>arrived. map seqNum (nacks (fold (\<lambda>s q. Remove q s) arrived q2)) = filter (\<lambda>s. s \<notin> set arrived) [65535, 0]"
    by blast
  have "length burst_pkts - 1 \<le> min (Capacity b) 32768" "burst_pkts ! 1 = [1, 2, 3, 4, 5]" "65534 + of_nat 1 = (65535 :: u16)"
    using b(4) by (simp_all add: burst_pkts_def Capacity_def)
  with g [THEN bspec, of 1] obtain p where p: "stamped b [1, 2, 3, 4, 5] 65535 = Some p" "length p = 5"
    and gp: "\<forall>buf. length p \<le> length buf \<longrightarrow> GetPacket (Some b') buf (length buf) 65535 = Some (Inr (length p), p @ drop (length p) buf)"
    by auto
  have "GetPacket (Some b') (replicate 5 0) 5 65535 = Some (Inr 5, p)" using gp [THEN spec, of "replicate 5 0"] p(2) by simp
  moreover have "map seqNum (nacks (Remove q2 0)) = [65535]" using rm [THEN spec, of "[0]"] by simp
  ultimately show ?thesis using b(1) B p(1) by (intro exI conjI)
qed

end
