(* ===== verification/Spec2Isabelle.thy ===== *)
theory Spec2Isabelle
  imports Wraparound Red Ntp Vp8 Sps_Written Keyframe Owd No_Queue Leaky_Bucket Socket_Buffer External_IP Xr Twcc Retransmission
begin

text \<open>
  \<^bold>\<open>The program.\<close> \<^verbatim>\<open>mediatransportutil\<close> is the Go library on which LiveKit's media servers build: small stateful
  components for RTP streams (unwrapping sequence numbers, keeping packets for retransmission, asking for lost packets,
  recovering redundant audio, estimating delays, pacing), parsers for codec payloads, and the set-up of a node's network
  side (configuration, addresses, UDP muxes). The components are independent of each other except where an import below
  says otherwise; a server holds one instance per stream or node and calls its operations.

  \<^bold>\<open>Conventions\<close> (theory \<open>Go_Prelude\<close>). Integers have their Go width as words, or are \<open>int\<close> with the wrap-around
  written out (\<open>wrap64\<close>) where signed arithmetic and division are mixed; a call that panics or never returns is the value
  \<open>None\<close>; an error result is \<open>Inl\<close> of a constructor, or a pair with the receiver when a method changes it before it fails;
  a struct is a record and a method takes the receiver and returns it changed. \<open>Go_Time\<close> holds the saturating difference of
  times and \<open>Go_Float\<close> rounding to \<open>float64\<close>; clock readings, ticks and the choices of the scheduler are arguments or events.

  \<^bold>\<open>Theories and code\<close> (all paths under \<^verbatim>\<open>src/\<close>).
  \<^item> \<open>Wraparound\<close>: \<^verbatim>\<open>pkg/utils/wraparound.go\<close>, generic in both number types. The tracker refines an unbounded span of
    numbers (\<open>update_refines\<close>, \<open>feed_span\<close>), through the coherence invariant of its reachable states.
  \<^item> \<open>Bucket\<close>, \<open>Bucket_Ring\<close>, \<open>Bucket_View\<close>, \<open>Bucket_Store\<close>: \<^verbatim>\<open>pkg/bucket\<close>. The definitions, the ring as packets at
    distances behind the head, the client's view as packets under numbers, and the exported operations as an instance of
    a packet store (a locale), with its properties over any run of calls, both ways of adding included.
  \<^item> \<open>Nack\<close>: \<^verbatim>\<open>pkg/nack/nack.go\<close>. What \<open>Pairs\<close> requests, the equivalence of pushing a range and its last part, bounds.
  \<^item> \<open>Red\<close>: \<^verbatim>\<open>pkg/red/red.go\<close>. Round trip with a sender's payload, the history bits, recovery of a whole stream.
  \<^item> \<open>Ntp\<close>: \<^verbatim>\<open>helpers.go\<close>. Time conversion and the round-trip time of a report.
  \<^item> \<open>Vp8\<close>: \<^verbatim>\<open>pkg/codec/vp8.go\<close> and \<^verbatim>\<open>pkg/codec/helpers.go\<close>. Totality and round trip of the payload descriptor.
  \<^item> \<open>Bits\<close>, \<open>Sps\<close>, \<open>Nal\<close>, \<open>Sps_Written\<close>: \<^verbatim>\<open>pkg/codec/h26xhelper.go\<close>. The bit reader as a list of bits, parameter sets,
    and the sizes read back from parameter sets written field by field. Sets with scaling lists, which the code misreads, are
    written too but are the hypothesis \<open>scaling_skipped\<close> of the H.264 theorem.
  \<^item> \<open>Keyframe\<close>: \<^verbatim>\<open>pkg/codec/keyframe.go\<close>. Detection against payloads built as the RTP payload formats say and, for
    AV1, OBUs and frame headers as the bitstream has them; the lemmas \<open>mtap_second_unit_missed\<close>, \<open>av1_extension_misread\<close> and
    \<open>av1_size_misread\<close> show payloads that are misjudged.
  \<^item> \<open>Owd\<close>: \<^verbatim>\<open>pkg/latency/owd_estimator.go\<close>. The range of the estimate, with the initial adjustment, and when a
    change of the path is taken up.
  \<^item> \<open>Pacer\<close>, \<open>No_Queue\<close>, \<open>Leaky_Bucket\<close>: \<^verbatim>\<open>pkg/pacer\<close>. Sending one packet, and the two pacers with a goroutine as step
    relations whose steps are the lock regions and channel operations of clients and workers.
  \<^item> \<open>Net_IP\<close>, \<open>Net_Text\<close>, \<open>Net_CIDR\<close>: what the code uses of Go's \<^verbatim>\<open>net\<close>, \<^verbatim>\<open>strconv\<close> and \<^verbatim>\<open>strings\<close> packages, with the
    round trip of printing and parsing addresses and the meaning of masks.
  \<^item> \<open>Transport\<close>: \<^verbatim>\<open>pkg/transport\<close>. Local addresses, creation of muxes, round robin over ports.
  \<^item> \<open>Rtc_Config\<close>: \<^verbatim>\<open>pkg/rtcconfig/config.go\<close> and the choice of the node's address in \<^verbatim>\<open>pkg/rtcconfig/ip.go\<close>.
  \<^item> \<open>External_IP\<close>: the STUN lookup of the external address in \<^verbatim>\<open>pkg/rtcconfig/ip.go\<close> as a step relation over its
    goroutines and the reading caller. What an address returned has gone through, what the wait group counts, that it ends.
  \<^item> \<open>Webrtc_Config\<close>: \<^verbatim>\<open>pkg/rtcconfig/webrtc_config.go\<close>, the calls made on the setting engine of \<^verbatim>\<open>pion/webrtc\<close>: networks,
    filters, the muxes and what they listen on, and the address mapping collected from lookups that report in any order. It calls
    \<open>Transport\<close> (the muxes are made by \<open>CreateUDPMuxesFromPorts\<close> itself), \<open>Rtc_Config\<close> and the networks of \<open>Net_CIDR\<close>.
  \<^item> \<open>Xr\<close>: \<^verbatim>\<open>pkg/interceptor/rttfromxr.go\<close>. The streams bound and the round trip of two interceptors, with the times of \<open>Ntp\<close>.
  \<^item> \<open>Twcc\<close>: \<^verbatim>\<open>pkg/twcc/twcc.go\<close>. When reports are made and how many packets they cover, for any recorder.
  \<^item> \<open>Socket_Buffer\<close>: \<^verbatim>\<open>pkg/rtcconfig/rtc_unix.go\<close> and \<^verbatim>\<open>rtc_windows.go\<close>, the check of the receive buffer.
  \<^item> \<open>Retransmission\<close>: the NACK queue of a receiver together with the bucket of its sender. What is asked for after a burst of
    losses is what can still be sent again.

  \<^bold>\<open>Code outside the repository.\<close> What \<^verbatim>\<open>pion\<close> and the system do is an argument: functions for sockets, muxes, buffers and
  recorders, lists of arrivals for what a \<open>select\<close> takes, and for goroutines a choice that comes with each step (what a call
  returned, which case was ready). A theorem about all runs holds for all of them.

  \<^bold>\<open>Interfaces.\<close> Locales state what a client relies on: a component with an invariant (interpreted by the tracker of
  \<open>Wraparound\<close> and the estimator of \<open>Owd\<close>), a packet store (the bucket), a queue of losses (the NACK queue), a codec of
  numbers and a source of bits (the bit reader). The client's lemmas are proved in the locale and used through the
  interpretations.

  \<^bold>\<open>Bounds and fuel.\<close> Loops are structural recursions, functions with a measure, or \<open>partial_function (option)\<close> where
  the code could loop, with the theorem that they return. Delays of the estimator stay below \<open>2 ^ 52\<close> nanoseconds, so that a
  \<open>float64\<close> holds them exactly, and the sizes and grants of the leaky bucket below \<open>2 ^ 51\<close> bytes, so that no \<open>int\<close> wraps. The
  bucket takes numbers of any width up to 64 bits; with more than 62, jumps ahead of the head stay below \<open>2 ^ 62\<close>. These
  are hypotheses of the properties that need them, not of the definitions.

  \<^bold>\<open>Not modelled.\<close> Log lines, and the options that only hand a logger on; sockets and \<^verbatim>\<open>pion\<close>, which are parameters; the
  bytes of the RTP and RTCP packets that \<^verbatim>\<open>pion\<close> parses; the type sets that bound the type parameters of the generic
  components, which are hypotheses on the widths where a theorem needs them.
\<close>

end
